(* ===== verification/Ivshmem_Prelude.thy ===== *)
theory Ivshmem_Prelude
  imports Main "HOL-Library.Word" "HOL-Library.Sublist"
begin

text \<open>
  Shared vocabulary of the development.  The program is C for an LP64 little-endian
  platform, so \<^verbatim>\<open>uint8_t\<close>, \<^verbatim>\<open>uint32_t\<close>, \<^verbatim>\<open>uint64_t\<close> and \<^verbatim>\<open>size_t\<close>
  are machine words whose arithmetic wraps, while a signed \<^verbatim>\<open>int\<close> is a mathematical
  integer whose range is checked where the program computes with it (leaving the range is
  undefined behaviour in C and a fault here).  Undefined behaviour is a value of
  \<open>c_fault\<close>, so that a theorem that a run does not fault says something.

  The theory also holds the layout rules for C structures (from which the sizes of the
  shared control sections are computed), byte-wise memory blocks, and generic lemmas on
  words and lists that the component theories share.
\<close>

named_theorems ivshmem_consts \<open>defining equations of the program's preprocessor constants\<close>
named_theorems ivshmem_defs \<open>defining equations of straight-line operations\<close>

section \<open>C types\<close>

type_synonym byte = "8 word"
type_synonym u32 = "32 word"
type_synonym u64 = "64 word"
type_synonym size_t = "64 word"
type_synonym c_int = int
type_synonym time_t = int

datatype c_fault = OutOfBounds | SignedOverflow | DivideByZero | UninitRead

type_synonym 'a c_result = "c_fault + 'a"

definition in_c_int :: "int \<Rightarrow> bool" where
  "in_c_int i \<longleftrightarrow> - (2 ^ 31) \<le> i \<and> i < 2 ^ 31"

text \<open>The error numbers of Linux that the program uses.\<close>

definition EINTR :: c_int where [ivshmem_consts]: "EINTR = 4"
definition EAGAIN :: c_int where [ivshmem_consts]: "EAGAIN = 11"
definition ENOMEM :: c_int where [ivshmem_consts]: "ENOMEM = 12"
definition EINVAL :: c_int where [ivshmem_consts]: "EINVAL = 22"

text \<open>The implicit conversions from \<^verbatim>\<open>int\<close> to the unsigned types.\<close>

definition size_of_int :: "c_int \<Rightarrow> size_t" where
  "size_of_int i = word_of_int i"

definition u32_of_int :: "c_int \<Rightarrow> u32" where
  "u32_of_int i = word_of_int i"

section \<open>Structure layout\<close>

text \<open>A member is given by its size and its alignment.\<close>

type_synonym c_member = "nat \<times> nat"

definition align_up :: "nat \<Rightarrow> nat \<Rightarrow> nat" where
  "align_up n a = (n + (a - 1)) div a * a"

fun struct_end :: "nat \<Rightarrow> c_member list \<Rightarrow> nat" where
  "struct_end off [] = off"
| "struct_end off ((sz, al) # ms) = struct_end (align_up off al + sz) ms"

fun struct_align :: "c_member list \<Rightarrow> nat" where
  "struct_align [] = 1"
| "struct_align ((sz, al) # ms) = max al (struct_align ms)"

definition sizeof_struct :: "c_member list \<Rightarrow> nat" where
  "sizeof_struct ms = align_up (struct_end 0 ms) (struct_align ms)"

definition c_u8 :: c_member where "c_u8 = (1, 1)"
definition c_u32 :: c_member where "c_u32 = (4, 4)"
definition c_u64 :: c_member where "c_u64 = (8, 8)"

definition c_array :: "nat \<Rightarrow> c_member \<Rightarrow> c_member" where
  "c_array n m = (n * fst m, snd m)"

definition c_struct :: "c_member list \<Rightarrow> c_member" where
  "c_struct ms = (sizeof_struct ms, struct_align ms)"

lemmas c_layout =
  align_up_def sizeof_struct_def c_u8_def c_u32_def c_u64_def c_array_def c_struct_def

section \<open>Words\<close>

lemma unat_add_no_wrap:
  fixes a b :: "'a::len word"
  assumes "unat a + unat b < 2 ^ LENGTH('a)"
  shows "unat (a + b) = unat a + unat b"
  using assms by (simp add: unat_word_ariths)

lemma unat_mult_no_wrap:
  fixes a b :: "'a::len word"
  assumes "unat a * unat b < 2 ^ LENGTH('a)"
  shows "unat (a * b) = unat a * unat b"
  using assms by (simp add: unat_word_ariths)

lemma unat_sub_no_wrap:
  fixes a b :: "'a::len word"
  assumes "unat b \<le> unat a"
  shows "unat (a - b) = unat a - unat b"
  using assms by (simp add: unat_sub word_le_nat_alt)

lemma unat_of_nat_small:
  assumes "n < 2 ^ LENGTH('a)"
  shows "unat (word_of_nat n :: 'a::len word) = n"
  using assms by (simp add: unat_of_nat take_bit_nat_eq_self)

lemma unat_size_of_int:
  assumes "0 \<le> i" and "i < 2 ^ 64"
  shows "unat (size_of_int i) = nat i"
  using assms by (simp add: size_of_int_def unat_eq_nat_uint uint_word_of_int take_bit_eq_mod)

lemma unat_u32_of_int:
  assumes "0 \<le> i" and "i < 2 ^ 32"
  shows "unat (u32_of_int i) = nat i"
  using assms by (simp add: u32_of_int_def unat_eq_nat_uint uint_word_of_int take_bit_eq_mod)

lemma word_eq_unatI: "unat a = unat b \<Longrightarrow> a = b"
  by (simp add: word_unat_eq_iff)

section \<open>Lists\<close>

lemma prefix_nthI:
  assumes "length xs \<le> length ys" and "\<And>i. i < length xs \<Longrightarrow> xs ! i = ys ! i"
  shows "prefix xs ys"
proof -
  have "xs = take (length xs) ys"
    using assms by (intro nth_equalityI) auto
  then show ?thesis by (metis take_is_prefix)
qed

end
