(* ===== verification/Ivshmem_Systems.thy ===== *)
theory Ivshmem_Systems
  imports Ivshmem_Prelude
begin

text \<open>
  Interleaved executions.  A system is an initial predicate and a step relation; its
  reachable states are the least set closed under both.  Three interfaces collect what the
  protocols of the program have in common: \<open>safe_system\<close> (an inductive invariant),
  \<open>stream_transport\<close> (what the receiver has got is a prefix of what the sender was
  given) and \<open>live_transport\<close> (from every reachable state the
  system can come to rest, with everything delivered).
\<close>

inductive reach :: "('s \<Rightarrow> bool) \<Rightarrow> ('s \<Rightarrow> 's \<Rightarrow> bool) \<Rightarrow> 's \<Rightarrow> bool"
  for init step where
  reach_init: "init s \<Longrightarrow> reach init step s"
| reach_step: "reach init step s \<Longrightarrow> step s t \<Longrightarrow> reach init step t"

inductive steps :: "('s \<Rightarrow> 's \<Rightarrow> bool) \<Rightarrow> 's \<Rightarrow> 's \<Rightarrow> bool"
  for step where
  steps_refl: "steps step s s"
| steps_step: "step s t \<Longrightarrow> steps step t u \<Longrightarrow> steps step s u"

lemma steps_trans: "steps step s t \<Longrightarrow> steps step t u \<Longrightarrow> steps step s u"
  by (induction rule: steps.induct) (auto intro: steps_step)

lemma steps_one: "step s t \<Longrightarrow> steps step s t"
  by (blast intro: steps.intros)

lemma reach_steps: "steps step s t \<Longrightarrow> reach init step s \<Longrightarrow> reach init step t"
  by (induction rule: steps.induct) (auto intro: reach_step)

locale safe_system =
  fixes init :: "'s \<Rightarrow> bool"
    and step :: "'s \<Rightarrow> 's \<Rightarrow> bool"
    and inv :: "'s \<Rightarrow> bool"
  assumes inv_init: "init s \<Longrightarrow> inv s"
    and inv_step: "inv s \<Longrightarrow> step s t \<Longrightarrow> inv t"
begin

lemma reach_inv: "reach init step s \<Longrightarrow> inv s"
  by (induction rule: reach.induct) (auto intro: inv_init inv_step)

lemma steps_inv: "steps step s t \<Longrightarrow> inv s \<Longrightarrow> inv t"
  by (induction rule: steps.induct) (auto intro: inv_step)

end

locale stream_transport = safe_system init step inv
  for init :: "'s \<Rightarrow> bool" and step :: "'s \<Rightarrow> 's \<Rightarrow> bool" and inv :: "'s \<Rightarrow> bool" +
  fixes stream :: "'s \<Rightarrow> 'b list"
    and delivered :: "'s \<Rightarrow> 'b list"
    and fin :: "'s \<Rightarrow> bool"
  assumes stream_step: "inv s \<Longrightarrow> step s t \<Longrightarrow> stream t = stream s"
    and delivered_prefix: "inv s \<Longrightarrow> prefix (delivered s) (stream s)"
    and fin_delivered: "inv s \<Longrightarrow> fin s \<Longrightarrow> delivered s = stream s"
begin

lemma reach_prefix: "reach init step s \<Longrightarrow> prefix (delivered s) (stream s)"
  by (blast intro: reach_inv delivered_prefix)

lemma reach_complete: "reach init step s \<Longrightarrow> fin s \<Longrightarrow> delivered s = stream s"
  by (blast intro: reach_inv fin_delivered)

end

locale live_transport = stream_transport +
  fixes quiet :: "'a \<Rightarrow> bool"
    and work :: "'a \<Rightarrow> nat"
  assumes quiet_fin: "inv s \<Longrightarrow> quiet s \<Longrightarrow> fin s"
    and progress: "inv s \<Longrightarrow> \<not> quiet s \<Longrightarrow> \<exists>t. step s t \<and> work t < work s"
begin

lemma inv_can_finish: "inv s \<Longrightarrow> \<exists>t. steps step s t \<and> quiet t"
proof (induction "work s" arbitrary: s rule: less_induct)
  case less
  show ?case
  proof (cases "quiet s")
    case True
    then show ?thesis by (blast intro: steps_refl)
  next
    case False
    from progress [OF less.prems False] obtain t
      where t: "step s t" "work t < work s" by blast
    from less.prems t(1) have "inv t" by (rule inv_step)
    from less.hyps [OF t(2) this] obtain u where "steps step t u" "quiet u" by blast
    with t(1) show ?thesis by (blast intro: steps_step)
  qed
qed

lemma steps_stream: "steps step s t \<Longrightarrow> inv s \<Longrightarrow> stream t = stream s"
  by (induction rule: steps.induct) (auto simp: stream_step intro: inv_step)

lemma reach_can_finish:
  assumes "reach init step s"
  shows "\<exists>t. steps step s t \<and> quiet t \<and> delivered t = stream s"
proof -
  have inv: "inv s" using assms by (rule reach_inv)
  then obtain t where t: "steps step s t" "quiet t" using inv_can_finish by blast
  moreover have "inv t" using t(1) inv by (rule steps_inv)
  ultimately show ?thesis
    using inv steps_stream quiet_fin fin_delivered by metis
qed

end

end
