(* ===== verification/Ivshmem_Secure.thy ===== *)
theory Ivshmem_Secure
  imports Ivshmem_Systems
begin

text \<open>
  The untrusted library, \<^verbatim>\<open>secure_ivshmem/src/ivshmem_secure.c\<close> with its header: the
  shared control section, the search for a channel, the request for a new one, and the
  lock-free send and receive loops (the page variant: the header fixes
  \<^verbatim>\<open>IVSHMEM_TYPE\<close> to 2).

  A pointer to a channel is its index in the \<^verbatim>\<open>channels\<close> array.  The data section is a
  map from offsets to bytes of which the first \<open>DATA_SECTION_SIZE\<close> offsets are mapped.

  Other processes change the shared memory while these functions run, so
  \<^verbatim>\<open>ivshmem_send_buffer\<close> and \<^verbatim>\<open>ivshmem_recv_buffer\<close> are modelled as machines:
  a local state with a program counter, and a function for one step.  A step is one
  condition, one assignment or one copied byte (the argument list of a \<^verbatim>\<open>memcpy\<close> is
  evaluated in a step of its own), and a search through the channel array is one step.
\<close>

section \<open>Shared data\<close>

definition IVSHMEM_MAX_CHANNELS :: nat where [ivshmem_consts]: "IVSHMEM_MAX_CHANNELS = 32"

definition IVSHMEM_PAGE_SIZE :: c_int where [ivshmem_consts]: "IVSHMEM_PAGE_SIZE = 4 * 1024"

definition IVSHMEM_SIZE :: c_int where [ivshmem_consts]: "IVSHMEM_SIZE = 4 * 1024 * 1024"

record channel_key =
  sender_vm :: u32
  sender_pid :: u32
  receiver_vm :: u32

record ivshmem_channel =
  chan_id :: u32
  chan_key :: channel_key
  buf_offset :: size_t
  buf_size :: size_t
  data_size :: size_t
  tail :: u32
  head :: u32
  num_page :: c_int
  head_touch :: c_int
  last_sent_at :: time_t

record control_section =
  free_start_offset :: size_t
  num_active_channels :: c_int
  last_channel_id :: u32
  channels :: "ivshmem_channel list"
  control_mutex :: byte
  has_channel_candidate :: bool
  channel_candidate :: channel_key

record shm =
  ctrl :: control_section
  shm_data :: "nat \<Rightarrow> byte"

definition channel_key_layout :: "c_member list" where
  "channel_key_layout = [c_u32, c_u32, c_u32]"

definition ivshmem_channel_layout :: "c_member list" where
  "ivshmem_channel_layout =
     [c_u32, c_struct channel_key_layout, c_u64, c_u64, c_u64, c_u32, c_u32, c_u32, c_u32, c_u64]"

definition control_section_layout :: "c_member list" where
  "control_section_layout =
     [c_u64, c_u32, c_u32, c_array IVSHMEM_MAX_CHANNELS (c_struct ivshmem_channel_layout),
      c_u8, c_u8, c_struct channel_key_layout]"

definition DATA_SECTION_SIZE :: size_t where
  "DATA_SECTION_SIZE = size_of_int IVSHMEM_SIZE - word_of_nat (sizeof_struct control_section_layout)"

text \<open>
  \<^verbatim>\<open>ivshmem_get_data_section\<close> returns the address just behind the control section, as an
  offset from the start of the mapping.
\<close>

definition ivshmem_get_data_section :: "nat \<Rightarrow> nat" where
  "ivshmem_get_data_section p_ctr_sec = p_ctr_sec + sizeof_struct control_section_layout"

definition upd_channel :: "nat \<Rightarrow> (ivshmem_channel \<Rightarrow> ivshmem_channel) \<Rightarrow> shm \<Rightarrow> shm" where
  "upd_channel c f sh =
     sh\<lparr>ctrl := (ctrl sh)\<lparr>channels := (channels (ctrl sh))[c := f (channels (ctrl sh) ! c)]\<rparr>\<rparr>"

abbreviation chan_at :: "shm \<Rightarrow> nat \<Rightarrow> ivshmem_channel" where
  "chan_at sh c \<equiv> channels (ctrl sh) ! c"

section \<open>Finding a channel\<close>

definition key_matches :: "channel_key \<Rightarrow> channel_key \<Rightarrow> bool" where
  "key_matches k ck \<longleftrightarrow>
     sender_vm ck = sender_vm k \<and>
     (sender_pid k = 0 \<or> sender_pid ck = sender_pid k) \<and>
     receiver_vm ck = receiver_vm k"

function find_channel_from :: "control_section \<Rightarrow> channel_key \<Rightarrow> nat \<Rightarrow> (nat option) c_result" where
  "find_channel_from cs k i =
     (if int i < num_active_channels cs then
        if length (channels cs) \<le> i then Inl OutOfBounds
        else if key_matches k (chan_key (channels cs ! i)) then Inr (Some i)
        else find_channel_from cs k (Suc i)
      else Inr None)"
  by pat_completeness auto
termination
  by (relation "measure (\<lambda>(cs, k, i). length (channels cs) - i)") auto

declare find_channel_from.simps [simp del]

definition ivshmem_find_channel :: "control_section \<Rightarrow> channel_key \<Rightarrow> (nat option) c_result" where
  "ivshmem_find_channel cs k = find_channel_from cs k 0"

section \<open>Sending\<close>

text \<open>
  \<^verbatim>\<open>MIN(size - IVSHMEM_PAGE_SIZE, IVSHMEM_PAGE_SIZE)\<close>, computed in \<^verbatim>\<open>size_t\<close>: the
  subtraction wraps.
\<close>

definition send_chunk :: "size_t \<Rightarrow> size_t" where
  "send_chunk sz = min (sz - size_of_int IVSHMEM_PAGE_SIZE) (size_of_int IVSHMEM_PAGE_SIZE)"

text \<open>The offset \<^verbatim>\<open>buf_offset + index * IVSHMEM_PAGE_SIZE\<close>: the product is 32 bits wide.\<close>

definition page_addr :: "ivshmem_channel \<Rightarrow> u32 \<Rightarrow> nat" where
  "page_addr ch i = unat (buf_offset ch + ucast (i * u32_of_int IVSHMEM_PAGE_SIZE))"

text \<open>\<^verbatim>\<open>(index + 1) % num_page\<close> in 32-bit unsigned arithmetic; a zero divisor is undefined.\<close>

definition next_index :: "ivshmem_channel \<Rightarrow> u32 \<Rightarrow> u32 c_result" where
  "next_index ch i =
     (if u32_of_int (num_page ch) = 0 then Inl DivideByZero
      else Inr ((i + 1) mod u32_of_int (num_page ch)))"

datatype send_pc =
  Send_find | Send_flag | Send_candidate | Send_wait | Send_refind
| Send_mutex | Send_size | Send_full1 | Send_full2 | Send_addr | Send_copy nat nat
| Send_head | Send_account | Send_stamp | Send_ret c_int | Send_fault c_fault

record sender =
  snd_pc :: send_pc
  snd_key :: channel_key
  snd_buf :: "byte list"
  snd_size :: size_t
  snd_chan :: nat
  snd_sent :: size_t

definition send_call :: "channel_key \<Rightarrow> byte list \<Rightarrow> size_t \<Rightarrow> sender" where
  "send_call k buf sz =
     \<lparr>snd_pc = Send_find, snd_key = k, snd_buf = buf, snd_size = sz, snd_chan = 0, snd_sent = 0\<rparr>"

text \<open>
  \<^verbatim>\<open>ivshmem_request_channel\<close> inside \<^verbatim>\<open>ivshmem_send_buffer\<close>: the search, the two writes
  that publish the request, the wait for the flag to be cleared, and the second search.
\<close>

definition request_channel_step :: "sender \<Rightarrow> shm \<Rightarrow> sender \<times> shm" where
  "request_channel_step t sh =
     (case snd_pc t of
        Send_find \<Rightarrow>
          (case ivshmem_find_channel (ctrl sh) (snd_key t) of
             Inl e \<Rightarrow> (t\<lparr>snd_pc := Send_fault e\<rparr>, sh)
           | Inr (Some c) \<Rightarrow> (t\<lparr>snd_pc := Send_mutex, snd_chan := c, snd_sent := 0\<rparr>, sh)
           | Inr None \<Rightarrow> (t\<lparr>snd_pc := Send_flag\<rparr>, sh))
      | Send_flag \<Rightarrow>
          (t\<lparr>snd_pc := Send_candidate\<rparr>, sh\<lparr>ctrl := (ctrl sh)\<lparr>has_channel_candidate := True\<rparr>\<rparr>)
      | Send_candidate \<Rightarrow>
          (t\<lparr>snd_pc := Send_wait\<rparr>, sh\<lparr>ctrl := (ctrl sh)\<lparr>channel_candidate := snd_key t\<rparr>\<rparr>)
      | Send_wait \<Rightarrow>
          (if has_channel_candidate (ctrl sh) then (t, sh) else (t\<lparr>snd_pc := Send_refind\<rparr>, sh))
      | Send_refind \<Rightarrow>
          (case ivshmem_find_channel (ctrl sh) (snd_key t) of
             Inl e \<Rightarrow> (t\<lparr>snd_pc := Send_fault e\<rparr>, sh)
           | Inr (Some c) \<Rightarrow> (t\<lparr>snd_pc := Send_mutex, snd_chan := c, snd_sent := 0\<rparr>, sh)
           | Inr None \<Rightarrow> (t\<lparr>snd_pc := Send_ret (- 1)\<rparr>, sh))
      | _ \<Rightarrow> (t, sh))"

text \<open>
  The loop of \<^verbatim>\<open>ivshmem_send_buffer\<close>.  The caller's buffer is the object \<^verbatim>\<open>p_buffer\<close>
  points to, with the length it was allocated with: reading behind its end is a fault, and
  so is writing behind the end of the data section.  \<open>now\<close> is the value of
  \<^verbatim>\<open>time(NULL)\<close>.
\<close>

definition send_copy_step :: "sender \<Rightarrow> nat \<Rightarrow> nat \<Rightarrow> shm \<Rightarrow> sender \<times> shm" where
  "send_copy_step t dst j sh =
     (if j < unat (send_chunk (snd_size t)) then
        if length (snd_buf t) \<le> unat (snd_sent t) + j \<or> unat DATA_SECTION_SIZE \<le> dst + j
        then (t\<lparr>snd_pc := Send_fault OutOfBounds\<rparr>, sh)
        else (t\<lparr>snd_pc := Send_copy dst (Suc j)\<rparr>,
              sh\<lparr>shm_data := (shm_data sh)(dst + j := snd_buf t ! (unat (snd_sent t) + j))\<rparr>)
      else (t\<lparr>snd_pc := Send_head\<rparr>, sh))"

definition send_loop_step :: "time_t \<Rightarrow> sender \<Rightarrow> shm \<Rightarrow> sender \<times> shm" where
  "send_loop_step now t sh =
     (let c = snd_chan t; ch = chan_at sh c in
      case snd_pc t of
        Send_mutex \<Rightarrow>
          (if control_mutex (ctrl sh) \<noteq> 0 then (t, sh) else (t\<lparr>snd_pc := Send_size\<rparr>, sh))
      | Send_size \<Rightarrow>
          (if snd_size t \<le> snd_sent t then (t\<lparr>snd_pc := Send_ret 0\<rparr>, sh)
           else (t\<lparr>snd_pc := Send_full1\<rparr>, sh))
      | Send_full1 \<Rightarrow>
          (if head ch = tail ch - 1 then (t\<lparr>snd_pc := Send_mutex\<rparr>, sh)
           else (t\<lparr>snd_pc := Send_full2\<rparr>, sh))
      | Send_full2 \<Rightarrow>
          (if head ch = u32_of_int (num_page ch - 1) \<and> tail ch = 0
           then (t\<lparr>snd_pc := Send_mutex\<rparr>, sh)
           else (t\<lparr>snd_pc := Send_addr\<rparr>, sh))
      | Send_addr \<Rightarrow> (t\<lparr>snd_pc := Send_copy (page_addr ch (head ch)) 0\<rparr>, sh)
      | Send_copy dst j \<Rightarrow> send_copy_step t dst j sh
      | Send_head \<Rightarrow>
          (case next_index ch (head ch) of
             Inl e \<Rightarrow> (t\<lparr>snd_pc := Send_fault e\<rparr>, sh)
           | Inr h \<Rightarrow> (t\<lparr>snd_pc := Send_account\<rparr>, upd_channel c (\<lambda>x. x\<lparr>head := h\<rparr>) sh))
      | Send_account \<Rightarrow>
          (t\<lparr>snd_pc := Send_stamp, snd_sent := snd_sent t + send_chunk (snd_size t)\<rparr>,
           upd_channel c (\<lambda>x. x\<lparr>data_size := data_size x + send_chunk (snd_size t)\<rparr>) sh)
      | Send_stamp \<Rightarrow>
          (t\<lparr>snd_pc := Send_mutex\<rparr>, upd_channel c (\<lambda>x. x\<lparr>last_sent_at := now\<rparr>) sh)
      | _ \<Rightarrow> (t, sh))"

definition in_request :: "send_pc \<Rightarrow> bool" where
  "in_request pc \<longleftrightarrow> pc \<in> {Send_find, Send_flag, Send_candidate, Send_wait, Send_refind}"

definition ivshmem_send_step :: "time_t \<Rightarrow> sender \<Rightarrow> shm \<Rightarrow> sender \<times> shm" where
  "ivshmem_send_step now t sh =
     (if in_request (snd_pc t) then request_channel_step t sh else send_loop_step now t sh)"

section \<open>Receiving\<close>

datatype recv_pc =
  Recv_find | Recv_mutex | Recv_size | Recv_empty | Recv_addr | Recv_copy nat nat
| Recv_tail | Recv_account | Recv_ret c_int | Recv_fault c_fault

record receiver =
  rcv_pc :: recv_pc
  rcv_key :: channel_key
  rcv_buf :: "byte list"
  rcv_size :: size_t
  rcv_chan :: nat
  rcv_received :: c_int

definition recv_call :: "channel_key \<Rightarrow> byte list \<Rightarrow> size_t \<Rightarrow> receiver" where
  "recv_call k buf sz =
     \<lparr>rcv_pc = Recv_find, rcv_key = k, rcv_buf = buf, rcv_size = sz, rcv_chan = 0, rcv_received = 0\<rparr>"

text \<open>
  \<^verbatim>\<open>int to_receive = MIN(size - data_received, IVSHMEM_PAGE_SIZE)\<close>: the minimum is a
  \<^verbatim>\<open>size_t\<close> of at most a page, so its conversion to \<^verbatim>\<open>int\<close> keeps the value.
\<close>

definition recv_chunk :: "size_t \<Rightarrow> c_int \<Rightarrow> c_int" where
  "recv_chunk sz received =
     uint (min (sz - size_of_int received) (size_of_int IVSHMEM_PAGE_SIZE))"

definition recv_copy_step :: "receiver \<Rightarrow> nat \<Rightarrow> nat \<Rightarrow> shm \<Rightarrow> receiver \<times> shm" where
  "recv_copy_step r src j sh =
     (if int j < recv_chunk (rcv_size r) (rcv_received r) then
        if length (rcv_buf r) \<le> nat (rcv_received r) + j \<or> unat DATA_SECTION_SIZE \<le> src + j
        then (r\<lparr>rcv_pc := Recv_fault OutOfBounds\<rparr>, sh)
        else (r\<lparr>rcv_pc := Recv_copy src (Suc j),
                rcv_buf := (rcv_buf r)[nat (rcv_received r) + j := shm_data sh (src + j)]\<rparr>, sh)
      else (r\<lparr>rcv_pc := Recv_tail\<rparr>, sh))"

text \<open>
  \<^verbatim>\<open>data_received\<close> is a local variable, so its update and the atomic subtraction from
  \<^verbatim>\<open>data_size\<close> are one step; an update that leaves the range of \<^verbatim>\<open>int\<close> is a fault.
\<close>

definition recv_loop_step :: "receiver \<Rightarrow> shm \<Rightarrow> receiver \<times> shm" where
  "recv_loop_step r sh =
     (let c = rcv_chan r; ch = chan_at sh c in
      case rcv_pc r of
        Recv_mutex \<Rightarrow>
          (if control_mutex (ctrl sh) \<noteq> 0 then (r, sh) else (r\<lparr>rcv_pc := Recv_size\<rparr>, sh))
      | Recv_size \<Rightarrow>
          (if rcv_size r \<le> size_of_int (rcv_received r) then (r\<lparr>rcv_pc := Recv_ret 0\<rparr>, sh)
           else (r\<lparr>rcv_pc := Recv_empty\<rparr>, sh))
      | Recv_empty \<Rightarrow>
          (if head ch = tail ch then (r\<lparr>rcv_pc := Recv_mutex\<rparr>, sh)
           else (r\<lparr>rcv_pc := Recv_addr\<rparr>, sh))
      | Recv_addr \<Rightarrow> (r\<lparr>rcv_pc := Recv_copy (page_addr ch (tail ch)) 0\<rparr>, sh)
      | Recv_copy src j \<Rightarrow> recv_copy_step r src j sh
      | Recv_tail \<Rightarrow>
          (case next_index ch (tail ch) of
             Inl e \<Rightarrow> (r\<lparr>rcv_pc := Recv_fault e\<rparr>, sh)
           | Inr n \<Rightarrow> (r\<lparr>rcv_pc := Recv_account\<rparr>, upd_channel c (\<lambda>x. x\<lparr>tail := n\<rparr>) sh))
      | Recv_account \<Rightarrow>
          (let n = recv_chunk (rcv_size r) (rcv_received r) in
           if in_c_int (rcv_received r + n)
           then (r\<lparr>rcv_pc := Recv_mutex, rcv_received := rcv_received r + n\<rparr>,
                 upd_channel c (\<lambda>x. x\<lparr>data_size := data_size x - size_of_int n\<rparr>) sh)
           else (r\<lparr>rcv_pc := Recv_fault SignedOverflow\<rparr>, sh))
      | _ \<Rightarrow> (r, sh))"

definition ivshmem_recv_step :: "receiver \<Rightarrow> shm \<Rightarrow> receiver \<times> shm" where
  "ivshmem_recv_step r sh =
     (if rcv_pc r = Recv_find then
        (case ivshmem_find_channel (ctrl sh) (rcv_key r) of
           Inl e \<Rightarrow> (r\<lparr>rcv_pc := Recv_fault e\<rparr>, sh)
         | Inr (Some c) \<Rightarrow> (r\<lparr>rcv_pc := Recv_mutex, rcv_chan := c, rcv_received := 0\<rparr>, sh)
         | Inr None \<Rightarrow> (r\<lparr>rcv_pc := Recv_ret (- 1)\<rparr>, sh))
      else recv_loop_step r sh)"

section \<open>The search\<close>

lemma find_channel_from_first:
  assumes "num_active_channels cs \<le> int (length (channels cs))"
    and "\<forall>j < i. \<not> key_matches k (chan_key (channels cs ! j))"
  shows "\<exists>r. find_channel_from cs k i = Inr r \<and>
    (case r of
       Some c \<Rightarrow> int c < num_active_channels cs \<and> key_matches k (chan_key (channels cs ! c)) \<and>
                 (\<forall>j < c. \<not> key_matches k (chan_key (channels cs ! j)))
     | None \<Rightarrow> (\<forall>j. int j < num_active_channels cs \<longrightarrow> \<not> key_matches k (chan_key (channels cs ! j))))"
  using assms
proof (induction cs k i rule: find_channel_from.induct)
  case (1 cs k i)
  show ?case
  proof (cases "int i < num_active_channels cs \<and> \<not> key_matches k (chan_key (channels cs ! i))")
    case True
    then have "i < length (channels cs)" using "1.prems"(1) by linarith
    with True "1.IH" "1.prems" show ?thesis
      by (subst find_channel_from.simps) (simp add: less_Suc_eq)
  next
    case False
    with "1.prems" show ?thesis
      by (subst find_channel_from.simps) (auto simp: not_less)
  qed
qed

lemma find_channel_cases:
  assumes "num_active_channels cs \<le> int (length (channels cs))"
  obtains (found) c where "ivshmem_find_channel cs k = Inr (Some c)"
      "int c < num_active_channels cs" "key_matches k (chan_key (channels cs ! c))"
      "\<And>j. j < c \<Longrightarrow> \<not> key_matches k (chan_key (channels cs ! j))"
  | (none) "ivshmem_find_channel cs k = Inr None"
      "\<And>j. int j < num_active_channels cs \<Longrightarrow> \<not> key_matches k (chan_key (channels cs ! j))"
proof -
  obtain r where "ivshmem_find_channel cs k = Inr r"
    and "case r of
       Some c \<Rightarrow> int c < num_active_channels cs \<and> key_matches k (chan_key (channels cs ! c)) \<and>
                 (\<forall>j < c. \<not> key_matches k (chan_key (channels cs ! j)))
     | None \<Rightarrow> (\<forall>j. int j < num_active_channels cs \<longrightarrow> \<not> key_matches k (chan_key (channels cs ! j)))"
    using find_channel_from_first [OF assms, of 0 k] by (auto simp: ivshmem_find_channel_def)
  then show ?thesis using that by (cases r) auto
qed

end
