(* ===== verification/Ivshmem_Trusted.thy ===== *)
theory Ivshmem_Trusted
  imports Ivshmem_Secure
begin

text \<open>
  The trusted host's library, \<^verbatim>\<open>secure_ivshmem/src/ivshmem_trusted.c\<close>: initialisation of
  the control section, creation of channels on request, and the periodic rebalancing of the
  channel buffers.  The trusted host is the only writer of the layout fields, so each of its
  operations is one function on the control section; what \<^verbatim>\<open>malloc\<close> and
  \<^verbatim>\<open>time\<close> return are arguments.

  The second half states the well-formedness of the control section (buffers laid out one
  after the other inside the data section, ring indices in range, identifiers in order) and
  shows that every operation keeps it.
\<close>

section \<open>Operations\<close>

definition IVSHMEM_CHANNEL_INIT_SIZE :: c_int where
  [ivshmem_consts]: "IVSHMEM_CHANNEL_INIT_SIZE = 4 * IVSHMEM_PAGE_SIZE"

definition zero_key :: channel_key where
  "zero_key = \<lparr>sender_vm = 0, sender_pid = 0, receiver_vm = 0\<rparr>"

text \<open>What \<^verbatim>\<open>memset(..., 0, sizeof(struct IvshmemChannel))\<close> leaves.\<close>

definition zero_channel :: ivshmem_channel where
  "zero_channel =
     \<lparr>chan_id = 0, chan_key = zero_key, buf_offset = 0, buf_size = 0, data_size = 0, tail = 0,
      head = 0, num_page = 0, head_touch = 0, last_sent_at = 0\<rparr>"

definition ivshmem_init_control_section :: "shm \<Rightarrow> c_int \<times> shm" where
  "ivshmem_init_control_section sh =
     (0, \<lparr>ctrl = (ctrl sh)\<lparr>free_start_offset := 0, num_active_channels := 0, last_channel_id := 1,
                          control_mutex := 0, has_channel_candidate := False,
                          channels := replicate IVSHMEM_MAX_CHANNELS zero_channel\<rparr>,
          shm_data = (\<lambda>a. if a < unat DATA_SECTION_SIZE then 0 else shm_data sh a)\<rparr>)"

definition ivshmem_check_is_control_requested :: "control_section \<Rightarrow> c_int" where
  "ivshmem_check_is_control_requested cs = (if has_channel_candidate cs then 1 else 0)"

definition ivshmem_init_channel ::
  "time_t \<Rightarrow> control_section \<Rightarrow> ivshmem_channel \<Rightarrow> channel_key \<Rightarrow> ivshmem_channel" where
  "ivshmem_init_channel now cs ch k =
     (let ch1 = ch\<lparr>chan_id := last_channel_id cs,
                   chan_key := \<lparr>sender_vm = sender_vm k, sender_pid = sender_pid k,
                                receiver_vm = receiver_vm k\<rparr>,
                   buf_offset := free_start_offset cs,
                   buf_size := size_of_int IVSHMEM_CHANNEL_INIT_SIZE, data_size := 0,
                   last_sent_at := now\<rparr>
      in ch1\<lparr>tail := 0, head := 0,
             num_page := IVSHMEM_CHANNEL_INIT_SIZE div IVSHMEM_PAGE_SIZE,
             head_touch := 0, last_sent_at := 0\<rparr>)"

definition ivshmem_create_channel ::
  "time_t \<Rightarrow> control_section \<Rightarrow> channel_key \<Rightarrow> (c_int \<times> control_section) c_result" where
  "ivshmem_create_channel now cs k =
     (if int IVSHMEM_MAX_CHANNELS \<le> num_active_channels cs then Inr (- 1, cs)
      else if DATA_SECTION_SIZE < free_start_offset cs + size_of_int IVSHMEM_CHANNEL_INIT_SIZE
      then Inr (- 1, cs)
      else if num_active_channels cs < 0 then Inl OutOfBounds
      else
        let n = nat (num_active_channels cs) in
        Inr (0, cs\<lparr>channels := (channels cs)[n := ivshmem_init_channel now cs (channels cs ! n) k],
                   last_channel_id := last_channel_id cs + 1,
                   free_start_offset :=
                     free_start_offset cs + size_of_int IVSHMEM_CHANNEL_INIT_SIZE,
                   num_active_channels := num_active_channels cs + 1\<rparr>))"

definition ivshmem_trusted_control ::
  "time_t \<Rightarrow> control_section \<Rightarrow> (c_int \<times> control_section) c_result" where
  "ivshmem_trusted_control now cs =
     (if \<not> has_channel_candidate cs then Inr (0, cs)
      else
        case ivshmem_create_channel now (cs\<lparr>control_mutex := 1\<rparr>) (channel_candidate cs) of
          Inl e \<Rightarrow> Inl e
        | Inr (ret, cs') \<Rightarrow> Inr (ret, cs'\<lparr>has_channel_candidate := False, control_mutex := 0\<rparr>))"

definition ivshmem_find_or_create_channel ::
  "time_t \<Rightarrow> control_section \<Rightarrow> channel_key \<Rightarrow> (nat option \<times> control_section) c_result" where
  "ivshmem_find_or_create_channel now cs k =
     (case ivshmem_find_channel cs k of
        Inl e \<Rightarrow> Inl e
      | Inr (Some c) \<Rightarrow> Inr (Some c, cs)
      | Inr None \<Rightarrow>
          (case ivshmem_create_channel now cs k of
             Inl e \<Rightarrow> Inl e
           | Inr (ret, cs') \<Rightarrow>
               if ret \<noteq> 0 then Inr (None, cs')
               else Inr (Some (nat (num_active_channels cs' - 1)), cs')))"

text \<open>
  The size every channel gets: the data section less one initial buffer and one byte,
  divided by the number of channels and rounded down to whole pages.
\<close>

definition rebalance_num_page :: "c_int \<Rightarrow> c_int" where
  "rebalance_num_page n =
     uint ((DATA_SECTION_SIZE - size_of_int IVSHMEM_CHANNEL_INIT_SIZE - 1) div size_of_int n
           div size_of_int IVSHMEM_PAGE_SIZE)"

definition rebalance_size :: "c_int \<Rightarrow> size_t" where
  "rebalance_size n = size_of_int (rebalance_num_page n * IVSHMEM_PAGE_SIZE)"

text \<open>
  The loop of the rebalancing runs over the temporary copy of the active channels and
  rewrites the array from the front, counting in \<open>cnt\<close>.
\<close>

fun rebalance_loop ::
  "c_int \<Rightarrow> size_t \<Rightarrow> ivshmem_channel list \<Rightarrow> nat \<Rightarrow> control_section \<Rightarrow> nat \<times> control_section" where
  "rebalance_loop np sz [] cnt cs = (cnt, cs)"
| "rebalance_loop np sz (ch # tmp) cnt cs =
     rebalance_loop np sz tmp (Suc cnt)
       (cs\<lparr>channels := (channels cs)[cnt :=
             ch\<lparr>buf_offset := free_start_offset cs, buf_size := sz,
                tail := tail ch mod u32_of_int np, head := head ch mod u32_of_int np,
                num_page := np, head_touch := 0\<rparr>],
           free_start_offset := free_start_offset cs + sz\<rparr>)"

definition ivshmem_trusted_rebalancing ::
  "bool \<Rightarrow> control_section \<Rightarrow> (c_int \<times> control_section) c_result" where
  "ivshmem_trusted_rebalancing malloc_ok cs =
     (let n = num_active_channels cs; np = rebalance_num_page n; sz = rebalance_size n in
      if n \<le> 0 then Inr (0, cs)
      else if sz = buf_size (channels cs ! 0) then Inr (0, cs\<lparr>control_mutex := 0\<rparr>)
      else if \<not> malloc_ok then Inr (- 1, cs\<lparr>control_mutex := 1\<rparr>)
      else if length (channels cs) < nat n then Inl OutOfBounds
      else if np = 0 then Inl DivideByZero
      else
        case rebalance_loop np sz (take (nat n) (channels cs)) 0
               (cs\<lparr>control_mutex := 1, free_start_offset := 0\<rparr>) of
          (cnt, cs') \<Rightarrow>
            Inr (0, cs'\<lparr>num_active_channels := int cnt,
                        channels := take cnt (channels cs')
                          @ replicate (IVSHMEM_MAX_CHANNELS - cnt) zero_channel,
                        control_mutex := 0\<rparr>))"

text \<open>The channels after a rebalancing, as a function of the channels before it.\<close>

fun rebalanced :: "c_int \<Rightarrow> size_t \<Rightarrow> size_t \<Rightarrow> ivshmem_channel list \<Rightarrow> ivshmem_channel list" where
  "rebalanced np sz off [] = []"
| "rebalanced np sz off (ch # chs) =
     ch\<lparr>buf_offset := off, buf_size := sz, tail := tail ch mod u32_of_int np,
        head := head ch mod u32_of_int np, num_page := np, head_touch := 0\<rparr>
     # rebalanced np sz (off + sz) chs"

section \<open>Well-formed control sections\<close>

definition active :: "control_section \<Rightarrow> ivshmem_channel list" where
  "active cs = take (nat (num_active_channels cs)) (channels cs)"

definition wf_channel :: "ivshmem_channel \<Rightarrow> bool" where
  "wf_channel ch \<longleftrightarrow>
     2 \<le> num_page ch \<and> num_page ch \<le> 1023 \<and> unat (buf_size ch) = nat (num_page ch) * 4096 \<and>
     unat (head ch) < nat (num_page ch) \<and> unat (tail ch) < nat (num_page ch)"

fun contiguous :: "nat \<Rightarrow> ivshmem_channel list \<Rightarrow> nat \<Rightarrow> bool" where
  "contiguous off [] e = (off = e)"
| "contiguous off (ch # chs) e =
     (unat (buf_offset ch) = off \<and> contiguous (off + unat (buf_size ch)) chs e)"

definition ids_in_order :: "ivshmem_channel list \<Rightarrow> bool" where
  "ids_in_order chs \<longleftrightarrow> map unat (map chan_id chs) = [1..<Suc (length chs)]"

definition wf_ctrl :: "control_section \<Rightarrow> bool" where
  "wf_ctrl cs \<longleftrightarrow>
     length (channels cs) = IVSHMEM_MAX_CHANNELS \<and>
     0 \<le> num_active_channels cs \<and> num_active_channels cs \<le> int IVSHMEM_MAX_CHANNELS \<and>
     list_all wf_channel (active cs) \<and>
     contiguous 0 (active cs) (unat (free_start_offset cs)) \<and>
     unat (free_start_offset cs) \<le> unat DATA_SECTION_SIZE \<and>
     ids_in_order (active cs) \<and>
     unat (last_channel_id cs) = Suc (length (active cs))"

text \<open>
  Two shapes the buffer sizes go through: after a rebalancing all channels have the balanced
  size, and later channels have the initial size until the next one.
\<close>

definition balanced :: "control_section \<Rightarrow> bool" where
  "balanced cs \<longleftrightarrow>
     (let n = num_active_channels cs in map buf_size (active cs) = replicate (nat n) (rebalance_size n))"

definition wf_sizes :: "control_section \<Rightarrow> bool" where
  "wf_sizes cs \<longleftrightarrow>
     (\<exists>m. m \<le> length (active cs) \<and>
        map buf_size (active cs) =
          replicate m (rebalance_size (int m))
          @ replicate (length (active cs) - m) (size_of_int IVSHMEM_CHANNEL_INIT_SIZE))"

text \<open>A concrete control section with one balanced and one fresh channel, for the witnesses.\<close>

definition demo_channel :: "u32 \<Rightarrow> size_t \<Rightarrow> c_int \<Rightarrow> u32 \<Rightarrow> ivshmem_channel" where
  "demo_channel i off np h =
     \<lparr>chan_id = i, chan_key = \<lparr>sender_vm = 1, sender_pid = i, receiver_vm = 2\<rparr>, buf_offset = off,
      buf_size = size_of_int (np * 4096), data_size = 0, tail = 0, head = h, num_page = np,
      head_touch = 0, last_sent_at = 0\<rparr>"

definition demo_ctrl :: control_section where
  "demo_ctrl =
     \<lparr>free_start_offset = 4190208, num_active_channels = 2, last_channel_id = 3,
      channels = [demo_channel 1 0 1019 509, demo_channel 2 4173824 4 0] @ replicate 30 zero_channel,
      control_mutex = 0, has_channel_candidate = False, channel_candidate = zero_key\<rparr>"

definition demo_shm :: shm where
  "demo_shm = \<lparr>ctrl = demo_ctrl, shm_data = (\<lambda>_. 0)\<rparr>"

section \<open>Constants\<close>

lemma sizeof_control_section: "sizeof_struct control_section_layout = 2080"
  by (simp add: control_section_layout_def ivshmem_channel_layout_def channel_key_layout_def
      c_layout ivshmem_consts)

lemma unat_page_size [simp]: "unat (size_of_int IVSHMEM_PAGE_SIZE) = 4096"
  by (simp add: unat_size_of_int ivshmem_consts)

lemma unat_init_size [simp]: "unat (size_of_int IVSHMEM_CHANNEL_INIT_SIZE) = 16384"
  by (simp add: unat_size_of_int ivshmem_consts)

lemma unat_u32_page_size [simp]: "unat (u32_of_int IVSHMEM_PAGE_SIZE) = 4096"
  by (simp add: unat_u32_of_int ivshmem_consts)

lemma unat_data_section_size [simp]: "unat DATA_SECTION_SIZE = 4192224"
  by (simp add: DATA_SECTION_SIZE_def sizeof_control_section size_of_int_def ivshmem_consts)

section \<open>The balanced size\<close>

lemma rebalance_num_page_eq:
  assumes "0 < n" and "n < 2 ^ 31"
  shows "rebalance_num_page n = 4175839 div n div 4096"
proof -
  have "uint (size_of_int n) = n"
    using assms by (simp add: size_of_int_def uint_word_of_int take_bit_eq_mod)
  moreover have "DATA_SECTION_SIZE - size_of_int IVSHMEM_CHANNEL_INIT_SIZE - 1 = 4175839"
    by (simp add: DATA_SECTION_SIZE_def sizeof_control_section size_of_int_def ivshmem_consts)
  moreover have "uint (size_of_int IVSHMEM_PAGE_SIZE) = 4096"
    by (simp add: size_of_int_def ivshmem_consts)
  ultimately show ?thesis
    by (simp add: rebalance_num_page_def uint_div)
qed

lemma rebalance_pages_table:
  "list_all (\<lambda>n. 31 \<le> 4175839 div n div 4096 \<and> 4175839 div n div 4096 \<le> (1019::int) \<and>
      n * (4175839 div n div 4096) \<le> 1019 \<and>
      4175839 div (n + 1) div 4096 < 4175839 div n div 4096) [1..32]"
  by code_simp

lemma rebalance_num_page_bounds:
  assumes "0 < n" and "n \<le> 32"
  shows "31 \<le> rebalance_num_page n" and "rebalance_num_page n \<le> 1019"
    and "n * rebalance_num_page n \<le> 1019"
    and "rebalance_num_page (n + 1) < rebalance_num_page n"
  using rebalance_pages_table assms by (simp_all add: rebalance_num_page_eq list_all_iff)

lemma unat_rebalance_size:
  assumes "0 < n" and "n \<le> 32"
  shows "unat (rebalance_size n) = nat (rebalance_num_page n) * 4096"
  using rebalance_num_page_bounds [OF assms]
  by (simp add: rebalance_size_def IVSHMEM_PAGE_SIZE_def unat_size_of_int nat_mult_distrib)

lemma rebalance_num_page_decreasing:
  assumes "0 < m" and "m < n" and "n \<le> 32"
  shows "rebalance_num_page n < rebalance_num_page m"
proof -
  have "n \<le> 32 \<longrightarrow> rebalance_num_page n < rebalance_num_page m"
    using assms(2)
  proof (induction n rule: int_gr_induct)
    case base
    then show ?case using assms(1) by (auto intro: rebalance_num_page_bounds)
  next
    case (step i)
    then show ?case using assms(1) rebalance_num_page_bounds(4) [of i] by auto
  qed
  then show ?thesis using assms(3) by blast
qed

lemma rebalance_size_inj:
  assumes "0 < m" "m \<le> 32" "0 < n" "n \<le> 32" "rebalance_size m = rebalance_size n"
  shows "m = n"
proof -
  have "nat (rebalance_num_page m) * 4096 = nat (rebalance_num_page n) * 4096"
    using assms unat_rebalance_size by metis
  then have "rebalance_num_page m = rebalance_num_page n"
    using rebalance_num_page_bounds [of m] rebalance_num_page_bounds [of n] assms by simp
  then show ?thesis
    using rebalance_num_page_decreasing assms by (metis less_irrefl linorder_neqE)
qed

section \<open>What the rebalancing loop computes\<close>

lemma length_rebalanced [simp]: "length (rebalanced np sz off chs) = length chs"
  by (induction chs arbitrary: off) auto

lemma rebalance_loop_eq:
  assumes "cnt + length tmp \<le> length (channels cs)"
  shows "rebalance_loop np sz tmp cnt cs =
    (cnt + length tmp,
     cs\<lparr>channels := take cnt (channels cs) @ rebalanced np sz (free_start_offset cs) tmp
          @ drop (cnt + length tmp) (channels cs),
        free_start_offset := free_start_offset cs + word_of_nat (length tmp) * sz\<rparr>)"
  using assms
proof (induction tmp arbitrary: cnt cs)
  case Nil
  then show ?case by simp
next
  case (Cons ch tmp)
  have len: "Suc cnt + length tmp \<le> length (channels cs)" using Cons.prems by simp
  have cnt: "cnt < length (channels cs)" using Cons.prems by simp
  show ?case
    using Cons.IH [of "Suc cnt"] len cnt
    by (simp add: take_Suc_conv_app_nth take_update_swap list_update_beyond algebra_simps)
qed

lemma rebalanced_fields:
  "map chan_key (rebalanced np sz off chs) = map chan_key chs"
  "map chan_id (rebalanced np sz off chs) = map chan_id chs"
  "map data_size (rebalanced np sz off chs) = map data_size chs"
  by (induction chs arbitrary: off) auto

lemma rebalanced_nth:
  assumes "i < length chs"
  shows "rebalanced np sz off chs ! i =
    (chs ! i)\<lparr>buf_offset := off + word_of_nat i * sz, buf_size := sz,
       tail := tail (chs ! i) mod u32_of_int np, head := head (chs ! i) mod u32_of_int np,
       num_page := np, head_touch := 0\<rparr>"
  using assms
proof (induction chs arbitrary: off i)
  case Nil
  then show ?case by simp
next
  case (Cons ch chs)
  then show ?case by (cases i) (auto simp: algebra_simps)
qed

lemma rebalanced_contiguous:
  assumes "unat off + length chs * unat sz < 2 ^ 64"
  shows "contiguous (unat off) (rebalanced np sz off chs) (unat off + length chs * unat sz)"
  using assms
proof (induction chs arbitrary: off)
  case Nil
  then show ?case by simp
next
  case (Cons ch chs)
  have add: "unat (off + sz) = unat off + unat sz"
    using Cons.prems by (intro unat_add_no_wrap) auto
  have "unat (off + sz) + length chs * unat sz < 2 ^ 64"
    using Cons.prems add by simp
  from Cons.IH [OF this] show ?case by (simp add: add algebra_simps)
qed

lemma wf_ctrl_length_active:
  assumes "wf_ctrl cs"
  shows "length (active cs) = nat (num_active_channels cs)"
  using assms by (auto simp: wf_ctrl_def active_def)

lemma active_nth [simp]: "i < nat (num_active_channels cs) \<Longrightarrow> active cs ! i = channels cs ! i"
  by (simp add: active_def)

lemma contiguous_append:
  "contiguous off (xs @ ys) e \<longleftrightarrow> (\<exists>m. contiguous off xs m \<and> contiguous m ys e)"
  by (induction xs arbitrary: off) auto

lemma rebalancing_eq:
  assumes wf: "wf_ctrl cs" and n: "n = num_active_channels cs" "0 < n"
    and sz: "rebalance_size n \<noteq> buf_size (channels cs ! 0)"
  shows "ivshmem_trusted_rebalancing True cs =
    Inr (0, cs\<lparr>channels := rebalanced (rebalance_num_page n) (rebalance_size n) 0 (active cs)
                 @ replicate (IVSHMEM_MAX_CHANNELS - nat n) zero_channel,
               free_start_offset := word_of_nat (nat n) * rebalance_size n,
               control_mutex := 0\<rparr>)"
proof -
  have len: "length (channels cs) = 32" "nat n \<le> 32" and "n \<le> 32"
    using wf n by (auto simp: wf_ctrl_def IVSHMEM_MAX_CHANNELS_def)
  then have np: "rebalance_num_page n \<noteq> 0"
    using rebalance_num_page_bounds [of n] n by simp
  show ?thesis
    using n sz len np
    by (simp add: ivshmem_trusted_rebalancing_def rebalance_loop_eq active_def Let_def min_absorb2)
qed

lemma rebalanced_wf_channels:
  assumes "0 < n" and "n \<le> 32"
  shows "list_all wf_channel (rebalanced (rebalance_num_page n) (rebalance_size n) off chs)"
proof -
  let ?np = "rebalance_num_page n"
  note np = rebalance_num_page_bounds [OF assms]
  have u: "unat (u32_of_int ?np) = nat ?np"
    using np by (intro unat_u32_of_int) auto
  have m: "unat (x mod u32_of_int ?np) < nat ?np" for x :: u32
    using np u by (simp add: unat_mod)
  show ?thesis
    using np by (induction chs arbitrary: off) (auto simp: wf_channel_def unat_rebalance_size assms m)
qed

lemma rebalance_total:
  assumes "0 < n" and "n \<le> 32"
  shows "nat n * unat (rebalance_size n) \<le> 4173824"
    and "unat (word_of_nat (nat n) * rebalance_size n) = nat n * unat (rebalance_size n)"
proof -
  have "nat n * nat (rebalance_num_page n) \<le> 1019"
    using rebalance_num_page_bounds(1,3) [OF assms] assms by (simp flip: nat_mult_distrib)
  then show le: "nat n * unat (rebalance_size n) \<le> 4173824"
    using unat_rebalance_size [OF assms] by simp
  have "unat (word_of_nat (nat n) :: size_t) = nat n"
    using assms by (intro unat_of_nat_small) simp
  then show "unat (word_of_nat (nat n) * rebalance_size n) = nat n * unat (rebalance_size n)"
    using le by (subst unat_mult_no_wrap) auto
qed

lemma wf_ctrl_rebalanced:
  assumes wf: "wf_ctrl cs" and n: "n = num_active_channels cs" "0 < n"
  shows "wf_ctrl (cs\<lparr>channels := rebalanced (rebalance_num_page n) (rebalance_size n) 0 (active cs)
                 @ replicate (IVSHMEM_MAX_CHANNELS - nat n) zero_channel,
               free_start_offset := word_of_nat (nat n) * rebalance_size n,
               control_mutex := 0\<rparr>)"
    (is "wf_ctrl ?cs'")
proof -
  let ?chs = "rebalanced (rebalance_num_page n) (rebalance_size n) 0 (active cs)"
  have n32: "n \<le> 32" and la: "length (active cs) = nat n"
    using wf n by (auto simp: wf_ctrl_length_active) (simp add: wf_ctrl_def IVSHMEM_MAX_CHANNELS_def)
  have act: "active ?cs' = ?chs"
    using la n by (simp add: active_def)
  have "contiguous 0 ?chs (nat n * unat (rebalance_size n))"
    using rebalanced_contiguous [of 0 "active cs" "rebalance_size n" "rebalance_num_page n"]
      rebalance_total(1) [OF n(2) n32] la by simp
  moreover have "ids_in_order ?chs"
    using wf unfolding ids_in_order_def rebalanced_fields wf_ctrl_def by simp
  moreover have "list_all wf_channel ?chs"
    by (rule rebalanced_wf_channels [OF n(2) n32])
  moreover have "unat (last_channel_id cs) = Suc (length ?chs)"
    using wf by (simp add: wf_ctrl_def)
  moreover have "length (channels ?cs') = IVSHMEM_MAX_CHANNELS"
    using la n32 by (simp add: IVSHMEM_MAX_CHANNELS_def)
  moreover have "num_active_channels cs \<le> int IVSHMEM_MAX_CHANNELS"
    using wf by (simp add: wf_ctrl_def)
  ultimately show ?thesis
    using rebalance_total [OF n(2) n32] n
    unfolding wf_ctrl_def act by simp
qed

lemma wf_ctrl_frame [simp]:
  "wf_ctrl (cs\<lparr>control_mutex := m\<rparr>) = wf_ctrl cs"
  "wf_ctrl (cs\<lparr>has_channel_candidate := b\<rparr>) = wf_ctrl cs"
  "wf_ctrl (cs\<lparr>channel_candidate := k\<rparr>) = wf_ctrl cs"
  by (simp_all add: wf_ctrl_def active_def)

lemma rebalancing_wf:
  assumes "wf_ctrl cs"
  shows "\<exists>ret cs'. ivshmem_trusted_rebalancing ok cs = Inr (ret, cs') \<and> wf_ctrl cs' \<and>
     num_active_channels cs' = num_active_channels cs"
proof (cases "0 < num_active_channels cs \<and> ok \<and>
    rebalance_size (num_active_channels cs) \<noteq> buf_size (channels cs ! 0)")
  case True
  then show ?thesis
    using rebalancing_eq [OF assms refl] wf_ctrl_rebalanced [OF assms refl] by simp
next
  case False
  then show ?thesis
    using assms by (auto simp: ivshmem_trusted_rebalancing_def Let_def)
qed

section \<open>Creating a channel\<close>

lemma create_channel_cases:
  assumes "wf_ctrl cs"
  obtains (full) "num_active_channels cs = 32" "ivshmem_create_channel now cs k = Inr (- 1, cs)"
  | (no_space) "num_active_channels cs < 32" "4175840 < unat (free_start_offset cs)"
      "ivshmem_create_channel now cs k = Inr (- 1, cs)"
  | (created) n cs' where "n = nat (num_active_channels cs)" "n < 32"
      "unat (free_start_offset cs) \<le> 4175840"
      "cs' = cs\<lparr>channels := (channels cs)[n := ivshmem_init_channel now cs (channels cs ! n) k],
                   last_channel_id := last_channel_id cs + 1,
                   free_start_offset :=
                     free_start_offset cs + size_of_int IVSHMEM_CHANNEL_INIT_SIZE,
                   num_active_channels := num_active_channels cs + 1\<rparr>"
      "ivshmem_create_channel now cs k = Inr (0, cs')"
      "unat (free_start_offset cs') = unat (free_start_offset cs) + 16384"
proof -
  have add: "unat (free_start_offset cs + size_of_int IVSHMEM_CHANNEL_INIT_SIZE) =
      unat (free_start_offset cs) + 16384"
    using assms by (subst unat_add_no_wrap) (auto simp: wf_ctrl_def)
  have n: "0 \<le> num_active_channels cs" "num_active_channels cs \<le> 32"
    using assms by (auto simp: wf_ctrl_def IVSHMEM_MAX_CHANNELS_def)
  have gt: "DATA_SECTION_SIZE < free_start_offset cs + size_of_int IVSHMEM_CHANNEL_INIT_SIZE \<longleftrightarrow>
      4175840 < unat (free_start_offset cs)"
    by (auto simp: word_less_nat_alt add)
  show ?thesis
    using that n add gt
    by (cases "num_active_channels cs = 32"; cases "4175840 < unat (free_start_offset cs)")
       (auto simp: ivshmem_create_channel_def IVSHMEM_MAX_CHANNELS_def Let_def not_less)
qed

lemma wf_channel_init: "wf_channel (ivshmem_init_channel now cs ch k)"
  by (simp add: ivshmem_init_channel_def wf_channel_def Let_def ivshmem_consts
      unat_size_of_int)

lemma create_channel_wf:
  assumes wf: "wf_ctrl cs"
  shows "\<exists>ret cs'. ivshmem_create_channel now cs k = Inr (ret, cs') \<and> wf_ctrl cs' \<and>
     num_active_channels cs \<le> num_active_channels cs'"
  using wf
proof (cases rule: create_channel_cases [where now = now and k = k])
  case (created n cs')
  let ?ch = "ivshmem_init_channel now cs (channels cs ! n) k"
  have len: "length (channels cs) = 32" "n < length (channels cs)"
    using wf created by (auto simp: wf_ctrl_def IVSHMEM_MAX_CHANNELS_def)
  have act: "active cs' = active cs @ [?ch]"
    using created(1,2) len wf unfolding created(4)
    by (simp add: active_def wf_ctrl_def nat_add_distrib take_Suc_conv_app_nth)
  have off: "unat (buf_offset ?ch) = unat (free_start_offset cs)" "unat (buf_size ?ch) = 16384"
    "chan_id ?ch = last_channel_id cs"
    by (simp_all add: ivshmem_init_channel_def Let_def)
  have la: "length (active cs) = n" using wf created(1) by (simp add: wf_ctrl_length_active)
  have id: "unat (last_channel_id cs) = Suc n" "unat (last_channel_id cs') = Suc (Suc n)"
    using wf la created(2,4) by (auto simp: wf_ctrl_def unat_word_ariths)
  have "ids_in_order (active cs')"
    using wf la id by (simp add: act ids_in_order_def off wf_ctrl_def)
  moreover have "contiguous 0 (active cs') (unat (free_start_offset cs'))"
    using wf off created(6) by (auto simp: act contiguous_append wf_ctrl_def)
  ultimately have "wf_ctrl cs'"
    using wf created(2,3,6) id la act len wf_channel_init created(1)
    by (auto simp: wf_ctrl_def created(4) IVSHMEM_MAX_CHANNELS_def)
  then show ?thesis using created(4,5) by simp
qed (use wf in auto)

lemma create_channel_room:
  assumes "wf_ctrl cs" and "num_active_channels cs < 32" and "unat (free_start_offset cs) + 16384 \<le> 4192224"
  shows "\<exists>cs' ch. ivshmem_create_channel now cs k = Inr (0, cs') \<and> wf_ctrl cs' \<and>
      num_active_channels cs' = num_active_channels cs + 1 \<and> active cs' = active cs @ [ch] \<and>
      chan_key ch = k \<and> chan_id ch = last_channel_id cs \<and>
      buf_offset ch = free_start_offset cs \<and> head ch = 0 \<and> tail ch = 0 \<and> num_page ch = 4"
  using assms(1)
proof (cases rule: create_channel_cases [where now = now and k = k])
  case (created n cs')
  have "wf_ctrl cs'" using create_channel_wf [OF assms(1), of now k] created(5) by auto
  moreover have "active cs' = active cs @ [ivshmem_init_channel now cs (channels cs ! n) k]"
    using created(1,2) assms unfolding created(4)
    by (simp add: active_def wf_ctrl_def nat_add_distrib take_Suc_conv_app_nth IVSHMEM_MAX_CHANNELS_def)
  ultimately show ?thesis
    using created(5) unfolding created(4)
    by (cases k) (simp add: ivshmem_init_channel_def Let_def ivshmem_consts)
qed (use assms in auto)

lemma trusted_control_wf:
  assumes "wf_ctrl cs"
  shows "\<exists>ret cs'. ivshmem_trusted_control now cs = Inr (ret, cs') \<and> wf_ctrl cs' \<and>
     num_active_channels cs \<le> num_active_channels cs'"
proof -
  have "wf_ctrl (cs\<lparr>control_mutex := 1\<rparr>)" using assms by simp
  from create_channel_wf [OF this, of now "channel_candidate cs"] assms show ?thesis
    by (auto simp: ivshmem_trusted_control_def)
qed

lemma init_control_section_wf: "wf_ctrl (ctrl (snd (ivshmem_init_control_section sh)))"
  by (simp add: ivshmem_init_control_section_def wf_ctrl_def active_def ids_in_order_def
      IVSHMEM_MAX_CHANNELS_def)

section \<open>Balanced layouts\<close>

lemma contiguous_sum: "contiguous off chs e \<Longrightarrow> e = off + sum_list (map unat (map buf_size chs))"
  by (induction chs arbitrary: off) (fastforce simp: add.assoc)+

lemma wf_sizes_frame [simp]:
  "wf_sizes (cs\<lparr>control_mutex := m\<rparr>) = wf_sizes cs"
  "wf_sizes (cs\<lparr>has_channel_candidate := b\<rparr>) = wf_sizes cs"
  "wf_sizes (cs\<lparr>channel_candidate := k\<rparr>) = wf_sizes cs"
  by (simp_all add: wf_sizes_def active_def)

lemma init_size_not_balanced:
  assumes "0 < n" and "n \<le> 32"
  shows "size_of_int IVSHMEM_CHANNEL_INIT_SIZE \<noteq> rebalance_size n"
proof
  assume eq: "size_of_int IVSHMEM_CHANNEL_INIT_SIZE = rebalance_size n"
  have "unat (rebalance_size n) = 16384"
    unfolding eq [symmetric] by simp
  then show False
    using unat_rebalance_size [OF assms] rebalance_num_page_bounds(1) [OF assms] by simp
qed

lemma first_size_balanced:
  assumes "wf_ctrl cs" and "wf_sizes cs" and "0 < num_active_channels cs"
    and "buf_size (channels cs ! 0) = rebalance_size (num_active_channels cs)"
  shows "balanced cs"
proof -
  let ?n = "num_active_channels cs"
  have n32: "?n \<le> 32" and la: "length (active cs) = nat ?n"
    using assms(1) by (auto simp: wf_ctrl_length_active) (simp add: wf_ctrl_def IVSHMEM_MAX_CHANNELS_def)
  obtain m where m: "m \<le> nat ?n"
    "map buf_size (active cs) = replicate m (rebalance_size (int m))
       @ replicate (nat ?n - m) (size_of_int IVSHMEM_CHANNEL_INIT_SIZE)"
    using assms(2) la by (auto simp: wf_sizes_def)
  have hd: "map buf_size (active cs) ! 0 = rebalance_size ?n"
    using assms(3,4) la by simp
  have "0 < m"
  proof (rule ccontr)
    assume "\<not> 0 < m"
    then have "rebalance_size ?n = size_of_int IVSHMEM_CHANNEL_INIT_SIZE"
      using hd assms(3) unfolding m(2) by simp
    then show False using init_size_not_balanced [OF assms(3) n32] by simp
  qed
  then have "rebalance_size (int m) = rebalance_size ?n"
    using hd unfolding m(2) by (simp add: nth_append)
  then have "int m = ?n"
    using \<open>0 < m\<close> m(1) n32 assms(3) by (intro rebalance_size_inj) auto
  then have "m = nat ?n" by simp
  then show ?thesis
    using assms(3) unfolding balanced_def m(2) Let_def by simp
qed

lemma balanced_wf_sizes:
  assumes "wf_ctrl cs" and "balanced cs"
  shows "wf_sizes cs"
proof -
  have "int (length (active cs)) = num_active_channels cs"
    using assms(1) wf_ctrl_length_active [OF assms(1)] by (simp add: wf_ctrl_def)
  then have "map buf_size (active cs) =
      replicate (length (active cs)) (rebalance_size (int (length (active cs))))"
    using assms(2) unfolding balanced_def Let_def by (metis nat_int)
  then show ?thesis unfolding wf_sizes_def by auto
qed

lemma map_buf_size_rebalanced:
  "map buf_size (rebalanced np sz off chs) = replicate (length chs) sz"
  by (induction chs arbitrary: off) auto

lemma rebalancing_balances:
  assumes wf: "wf_ctrl cs" and sz: "wf_sizes cs" and n: "0 < num_active_channels cs"
  shows "\<exists>cs'. ivshmem_trusted_rebalancing True cs = Inr (0, cs') \<and> wf_ctrl cs' \<and> balanced cs' \<and>
     control_mutex cs' = 0 \<and> map chan_key (active cs') = map chan_key (active cs) \<and>
     map chan_id (active cs') = map chan_id (active cs)"
proof (cases "rebalance_size (num_active_channels cs) = buf_size (channels cs ! 0)")
  case True
  then have "balanced cs" using first_size_balanced [OF wf sz n] by simp
  with True n wf show ?thesis
    by (simp add: ivshmem_trusted_rebalancing_def Let_def balanced_def active_def)
next
  case False
  let ?n = "num_active_channels cs"
  let ?chs = "rebalanced (rebalance_num_page ?n) (rebalance_size ?n) 0 (active cs)"
  note eq = rebalancing_eq [OF wf refl n False] and wf' = wf_ctrl_rebalanced [OF wf refl n]
  have act: "active (cs\<lparr>channels := ?chs @ xs, free_start_offset := f, control_mutex := 0\<rparr>) = ?chs"
    for xs f using wf_ctrl_length_active [OF wf] by (simp add: active_def)
  show ?thesis
    unfolding eq using wf' wf_ctrl_length_active [OF wf]
    by (simp add: balanced_def act rebalanced_fields map_buf_size_rebalanced)
qed

lemma balanced_free:
  assumes "wf_ctrl cs" and "balanced cs"
  shows "unat (free_start_offset cs) \<le> 4173824"
proof -
  let ?n = "num_active_channels cs"
  have n: "0 \<le> ?n" "?n \<le> 32" using assms(1) by (auto simp: wf_ctrl_def IVSHMEM_MAX_CHANNELS_def)
  have "unat (free_start_offset cs) = sum_list (map unat (map buf_size (active cs)))"
    using assms(1) contiguous_sum [of 0] unfolding wf_ctrl_def by fastforce
  also have "\<dots> = nat ?n * unat (rebalance_size ?n)"
    using assms(2) unfolding balanced_def Let_def by (simp add: sum_list_replicate)
  also have "\<dots> \<le> 4173824"
    using rebalance_total(1) [of ?n] n by (cases "?n = 0") auto
  finally show ?thesis .
qed

lemma create_wf_sizes:
  assumes wf: "wf_ctrl cs" and sz: "wf_sizes cs" and "ivshmem_create_channel now cs k = Inr (ret, cs')"
  shows "wf_sizes cs'"
  using wf
proof (cases rule: create_channel_cases [where now = now and k = k])
  case (created n cs1)
  have act: "active cs1 = active cs @ [ivshmem_init_channel now cs (channels cs ! n) k]"
    using created wf by (simp add: active_def wf_ctrl_def nat_add_distrib take_Suc_conv_app_nth IVSHMEM_MAX_CHANNELS_def)
  obtain m where "m \<le> length (active cs)" "map buf_size (active cs) =
          replicate m (rebalance_size (int m))
          @ replicate (length (active cs) - m) (size_of_int IVSHMEM_CHANNEL_INIT_SIZE)"
    using sz by (auto simp: wf_sizes_def)
  then have "wf_sizes cs1"
    unfolding wf_sizes_def act
    by (intro exI [of _ m]) (simp add: ivshmem_init_channel_def Let_def Suc_diff_le replicate_append_same)
  then show ?thesis using created assms(3) by simp
qed (use assms in auto)

lemma trusted_control_wf_sizes:
  assumes "wf_ctrl cs" "wf_sizes cs" "ivshmem_trusted_control now cs = Inr (ret, cs')"
  shows "wf_sizes cs'"
  using assms create_wf_sizes [of "cs\<lparr>control_mutex := 1\<rparr>" now "channel_candidate cs"]
  by (auto simp: ivshmem_trusted_control_def split: if_splits sum.splits)

lemma rebalancing_wf_sizes:
  assumes "wf_ctrl cs" "wf_sizes cs" "ivshmem_trusted_rebalancing ok cs = Inr (ret, cs')"
  shows "wf_sizes cs'"
proof (cases "0 < num_active_channels cs \<and> ok")
  case True
  then show ?thesis
    using rebalancing_balances [OF assms(1,2)] assms(3) by (auto intro: balanced_wf_sizes)
next
  case False
  then show ?thesis
    using assms(2,3)
    by (auto simp: ivshmem_trusted_rebalancing_def Let_def split: if_splits)
qed

section \<open>A sample section\<close>

lemma rebalancing_keeps_channels:
  assumes "wf_ctrl cs" and "ivshmem_trusted_rebalancing ok cs = Inr (ret, cs')"
  shows "num_active_channels cs' = num_active_channels cs \<and>
     map chan_key (active cs') = map chan_key (active cs) \<and>
     map last_sent_at (active cs') = map last_sent_at (active cs)"
proof (cases "0 < num_active_channels cs \<and> ok \<and>
    rebalance_size (num_active_channels cs) \<noteq> buf_size (channels cs ! 0)")
  case True
  have "map last_sent_at (rebalanced np sz off chs) = map last_sent_at chs" for np sz off chs
    by (induction chs arbitrary: off) auto
  then show ?thesis
    using True assms rebalancing_eq [OF assms(1) refl] wf_ctrl_length_active [OF assms(1)]
    by (auto simp: active_def [of "_\<lparr>control_mutex := _\<rparr>"] rebalanced_fields)
next
  case False
  then show ?thesis
    using assms(2) by (auto simp: ivshmem_trusted_rebalancing_def Let_def active_def split: if_splits)
qed

lemma demo_active: "active demo_ctrl = [demo_channel 1 0 1019 509, demo_channel 2 4173824 4 0]"
  by (simp add: active_def demo_ctrl_def)

lemma demo_pages: "rebalance_num_page 1 = 1019" "rebalance_num_page 2 = 509"
  by (simp_all add: rebalance_num_page_eq)

lemma demo_wf: "wf_ctrl demo_ctrl"
  unfolding wf_ctrl_def demo_active
  by (simp add: demo_ctrl_def IVSHMEM_MAX_CHANNELS_def demo_channel_def wf_channel_def size_of_int_def
      ids_in_order_def upt_rec)

lemma demo_sizes: "wf_sizes demo_ctrl"
  unfolding wf_sizes_def demo_active
  by (rule exI [of _ 1]) (simp add: demo_channel_def rebalance_size_def demo_pages ivshmem_consts)

lemma contiguous_nth:
  assumes "contiguous off chs e" and "i < length chs"
  shows "unat (buf_offset (chs ! i)) = off + sum_list (map unat (take i (map buf_size chs)))"
  using assms
proof (induction chs arbitrary: off i)
  case Nil
  then show ?case by simp
next
  case (Cons ch chs)
  then show ?case by (cases i) (auto simp: add.assoc)
qed

lemma balanced_channel:
  assumes "wf_ctrl cs" and "balanced cs" and "i < nat (num_active_channels cs)"
  shows "unat (buf_offset (channels cs ! i)) = i * unat (rebalance_size (num_active_channels cs))"
    and "buf_size (channels cs ! i) = rebalance_size (num_active_channels cs)"
    and "num_page (channels cs ! i) = rebalance_num_page (num_active_channels cs)"
proof -
  let ?n = "num_active_channels cs"
  have n: "0 < ?n" "?n \<le> 32" using assms by (auto simp: wf_ctrl_def IVSHMEM_MAX_CHANNELS_def)
  have i: "i < length (active cs)" using assms wf_ctrl_length_active by simp
  have m: "map buf_size (active cs) = replicate (nat ?n) (rebalance_size ?n)"
    using assms(2) by (simp add: balanced_def Let_def)
  have "contiguous 0 (active cs) (unat (free_start_offset cs))" using assms(1) by (simp add: wf_ctrl_def)
  from contiguous_nth [OF this i]
  show "unat (buf_offset (channels cs ! i)) = i * unat (rebalance_size ?n)"
    using assms(3) unfolding m by (simp add: sum_list_replicate)
  show s: "buf_size (channels cs ! i) = rebalance_size ?n"
    using m assms(3) i by (metis active_nth nth_map nth_replicate)
  have "wf_channel (channels cs ! i)"
    using assms i by (metis active_nth list_all_length wf_ctrl_def)
  then show "num_page (channels cs ! i) = rebalance_num_page ?n"
    using s unat_rebalance_size [OF n] rebalance_num_page_bounds(1) [OF n]
    by (auto simp: wf_channel_def eq_nat_nat_iff)
qed

section \<open>Properties\<close>



text \<open>
  Right after a successful rebalancing of fewer than 32 channels a channel can always
  be created: rebalancing leaves the room that one needs.
\<close>

theorem create_after_rebalancing:
  assumes "wf_ctrl cs" and "wf_sizes cs" and "0 < num_active_channels cs"
    and "num_active_channels cs < 32"
    and "ivshmem_trusted_rebalancing True cs = Inr (ret, cs')"
  shows "\<exists>cs''. ivshmem_create_channel now cs' k = Inr (0, cs'')"
proof -
  have cs': "wf_ctrl cs'" "balanced cs'" "num_active_channels cs' = num_active_channels cs"
    using rebalancing_balances [OF assms(1-3)] rebalancing_wf [OF assms(1), of True] assms(5) by auto
  show ?thesis
    using cs'(1)
  proof (cases rule: create_channel_cases [where now = now and k = k])
    case full
    then show ?thesis using cs' assms(4) by simp
  next
    case no_space
    then show ?thesis using balanced_free [OF cs'(1,2)] by simp
  next
    case (created n cs1)
    then show ?thesis by blast
  qed
qed

theorem create_after_rebalancing_witness:
  "\<exists>cs' cs''. ivshmem_trusted_rebalancing True demo_ctrl = Inr (0, cs') \<and>
     ivshmem_create_channel 0 cs' zero_key = Inr (0, cs'')"
proof -
  have n: "0 < num_active_channels demo_ctrl" "num_active_channels demo_ctrl < 32"
    by (simp_all add: demo_ctrl_def)
  obtain cs' where cs': "ivshmem_trusted_rebalancing True demo_ctrl = Inr (0, cs')"
    using rebalancing_balances [OF demo_wf demo_sizes n(1)] by blast
  show ?thesis
    using create_after_rebalancing [OF demo_wf demo_sizes n cs'] cs' by blast
qed

text \<open>
  A rebalancing removes no channel and changes no key.
\<close>

theorem rebalancing_never_kills:
  assumes "wf_ctrl cs" and "ivshmem_trusted_rebalancing ok cs = Inr (ret, cs')"
  shows "num_active_channels cs' = num_active_channels cs \<and>
     map chan_key (active cs') = map chan_key (active cs) \<and>
     map last_sent_at (active cs') = map last_sent_at (active cs)"
  by (rule rebalancing_keeps_channels [OF assms])

theorem rebalancing_never_kills_witness:
  "\<exists>cs'. ivshmem_trusted_rebalancing True demo_ctrl = Inr (0, cs') \<and> num_active_channels cs' = 2"
proof -
  have n: "0 < num_active_channels demo_ctrl" by (simp add: demo_ctrl_def)
  obtain cs' where cs': "ivshmem_trusted_rebalancing True demo_ctrl = Inr (0, cs')"
    using rebalancing_balances [OF demo_wf demo_sizes n] by blast
  show ?thesis
    using rebalancing_never_kills [OF demo_wf cs'] cs' by (auto simp: demo_ctrl_def)
qed

text \<open>
  A second rebalancing changes nothing.
\<close>

theorem rebalancing_idempotent:
  assumes "wf_ctrl cs" and "wf_sizes cs" and "ivshmem_trusted_rebalancing True cs = Inr (0, cs')"
  shows "ivshmem_trusted_rebalancing ok cs' = Inr (0, cs')"
proof (cases "0 < num_active_channels cs")
  case True
  have cs': "wf_ctrl cs'" "balanced cs'" "control_mutex cs' = 0"
    using rebalancing_balances [OF assms(1,2) True] assms(3) by auto
  have "num_active_channels cs' = num_active_channels cs"
    using rebalancing_wf [OF assms(1), of True] assms(3) by auto
  then show ?thesis
    using balanced_channel(2) [OF cs'(1,2), of 0] True cs'(3)
    by (simp add: ivshmem_trusted_rebalancing_def Let_def)
next
  case False
  then show ?thesis
    using assms(3) by (auto simp: ivshmem_trusted_rebalancing_def Let_def)
qed

theorem rebalancing_idempotent_witness:
  "\<exists>cs'. ivshmem_trusted_rebalancing True demo_ctrl = Inr (0, cs') \<and>
     ivshmem_trusted_rebalancing False cs' = Inr (0, cs')"
proof -
  have n: "0 < num_active_channels demo_ctrl" by (simp add: demo_ctrl_def)
  obtain cs' where cs': "ivshmem_trusted_rebalancing True demo_ctrl = Inr (0, cs')"
    using rebalancing_balances [OF demo_wf demo_sizes n] by blast
  show ?thesis
    using rebalancing_idempotent [OF demo_wf demo_sizes cs'] cs' by blast
qed

text \<open>
  A rebalancing whose allocation fails returns -1 with the mutex set, and from then on
  senders and receivers that wait for the mutex make no step.
\<close>

theorem rebalancing_malloc_failure_blocks:
  assumes "0 < num_active_channels (ctrl sh)"
    and "rebalance_size (num_active_channels (ctrl sh)) \<noteq> buf_size (channels (ctrl sh) ! 0)"
  shows "\<exists>cs'. ivshmem_trusted_rebalancing False (ctrl sh) = Inr (- 1, cs') \<and>
     (\<forall>now t. snd_pc t = Send_mutex \<longrightarrow>
        ivshmem_send_step now t (sh\<lparr>ctrl := cs'\<rparr>) = (t, sh\<lparr>ctrl := cs'\<rparr>)) \<and>
     (\<forall>r. rcv_pc r = Recv_mutex \<longrightarrow>
        ivshmem_recv_step r (sh\<lparr>ctrl := cs'\<rparr>) = (r, sh\<lparr>ctrl := cs'\<rparr>))"
  using assms
  by (simp add: ivshmem_trusted_rebalancing_def Let_def ivshmem_send_step_def in_request_def
      send_loop_step_def ivshmem_recv_step_def recv_loop_step_def)

theorem rebalancing_malloc_failure_blocks_witness:
  "\<exists>cs'. ivshmem_trusted_rebalancing False (ctrl demo_shm) = Inr (- 1, cs') \<and>
     ivshmem_send_step 7 (send_call zero_key [] 0\<lparr>snd_pc := Send_mutex\<rparr>) (demo_shm\<lparr>ctrl := cs'\<rparr>) =
       (send_call zero_key [] 0\<lparr>snd_pc := Send_mutex\<rparr>, demo_shm\<lparr>ctrl := cs'\<rparr>)"
proof -
  have "0 < num_active_channels (ctrl demo_shm)"
    "rebalance_size (num_active_channels (ctrl demo_shm)) \<noteq> buf_size (channels (ctrl demo_shm) ! 0)"
    by (simp_all add: demo_shm_def demo_ctrl_def demo_channel_def rebalance_size_def demo_pages
        size_of_int_def ivshmem_consts)
  from rebalancing_malloc_failure_blocks [OF this] show ?thesis by auto
qed

text \<open>
  Reducing head and tail modulo the new number of pages can turn a ring with 509
  unread pages into an empty one.
\<close>

theorem rebalancing_discards_pages:
  "\<exists>cs cs'. wf_ctrl cs \<and> wf_sizes cs \<and> ivshmem_trusted_rebalancing True cs = Inr (0, cs') \<and>
     unat (head (channels cs ! 0)) - unat (tail (channels cs ! 0)) = 509 \<and>
     head (channels cs' ! 0) = tail (channels cs' ! 0)"
proof -
  have n: "num_active_channels demo_ctrl = 2" by (simp add: demo_ctrl_def)
  have ne: "rebalance_size 2 \<noteq> buf_size (channels demo_ctrl ! 0)"
    by (simp add: demo_ctrl_def demo_channel_def rebalance_size_def demo_pages size_of_int_def ivshmem_consts)
  obtain cs' where cs': "ivshmem_trusted_rebalancing True demo_ctrl = Inr (0, cs')"
    "channels cs' ! 0 = rebalanced 509 (rebalance_size 2) 0 (active demo_ctrl) ! 0"
    using rebalancing_eq [OF demo_wf n [symmetric] _ ne] demo_pages
    by (auto simp: demo_active nth_append)
  have hd: "unat (head (channels demo_ctrl ! 0)) - unat (tail (channels demo_ctrl ! 0)) = 509"
    by (simp add: demo_ctrl_def demo_channel_def)
  have "head (channels cs' ! 0) = tail (channels cs' ! 0)"
    unfolding cs'(2) demo_active by (simp add: demo_channel_def u32_of_int_def)
  with cs'(1) hd demo_wf demo_sizes show ?thesis by blast
qed

text \<open>
  C9.  Creating a channel, on every branch: with a free slot and 16 KB left it appends one
  channel with the requested key, an empty ring of 4 pages and the next identifier, and
  keeps the table well formed; otherwise it returns -1 and changes nothing.
\<close>

theorem create_channel_spec:
  assumes "wf_ctrl cs"
  shows "if num_active_channels cs < 32 \<and> unat (free_start_offset cs) + 16384 \<le> 4192224
    then \<exists>cs'. ivshmem_create_channel now cs k = Inr (0, cs') \<and> wf_ctrl cs' \<and>
      num_active_channels cs' = num_active_channels cs + 1 \<and>
      (\<exists>ch. active cs' = active cs @ [ch] \<and>
         sender_vm (chan_key ch) = sender_vm k \<and> sender_pid (chan_key ch) = sender_pid k \<and>
         receiver_vm (chan_key ch) = receiver_vm k \<and> chan_id ch = last_channel_id cs \<and>
         buf_offset ch = free_start_offset cs \<and> head ch = 0 \<and> tail ch = 0 \<and> num_page ch = 4)
    else ivshmem_create_channel now cs k = Inr (- 1, cs)"
proof (cases "num_active_channels cs < 32 \<and> unat (free_start_offset cs) + 16384 \<le> 4192224")
  case True
  then show ?thesis using create_channel_room [OF assms, of now k] by fastforce
next
  case False
  from assms have "ivshmem_create_channel now cs k = Inr (- 1, cs)"
    by (cases rule: create_channel_cases [where now = now and k = k]) (use False in auto)
  then show ?thesis using False by auto
qed

theorem create_channel_spec_witness:
  "ivshmem_create_channel 0 demo_ctrl zero_key = Inr (- 1, demo_ctrl)"
  using create_channel_spec [OF demo_wf, of 0 zero_key] by (simp add: demo_ctrl_def)

end
