(* ===== verification/Ivshmem_Channels.thy ===== *)
theory Ivshmem_Channels
  imports Ivshmem_Trusted
begin

text \<open>
  Facts about single channels of a well-formed control section that the protocol proofs
  share: a ring's page addresses stay inside the data section, the index arithmetic of
  \<^verbatim>\<open>ivshmem_send_buffer\<close> and \<^verbatim>\<open>ivshmem_recv_buffer\<close> is arithmetic modulo the
  number of pages, and an update of the fields that senders and receivers own keeps the
  section well-formed and every search result.
\<close>

text \<open>An update of one channel that does not touch its identity or its place.\<close>

definition keeps_layout :: "(ivshmem_channel \<Rightarrow> ivshmem_channel) \<Rightarrow> bool" where
  "keeps_layout f \<longleftrightarrow>
     (\<forall>ch. chan_key (f ch) = chan_key ch \<and> chan_id (f ch) = chan_id ch \<and>
        buf_offset (f ch) = buf_offset ch \<and> buf_size (f ch) = buf_size ch \<and> num_page (f ch) = num_page ch)"

section \<open>Addresses and indices\<close>

lemma contiguous_bound:
  "contiguous off chs e \<Longrightarrow> ch \<in> set chs \<Longrightarrow> unat (buf_offset ch) + unat (buf_size ch) \<le> e \<and> off \<le> unat (buf_offset ch)"
proof (induction chs arbitrary: off)
  case Nil
  then show ?case by simp
next
  case (Cons c chs)
  have "contiguous o1 cs e \<Longrightarrow> o1 \<le> e" for o1 cs using contiguous_sum by fastforce
  with Cons show ?case by fastforce
qed

lemma wf_ctrl_chan:
  assumes "wf_ctrl cs" and "c < nat (num_active_channels cs)"
  shows "wf_channel (channels cs ! c)" and "c < length (channels cs)"
    and "unat (buf_offset (channels cs ! c)) + nat (num_page (channels cs ! c)) * 4096 \<le> 4192224"
proof -
  have mem: "channels cs ! c \<in> set (active cs)"
    using assms wf_ctrl_length_active by (metis active_nth nth_mem)
  then show wf: "wf_channel (channels cs ! c)"
    using assms(1) by (simp add: wf_ctrl_def list_all_iff)
  show "c < length (channels cs)" using assms by (auto simp: wf_ctrl_def)
  show "unat (buf_offset (channels cs ! c)) + nat (num_page (channels cs ! c)) * 4096 \<le> 4192224"
    using assms(1) wf contiguous_bound [OF _ mem] by (fastforce simp: wf_ctrl_def wf_channel_def)
qed

lemma page_addr_eq:
  assumes "wf_channel ch" and "unat (buf_offset ch) + nat (num_page ch) * 4096 \<le> 4192224"
    and "unat i < nat (num_page ch)"
  shows "page_addr ch i = unat (buf_offset ch) + 4096 * unat i"
proof -
  have i: "unat i < 1023" using assms(1,3) by (auto simp: wf_channel_def)
  then have "unat (i * u32_of_int IVSHMEM_PAGE_SIZE) = unat i * 4096"
    by (subst unat_mult_no_wrap) auto
  then have u: "unat (ucast (i * u32_of_int IVSHMEM_PAGE_SIZE) :: size_t) = unat i * 4096"
    by (simp add: unsigned_ucast_eq take_bit_nat_eq_self less_le_trans [OF unsigned_less])
  have "unat (buf_offset ch) + unat i * 4096 < 2 ^ 64" using assms i by simp
  then show ?thesis by (simp add: page_addr_def unat_add_no_wrap u)
qed

lemma unat_num_page:
  assumes "wf_channel ch"
  shows "unat (u32_of_int (num_page ch)) = nat (num_page ch)"
  using assms by (intro unat_u32_of_int) (auto simp: wf_channel_def)

lemma next_index_eq:
  assumes "wf_channel ch" and "unat i < nat (num_page ch)"
  shows "\<exists>x. next_index ch i = Inr x \<and> unat x = Suc (unat i) mod nat (num_page ch)"
proof -
  have u: "unat (u32_of_int (num_page ch)) = nat (num_page ch)" by (rule unat_num_page [OF assms(1)])
  have "2 \<le> num_page ch" using assms(1) by (simp add: wf_channel_def)
  then have "u32_of_int (num_page ch) \<noteq> 0" using u by (auto simp flip: unat_eq_0)
  moreover have "unat (i + 1) = Suc (unat i)"
    using assms by (subst unat_add_no_wrap) (auto simp: wf_channel_def)
  ultimately show ?thesis by (simp add: next_index_def unat_mod u)
qed

lemma full_test1:
  fixes h tl :: u32
  assumes "unat h < 1023"
  shows "h = tl - 1 \<longleftrightarrow> unat tl = Suc (unat h)"
proof -
  have "h = tl - 1 \<longleftrightarrow> tl = h + 1" by (auto simp: algebra_simps)
  also have "\<dots> \<longleftrightarrow> unat tl = Suc (unat h)"
    using assms by (simp add: word_unat_eq_iff unat_word_ariths)
  finally show ?thesis .
qed

lemma full_test2:
  assumes "wf_channel ch"
  shows "head ch = u32_of_int (num_page ch - 1) \<longleftrightarrow> Suc (unat (head ch)) = nat (num_page ch)"
proof -
  have "unat (u32_of_int (num_page ch - 1)) = nat (num_page ch - 1)"
    using assms by (intro unat_u32_of_int) (auto simp: wf_channel_def)
  then show ?thesis using assms by (auto simp: word_unat_eq_iff wf_channel_def)
qed

lemma ring_full_iff:
  assumes "wf_channel ch"
  shows "(head ch = tail ch - 1 \<or> head ch = u32_of_int (num_page ch - 1) \<and> tail ch = 0) \<longleftrightarrow>
    Suc (unat (head ch)) mod nat (num_page ch) = unat (tail ch)"
proof -
  have h: "unat (head ch) < nat (num_page ch)" "unat (tail ch) < nat (num_page ch)" "unat (head ch) < 1023"
    using assms by (auto simp: wf_channel_def)
  have z: "tail ch = 0 \<longleftrightarrow> unat (tail ch) = 0" by (simp add: unat_eq_0)
  show ?thesis
    unfolding full_test1 [OF h(3)] full_test2 [OF assms] z
    using h by (cases "Suc (unat (head ch)) = nat (num_page ch)") auto
qed

section \<open>Updating one channel\<close>

lemma upd_channel_at:
  assumes "c < length (channels (ctrl sh))"
  shows "chan_at (upd_channel c f sh) c' = (if c' = c then f (chan_at sh c) else chan_at sh c')"
  using assms by (simp add: upd_channel_def nth_list_update)

lemma upd_channel_other [simp]:
  "num_active_channels (ctrl (upd_channel c f sh)) = num_active_channels (ctrl sh)"
  "control_mutex (ctrl (upd_channel c f sh)) = control_mutex (ctrl sh)"
  "has_channel_candidate (ctrl (upd_channel c f sh)) = has_channel_candidate (ctrl sh)"
  "free_start_offset (ctrl (upd_channel c f sh)) = free_start_offset (ctrl sh)"
  "last_channel_id (ctrl (upd_channel c f sh)) = last_channel_id (ctrl sh)"
  "length (channels (ctrl (upd_channel c f sh))) = length (channels (ctrl sh))"
  "shm_data (upd_channel c f sh) = shm_data sh"
  by (simp_all add: upd_channel_def)

lemma find_channel_from_cong:
  assumes "num_active_channels cs' = num_active_channels cs"
    and "map chan_key (channels cs') = map chan_key (channels cs)"
  shows "find_channel_from cs' k i = find_channel_from cs k i"
  using assms
proof (induction cs k i rule: find_channel_from.induct)
  case (1 cs k i)
  have len: "length (channels cs') = length (channels cs)" using "1.prems"(2) by (metis length_map)
  have key: "chan_key (channels cs' ! i) = chan_key (channels cs ! i)" if "i < length (channels cs)"
    using that len "1.prems"(2) by (metis nth_map)
  show ?case
    using 1 len key
    by (simp add: find_channel_from.simps [of cs' k i] find_channel_from.simps [of cs k i] not_le)
qed

lemma keeps_layout_updates [simp]:
  "keeps_layout (\<lambda>x. x\<lparr>head := h\<rparr>)"
  "keeps_layout (\<lambda>x. x\<lparr>tail := h\<rparr>)"
  "keeps_layout (\<lambda>x. x\<lparr>data_size := g x\<rparr>)"
  "keeps_layout (\<lambda>x. x\<lparr>last_sent_at := n\<rparr>)"
  by (simp_all add: keeps_layout_def)

lemma map_update_same:
  assumes "g (f (xs ! c)) = g (xs ! c)"
  shows "map g (xs[c := f (xs ! c)]) = map g xs"
  using assms by (cases "c < length xs") (auto simp: map_update list_update_beyond intro: list_update_same_conv [THEN iffD2])

lemma find_channel_upd [simp]:
  assumes "keeps_layout f"
  shows "ivshmem_find_channel (ctrl (upd_channel c f sh)) k = ivshmem_find_channel (ctrl sh) k"
  unfolding ivshmem_find_channel_def
  using assms by (intro find_channel_from_cong)
    (auto simp: upd_channel_def keeps_layout_def intro!: map_update_same)

lemma contiguous_cong:
  "map buf_offset chs = map buf_offset chs' \<Longrightarrow> map buf_size chs = map buf_size chs' \<Longrightarrow>
   contiguous off chs e = contiguous off chs' e"
proof (induction chs arbitrary: chs' off)
  case Nil
  then show ?case by simp
next
  case (Cons c chs)
  from Cons.prems obtain c' chs1 where chs': "chs' = c' # chs1" by (cases chs') auto
  have "map buf_offset chs = map buf_offset chs1" "map buf_size chs = map buf_size chs1"
    and eq: "buf_offset c = buf_offset c'" "buf_size c = buf_size c'"
    using Cons.prems unfolding chs' by auto
  from Cons.IH [OF this(1,2)] eq show ?case unfolding chs' by simp
qed

lemma active_upd:
  "active (ctrl (upd_channel c f sh)) = (active (ctrl sh))[c := f (chan_at sh c)]"
  by (simp add: active_def upd_channel_def take_update_swap)

lemma wf_ctrl_upd:
  assumes wf: "wf_ctrl (ctrl sh)" and f: "keeps_layout f"
    and ch: "c < nat (num_active_channels (ctrl sh)) \<Longrightarrow> wf_channel (f (chan_at sh c))"
  shows "wf_ctrl (ctrl (upd_channel c f sh))"
proof (cases "c < nat (num_active_channels (ctrl sh))")
  case True
  let ?act = "active (ctrl sh)"
  have act: "active (ctrl (upd_channel c f sh)) = ?act[c := f (?act ! c)]"
    using True by (simp add: active_upd)
  have maps: "map chan_id (?act[c := f (?act ! c)]) = map chan_id ?act"
    "map buf_offset (?act[c := f (?act ! c)]) = map buf_offset ?act"
    "map buf_size (?act[c := f (?act ! c)]) = map buf_size ?act"
    using f by (auto intro!: map_update_same simp: keeps_layout_def)
  have "list_all wf_channel (?act[c := f (?act ! c)])"
    using wf ch True by (auto simp: wf_ctrl_def list_all_iff dest!: set_update_subset_insert [THEN subsetD])
  then show ?thesis
    using wf contiguous_cong [OF maps(2,3)] unfolding wf_ctrl_def act ids_in_order_def maps by simp
next
  case False
  then have "active (ctrl (upd_channel c f sh)) = active (ctrl sh)"
    by (simp add: active_def upd_channel_def take_update_swap list_update_beyond)
  then show ?thesis using wf by (simp add: wf_ctrl_def)
qed

section \<open>What a step leaves alone\<close>

lemma request_channel_frame:
  assumes "request_channel_step t sh = (t', sh')"
  shows "snd_key t' = snd_key t \<and> snd_buf t' = snd_buf t \<and> snd_size t' = snd_size t"
  using assms
  by (cases "snd_pc t"; force simp: request_channel_step_def split: if_splits sum.splits option.splits)

lemma send_loop_frame:
  assumes "send_loop_step now t sh = (t', sh')"
  shows "snd_key t' = snd_key t \<and> snd_buf t' = snd_buf t \<and> snd_size t' = snd_size t"
  using assms
  by (cases "snd_pc t"; force simp: send_loop_step_def send_copy_step_def Let_def split: if_splits sum.splits)

lemma send_step_frame:
  assumes "ivshmem_send_step now t sh = (t', sh')"
  shows "snd_key t' = snd_key t" and "snd_buf t' = snd_buf t" and "snd_size t' = snd_size t"
  using assms request_channel_frame [of t sh t' sh'] send_loop_frame [of now t sh t' sh']
  by (simp_all add: ivshmem_send_step_def split: if_splits)

lemma recv_loop_frame:
  assumes "recv_loop_step r sh = (r', sh')"
  shows "rcv_key r' = rcv_key r \<and> rcv_size r' = rcv_size r \<and> length (rcv_buf r') = length (rcv_buf r)
    \<and> shm_data sh' = shm_data sh"
  using assms
  by (cases "rcv_pc r"; force simp: recv_loop_step_def recv_copy_step_def Let_def upd_channel_def split: if_splits sum.splits)

lemma recv_step_frame:
  assumes "ivshmem_recv_step r sh = (r', sh')"
  shows "rcv_key r' = rcv_key r" and "rcv_size r' = rcv_size r" and "length (rcv_buf r') = length (rcv_buf r)"
    and "shm_data sh' = shm_data sh"
  using assms recv_loop_frame [of r sh r' sh']
  by (auto simp: ivshmem_recv_step_def split: if_splits sum.splits option.splits)

end
