(* ===== verification/Ivshmem_Calls.thy ===== *)
theory Ivshmem_Calls
  imports Ivshmem_Channels
begin

text \<open>
  What single calls of the untrusted library do: the search for a channel, the request
  protocol between \<^verbatim>\<open>ivshmem_request_channel\<close> and \<^verbatim>\<open>ivshmem_trusted_control\<close> in two
  of its interleavings, and \<^verbatim>\<open>ivshmem_send_buffer\<close> for the message sizes whose chunk
  \<^verbatim>\<open>MIN(size - IVSHMEM_PAGE_SIZE, IVSHMEM_PAGE_SIZE)\<close> is not a page.
\<close>

section \<open>Runs of a single call\<close>

text \<open>A call among arbitrary other processes: the shared memory may change between its steps.\<close>

inductive send_runs :: "sender \<Rightarrow> sender \<Rightarrow> bool" where
  send_runs_refl: "send_runs t t"
| send_runs_step: "send_runs t t' \<Longrightarrow> ivshmem_send_step now t' sh = (t'', sh') \<Longrightarrow> send_runs t t''"

text \<open>What the bytes copied so far are, when \<open>n\<close> is the chunk of the call.\<close>

definition chunk_at :: "nat \<Rightarrow> sender \<Rightarrow> bool" where
  "chunk_at n t \<longleftrightarrow>
     n dvd unat (snd_sent t) \<and> unat (snd_sent t) \<le> length (snd_buf t) \<and>
     (case snd_pc t of
        Send_copy dst j \<Rightarrow> j \<le> n \<and> unat (snd_sent t) + j \<le> length (snd_buf t)
      | Send_head \<Rightarrow> unat (snd_sent t) + n \<le> length (snd_buf t)
      | Send_account \<Rightarrow> unat (snd_sent t) + n \<le> length (snd_buf t)
      | Send_ret v \<Rightarrow> v = 0 \<longrightarrow> unat (snd_size t) \<le> unat (snd_sent t)
      | _ \<Rightarrow> True)"

text \<open>A call that runs alone.\<close>

inductive send_alone :: "time_t \<Rightarrow> sender \<times> shm \<Rightarrow> sender \<times> shm \<Rightarrow> bool" for now where
  send_alone_step: "send_alone now (t, sh) (ivshmem_send_step now t sh)"

text \<open>
  Two schedules of a request: the trusted host serves it after both writes of the request,
  or already after the first, which raises the flag.
\<close>

definition request_in_order :: "time_t \<Rightarrow> sender \<Rightarrow> shm \<Rightarrow> sender \<times> shm" where
  "request_in_order now t sh =
     (let (t1, sh1) = ivshmem_send_step now t sh;
          (t2, sh2) = ivshmem_send_step now t1 sh1;
          (t3, sh3) = ivshmem_send_step now t2 sh2
      in case ivshmem_trusted_control now (ctrl sh3) of
           Inl e \<Rightarrow> (t3\<lparr>snd_pc := Send_fault e\<rparr>, sh3)
         | Inr (ret, cs) \<Rightarrow>
             (let (t4, sh4) = ivshmem_send_step now t3 (sh3\<lparr>ctrl := cs\<rparr>)
              in ivshmem_send_step now t4 sh4))"

definition request_early_control :: "time_t \<Rightarrow> sender \<Rightarrow> shm \<Rightarrow> sender \<times> shm" where
  "request_early_control now t sh =
     (let (t1, sh1) = ivshmem_send_step now t sh;
          (t2, sh2) = ivshmem_send_step now t1 sh1
      in case ivshmem_trusted_control now (ctrl sh2) of
           Inl e \<Rightarrow> (t2\<lparr>snd_pc := Send_fault e\<rparr>, sh2)
         | Inr (ret, cs) \<Rightarrow>
             (let (t3, sh3) = ivshmem_send_step now t2 (sh2\<lparr>ctrl := cs\<rparr>);
                  (t4, sh4) = ivshmem_send_step now t3 sh3
              in ivshmem_send_step now t4 sh4))"

text \<open>The shared memory after its initialisation.\<close>

definition empty_shm :: shm where
  "empty_shm = snd (ivshmem_init_control_section demo_shm)"

(*LEMMAS*)

section \<open>Lemmas\<close>

lemma find_channel_eq_find:
  assumes "num_active_channels cs \<le> int (length (channels cs))"
  shows "find_channel_from cs k i =
    Inr (List.find (\<lambda>j. key_matches k (chan_key (channels cs ! j))) [i..<nat (num_active_channels cs)])"
  using assms
proof (induction cs k i rule: find_channel_from.induct)
  case (1 cs k i)
  show ?case
  proof (cases "int i < num_active_channels cs")
    case True
    then have "[i..<nat (num_active_channels cs)] = i # [Suc i..<nat (num_active_channels cs)]"
      by (simp add: upt_conv_Cons)
    with True 1 show ?thesis by (subst find_channel_from.simps) auto
  next
    case False
    then show ?thesis by (subst find_channel_from.simps) auto
  qed
qed

lemma chunk_at_step:
  assumes "chunk_at (unat (send_chunk (snd_size t))) t" and "length (snd_buf t) < 2 ^ 64"
    and "ivshmem_send_step now t sh = (t', sh')"
  shows "chunk_at (unat (send_chunk (snd_size t'))) t'"
proof (cases "snd_pc t")
  case Send_account
  then have "unat (snd_sent t) + unat (send_chunk (snd_size t)) \<le> length (snd_buf t)"
    using assms(1) by (simp add: chunk_at_def)
  then have "unat (snd_sent t + send_chunk (snd_size t)) = unat (snd_sent t) + unat (send_chunk (snd_size t))"
    using assms(2) by (intro unat_add_no_wrap) simp
  then show ?thesis
    using assms Send_account
    by (auto simp: ivshmem_send_step_def in_request_def send_loop_step_def chunk_at_def Let_def)
qed (use assms in \<open>force simp: ivshmem_send_step_def in_request_def request_channel_step_def send_loop_step_def
       send_copy_step_def chunk_at_def Let_def word_le_nat_alt split: if_splits sum.splits option.splits\<close>)+

lemma send_runs_frame:
  assumes "send_runs t t'"
  shows "snd_key t' = snd_key t \<and> snd_buf t' = snd_buf t \<and> snd_size t' = snd_size t"
  using assms by (induction rule: send_runs.induct) (auto simp: send_step_frame)

lemma send_runs_chunk:
  assumes "send_runs t t'" "chunk_at (unat (send_chunk (snd_size t))) t" and "length (snd_buf t) < 2 ^ 64"
  shows "chunk_at (unat (send_chunk (snd_size t'))) t'"
  using assms
proof (induction rule: send_runs.induct)
  case (send_runs_step t t' now sh t'' sh')
  then show ?case using chunk_at_step [OF _ _ send_runs_step.hyps(2)] send_runs_frame by fastforce
qed

text \<open>
  The loop of ivshmem_find_channel is equal to the reference: the first active channel
  with the key's sender and receiver and, unless it is 0, the key's process.
\<close>

theorem find_channel_reference:
  assumes "num_active_channels cs \<le> int (length (channels cs))"
  shows "ivshmem_find_channel cs k =
    Inr (List.find (\<lambda>j. sender_vm (chan_key (channels cs ! j)) = sender_vm k \<and>
           (sender_pid k = 0 \<or> sender_pid (chan_key (channels cs ! j)) = sender_pid k) \<and>
           receiver_vm (chan_key (channels cs ! j)) = receiver_vm k) [0..<nat (num_active_channels cs)])"
  unfolding ivshmem_find_channel_def find_channel_eq_find [OF assms] key_matches_def ..

theorem find_channel_reference_witness:
  "ivshmem_find_channel demo_ctrl \<lparr>sender_vm = 1, sender_pid = 0, receiver_vm = 2\<rparr> = Inr (Some 0) \<and>
   ivshmem_find_channel demo_ctrl \<lparr>sender_vm = 1, sender_pid = 7, receiver_vm = 2\<rparr> = Inr None"
proof -
  have "num_active_channels demo_ctrl \<le> int (length (channels demo_ctrl))" by (simp add: demo_ctrl_def)
  from find_channel_reference [OF this] show ?thesis
    by (simp add: demo_ctrl_def demo_channel_def upt_rec)
qed

lemma send_whole_chunks:
  assumes "send_runs (send_call k buf sz) t" and "snd_pc t = Send_ret 0" and "length buf = unat sz"
  shows "unat (send_chunk sz) dvd unat sz"
proof -
  have b: "length buf < 2 ^ 64" using unsigned_less [of sz] assms(3) by simp
  have "chunk_at (unat (send_chunk sz)) t"
    using send_runs_chunk [OF assms(1)] send_runs_frame [OF assms(1)] b
    by (simp add: chunk_at_def send_call_def)
  then show ?thesis
    using assms(2,3) send_runs_frame [OF assms(1)] by (auto simp: chunk_at_def send_call_def)
qed

lemma send_chunk_eq:
  "unat (send_chunk sz) =
    (if unat sz < 4096 \<or> 8192 \<le> unat sz then 4096 else unat sz - 4096)"
proof -
  have p: "size_of_int IVSHMEM_PAGE_SIZE = 4096" by (simp add: size_of_int_def ivshmem_consts)
  show ?thesis
  proof (cases "unat sz < 4096")
    case True
    then have "unat (sz - 4096) = 2 ^ 64 - 4096 + unat sz"
      by (subst unat_sub_if') (simp add: not_le word_less_nat_alt)
    then show ?thesis using True by (simp add: send_chunk_def p min_def word_le_nat_alt)
  next
    case False
    then have "unat (sz - 4096) = unat sz - 4096" by (subst unat_sub_no_wrap) auto
    then show ?thesis using False by (auto simp: send_chunk_def p min_def word_le_nat_alt)
  qed
qed

lemma find_channel_frame [simp]:
  "ivshmem_find_channel (cs\<lparr>control_mutex := m\<rparr>) k = ivshmem_find_channel cs k"
  "ivshmem_find_channel (cs\<lparr>has_channel_candidate := b\<rparr>) k = ivshmem_find_channel cs k"
  "ivshmem_find_channel (cs\<lparr>channel_candidate := c\<rparr>) k = ivshmem_find_channel cs k"
  unfolding ivshmem_find_channel_def by (rule find_channel_from_cong; simp)+

lemma request_steps:
  assumes "ivshmem_find_channel (ctrl sh) (snd_key t) = Inr None" and "snd_pc t = Send_find"
  shows "ivshmem_send_step now t sh = (t\<lparr>snd_pc := Send_flag\<rparr>, sh)"
    and "ivshmem_send_step now (t\<lparr>snd_pc := Send_flag\<rparr>) sh' =
      (t\<lparr>snd_pc := Send_candidate\<rparr>, sh'\<lparr>ctrl := (ctrl sh')\<lparr>has_channel_candidate := True\<rparr>\<rparr>)"
    and "ivshmem_send_step now (t\<lparr>snd_pc := Send_candidate\<rparr>) sh' =
      (t\<lparr>snd_pc := Send_wait\<rparr>, sh'\<lparr>ctrl := (ctrl sh')\<lparr>channel_candidate := snd_key t\<rparr>\<rparr>)"
    and "\<not> has_channel_candidate (ctrl sh') \<Longrightarrow> ivshmem_send_step now (t\<lparr>snd_pc := Send_wait\<rparr>) sh' =
      (t\<lparr>snd_pc := Send_refind\<rparr>, sh')"
  using assms by (simp_all add: ivshmem_send_step_def in_request_def request_channel_step_def)

lemma find_none_active:
  assumes "wf_ctrl cs" and "ivshmem_find_channel cs k = Inr None"
  shows "\<forall>ch \<in> set (active cs). \<not> key_matches k (chan_key ch)"
proof -
  have "num_active_channels cs \<le> int (length (channels cs))" using assms(1) by (simp add: wf_ctrl_def)
  then show ?thesis
    using assms by (cases rule: find_channel_cases [where k = k])
      (auto simp: active_def in_set_conv_nth)
qed

lemma find_channel_appended:
  assumes "wf_ctrl cs" and "wf_ctrl cs'" and "active cs' = active cs @ [ch]"
    and "ivshmem_find_channel cs k = Inr None"
  shows "ivshmem_find_channel cs' k =
    (if key_matches k (chan_key ch) then Inr (Some (nat (num_active_channels cs))) else Inr None)"
proof -
  have le: "num_active_channels cs' \<le> int (length (channels cs'))" using assms(2) by (simp add: wf_ctrl_def)
  have n: "nat (num_active_channels cs') = Suc (nat (num_active_channels cs))"
    using assms(3) wf_ctrl_length_active [OF assms(1)] wf_ctrl_length_active [OF assms(2)] by simp
  let ?n = "nat (num_active_channels cs)"
  have old: "\<not> key_matches k (chan_key (channels cs' ! j))" if "j < ?n" for j
  proof -
    have "channels cs' ! j = active cs ! j"
      using that n assms(3) wf_ctrl_length_active [OF assms(1)]
      by (metis active_nth less_SucI nth_append)
    then show ?thesis
      using that find_none_active [OF assms(1,4)] wf_ctrl_length_active [OF assms(1)] by (metis nth_mem)
  qed
  have new: "channels cs' ! ?n = ch"
    using n assms(3) wf_ctrl_length_active [OF assms(1)] by (metis active_nth lessI nth_append_length)
  have "List.find P [0..<Suc m] = (if P m then Some m else None)" if "\<forall>j < m. \<not> P j" for P and m :: nat
    using that by (auto simp: find_None_iff find_Some_iff nth_append intro!: exI [of _ m])
  then show ?thesis
    unfolding ivshmem_find_channel_def find_channel_eq_find [OF le] n using old new by auto
qed

lemma active_frame [simp]:
  "active (cs\<lparr>control_mutex := m\<rparr>) = active cs"
  "active (cs\<lparr>has_channel_candidate := b\<rparr>) = active cs"
  "active (cs\<lparr>channel_candidate := k\<rparr>) = active cs"
  by (simp_all add: active_def)

lemma trusted_control_creates:
  assumes "wf_ctrl cs" and "has_channel_candidate cs"
    and "num_active_channels cs < 32" and "unat (free_start_offset cs) + 16384 \<le> 4192224"
  shows "\<exists>cs' ch. ivshmem_trusted_control now cs = Inr (0, cs') \<and> wf_ctrl cs' \<and>
    active cs' = active cs @ [ch] \<and> chan_key ch = channel_candidate cs \<and>
    num_page ch = 4 \<and> head ch = 0 \<and> tail ch = 0 \<and>
    \<not> has_channel_candidate cs' \<and> control_mutex cs' = 0"
  using create_channel_room [of "cs\<lparr>control_mutex := 1\<rparr>" now "channel_candidate cs"] assms
  by (fastforce simp: ivshmem_trusted_control_def)

lemma key_matches_self [simp]: "key_matches k k"
  by (simp add: key_matches_def)

lemma request_served_facts:
  assumes wf: "wf_ctrl (ctrl sh)" and none: "ivshmem_find_channel (ctrl sh) k = Inr None"
    and room: "num_active_channels (ctrl sh) < 32" "unat (free_start_offset (ctrl sh)) + 16384 \<le> 4192224"
    and res: "request_in_order now (send_call k buf sz) sh = (t', sh')"
  shows "snd_pc t' = Send_mutex" and "snd_chan t' = nat (num_active_channels (ctrl sh))"
    and "chan_key (chan_at sh' (snd_chan t')) = k" and "wf_ctrl (ctrl sh')" and "control_mutex (ctrl sh') = 0"
proof -
  let ?cs = "(ctrl sh)\<lparr>has_channel_candidate := True, channel_candidate := k\<rparr>"
  obtain cs' ch where c: "ivshmem_trusted_control now ?cs = Inr (0, cs')" "wf_ctrl cs'"
    "active cs' = active ?cs @ [ch]" "chan_key ch = k" "\<not> has_channel_candidate cs'" "control_mutex cs' = 0"
    using trusted_control_creates [of ?cs now] wf room by auto
  have f: "ivshmem_find_channel cs' k = Inr (Some (nat (num_active_channels (ctrl sh))))"
    using find_channel_appended [OF wf c(2) _ none, of ch] c(3,4) by simp
  let ?t = "send_call k buf sz"
  have t: "snd_key ?t = k" "snd_pc ?t = Send_find" by (simp_all add: send_call_def)
  have "ivshmem_send_step now (?t\<lparr>snd_pc := Send_refind\<rparr>) (sh\<lparr>ctrl := cs'\<rparr>) =
      (?t\<lparr>snd_pc := Send_mutex, snd_chan := nat (num_active_channels (ctrl sh)), snd_sent := 0\<rparr>, sh\<lparr>ctrl := cs'\<rparr>)"
    using f t by (simp add: ivshmem_send_step_def in_request_def request_channel_step_def)
  then have r: "t' = ?t\<lparr>snd_pc := Send_mutex, snd_chan := nat (num_active_channels (ctrl sh)), snd_sent := 0\<rparr>"
    "sh' = sh\<lparr>ctrl := cs'\<rparr>"
    using res request_steps [where sh = sh and t = ?t and now = now] none t c(1,5)
    by (simp_all add: request_in_order_def)
  have "channels cs' ! nat (num_active_channels (ctrl sh)) = ch"
    using c(3) wf_ctrl_length_active [OF c(2)] wf_ctrl_length_active [OF wf] active_nth
    by (metis active_frame(2,3) length_append_singleton lessI nth_append_length)
  then show "snd_pc t' = Send_mutex" "snd_chan t' = nat (num_active_channels (ctrl sh))"
    "chan_key (chan_at sh' (snd_chan t')) = k" "wf_ctrl (ctrl sh')" "control_mutex (ctrl sh') = 0"
    using c r by simp_all
qed


lemma request_stale_candidate_facts:
  assumes wf: "wf_ctrl (ctrl sh)" and none: "ivshmem_find_channel (ctrl sh) k = Inr None"
    and room: "num_active_channels (ctrl sh) < 32" "unat (free_start_offset (ctrl sh)) + 16384 \<le> 4192224"
    and stale: "\<not> key_matches k (channel_candidate (ctrl sh))"
    and res: "request_early_control now (send_call k buf sz) sh = (t', sh')"
  shows "snd_pc t' = Send_ret (- 1)"
    and "chan_key (chan_at sh' (nat (num_active_channels (ctrl sh)))) = channel_candidate (ctrl sh)"
    and "num_active_channels (ctrl sh') = num_active_channels (ctrl sh) + 1"
proof -
  let ?cs = "(ctrl sh)\<lparr>has_channel_candidate := True\<rparr>"
  obtain cs' ch where c: "ivshmem_trusted_control now ?cs = Inr (0, cs')" "wf_ctrl cs'"
    "active cs' = active ?cs @ [ch]" "chan_key ch = channel_candidate (ctrl sh)" "\<not> has_channel_candidate cs'"
    using trusted_control_creates [of ?cs now] wf room by auto
  have f: "ivshmem_find_channel cs' k = Inr None"
    using find_channel_appended [OF wf c(2) _ none, of ch] c(3,4) stale by simp
  let ?t = "send_call k buf sz"
  let ?sh = "sh\<lparr>ctrl := cs'\<lparr>channel_candidate := k\<rparr>\<rparr>"
  have t: "snd_key ?t = k" "snd_pc ?t = Send_find" by (simp_all add: send_call_def)
  have "ivshmem_send_step now (?t\<lparr>snd_pc := Send_refind\<rparr>) ?sh = (?t\<lparr>snd_pc := Send_ret (- 1)\<rparr>, ?sh)"
    using f t by (simp add: ivshmem_send_step_def in_request_def request_channel_step_def)
  then have r: "t' = ?t\<lparr>snd_pc := Send_ret (- 1)\<rparr>" "sh' = ?sh"
    using res request_steps [where sh = sh and t = ?t and now = now] none t c(1,5)
    by (simp_all add: request_early_control_def)
  have n: "nat (num_active_channels cs') = Suc (nat (num_active_channels (ctrl sh)))"
    using c(3) wf_ctrl_length_active [OF c(2)] wf_ctrl_length_active [OF wf] by simp
  have "channels cs' ! nat (num_active_channels (ctrl sh)) = ch"
    using c(3) wf_ctrl_length_active [OF c(2)] wf_ctrl_length_active [OF wf] active_nth
    by (metis active_frame(2) length_append_singleton lessI nth_append_length)
  moreover have "num_active_channels cs' = num_active_channels (ctrl sh) + 1"
    using n wf c(2) by (auto simp: wf_ctrl_def)
  ultimately show "snd_pc t' = Send_ret (- 1)"
    "chan_key (chan_at sh' (nat (num_active_channels (ctrl sh)))) = channel_candidate (ctrl sh)"
    "num_active_channels (ctrl sh') = num_active_channels (ctrl sh) + 1"
    using c r by simp_all
qed

text \<open>
  The request flag is raised before the key is written: when the trusted program looks
  in between it creates a channel for the stale key, and the sender's call returns -1.
\<close>

theorem request_stale_candidate:
  assumes wf: "wf_ctrl (ctrl sh)" and none: "ivshmem_find_channel (ctrl sh) k = Inr None"
    and room: "num_active_channels (ctrl sh) < 32" "unat (free_start_offset (ctrl sh)) + 16384 \<le> 4192224"
    and stale: "\<not> key_matches k (channel_candidate (ctrl sh))"
    and res: "request_early_control now (send_call k buf sz) sh = (t', sh')"
  shows "snd_pc t' = Send_ret (- 1) \<and>
    chan_key (chan_at sh' (nat (num_active_channels (ctrl sh)))) = channel_candidate (ctrl sh) \<and>
    num_active_channels (ctrl sh') = num_active_channels (ctrl sh) + 1"
  using request_stale_candidate_facts [OF assms] by auto

lemma empty_shm_facts:
  "wf_ctrl (ctrl empty_shm)" "num_active_channels (ctrl empty_shm) = 0"
  "free_start_offset (ctrl empty_shm) = 0" "channel_candidate (ctrl empty_shm) = zero_key"
  "control_mutex (ctrl empty_shm) = 0"
  using init_control_section_wf [of demo_shm]
  by (simp_all add: empty_shm_def ivshmem_init_control_section_def demo_shm_def demo_ctrl_def)

lemma empty_shm_find: "ivshmem_find_channel (ctrl empty_shm) k = Inr None"
  by (simp add: ivshmem_find_channel_def find_channel_from.simps empty_shm_facts)


theorem request_stale_candidate_witness:
  "\<exists>t' sh'. request_early_control 5 (send_call \<lparr>sender_vm = 1, sender_pid = 2, receiver_vm = 3\<rparr> [] 0) empty_shm = (t', sh') \<and>
     snd_pc t' = Send_ret (- 1) \<and> chan_key (chan_at sh' 0) = zero_key"
proof -
  obtain t' sh' where r: "request_early_control 5 (send_call \<lparr>sender_vm = 1, sender_pid = 2, receiver_vm = 3\<rparr> [] 0) empty_shm = (t', sh')"
    by fastforce
  show ?thesis
    using request_stale_candidate [OF empty_shm_facts(1) empty_shm_find _ _ _ r] r
    by (simp add: empty_shm_facts key_matches_def zero_key_def)
qed

text \<open>
  Finding or creating a channel, on every branch: the result has a matching key and is
  an old channel or the one new last channel; there is no result exactly when none matches
  and the table or the data section is full, and then nothing has changed.
\<close>

theorem find_or_create_spec:
  assumes wf: "wf_ctrl cs"
  shows "\<exists>r cs'. ivshmem_find_or_create_channel now cs k = Inr (r, cs') \<and> wf_ctrl cs' \<and>
    (case r of
       Some c \<Rightarrow> c < nat (num_active_channels cs') \<and> key_matches k (chan_key (channels cs' ! c)) \<and>
         (cs' = cs \<or> c = nat (num_active_channels cs) \<and> num_active_channels cs' = num_active_channels cs + 1)
     | None \<Rightarrow> cs' = cs \<and> (\<forall>ch \<in> set (active cs). \<not> key_matches k (chan_key ch)) \<and>
         (num_active_channels cs = 32 \<or> 4192224 < unat (free_start_offset cs) + 16384))"
proof -
  have "num_active_channels cs \<le> int (length (channels cs))" using wf by (simp add: wf_ctrl_def)
  then show ?thesis
  proof (cases rule: find_channel_cases [where k = k])
    case (found c)
    then show ?thesis using wf by (auto simp: ivshmem_find_or_create_channel_def)
  next
    case none
    show ?thesis
    proof (cases "num_active_channels cs < 32 \<and> unat (free_start_offset cs) + 16384 \<le> 4192224")
      case True
      then obtain cs' ch where c: "ivshmem_create_channel now cs k = Inr (0, cs')" "wf_ctrl cs'"
        "num_active_channels cs' = num_active_channels cs + 1" "active cs' = active cs @ [ch]" "chan_key ch = k"
        using create_channel_room [OF wf, of now k] by blast
      have n0: "0 \<le> num_active_channels cs" using wf by (simp add: wf_ctrl_def)
      have "channels cs' ! nat (num_active_channels cs) = active cs' ! nat (num_active_channels cs)"
        using c(3) n0 by simp
      then have "channels cs' ! nat (num_active_channels cs) = ch"
        using c(4) wf_ctrl_length_active [OF wf] by (metis nth_append_length)
      then show ?thesis
        using none(1) c n0 by (auto simp: ivshmem_find_or_create_channel_def)
    next
      case False
      from wf have "ivshmem_create_channel now cs k = Inr (- 1, cs)"
        by (cases rule: create_channel_cases [where now = now and k = k]) (use False in auto)
      moreover have "num_active_channels cs \<le> 32" using wf by (simp add: wf_ctrl_def IVSHMEM_MAX_CHANNELS_def)
      ultimately show ?thesis
        using none(1) False wf find_none_active [OF wf none(1)]
        by (auto simp: ivshmem_find_or_create_channel_def)
    qed
  qed
qed

theorem find_or_create_spec_witness:
  "\<exists>c cs'. ivshmem_find_or_create_channel 0 demo_ctrl \<lparr>sender_vm = 1, sender_pid = 0, receiver_vm = 2\<rparr> = Inr (Some c, cs') \<and>
     wf_ctrl cs'"
proof -
  have "ivshmem_find_channel demo_ctrl \<lparr>sender_vm = 1, sender_pid = 0, receiver_vm = 2\<rparr> = Inr (Some 0)"
    by (simp add: ivshmem_find_channel_def find_channel_from.simps demo_ctrl_def demo_channel_def key_matches_def)
  then show ?thesis
    using find_or_create_spec [OF demo_wf, of 0 "\<lparr>sender_vm = 1, sender_pid = 0, receiver_vm = 2\<rparr>"]
    by (auto simp: ivshmem_find_or_create_channel_def)
qed



lemma send_copies_alone:
  assumes "snd_pc t = Send_copy dst 0" and "snd_sent t = 0" and "j \<le> length (snd_buf t)"
    and "j \<le> unat (send_chunk (snd_size t))" and "dst + j \<le> unat DATA_SECTION_SIZE"
  shows "\<exists>sh'. steps (send_alone now) (t, sh) (t\<lparr>snd_pc := Send_copy dst j\<rparr>, sh')"
  using assms(3-5)
proof (induction j)
  case 0
  have "t\<lparr>snd_pc := Send_copy dst 0\<rparr> = t" using assms(1) by (cases t) simp
  then show ?case by (metis steps_refl)
next
  case (Suc j)
  then obtain sh' where s: "steps (send_alone now) (t, sh) (t\<lparr>snd_pc := Send_copy dst j\<rparr>, sh')" by auto
  have "\<exists>sh''. ivshmem_send_step now (t\<lparr>snd_pc := Send_copy dst j\<rparr>) sh' = (t\<lparr>snd_pc := Send_copy dst (Suc j)\<rparr>, sh'')"
    using Suc.prems assms(2)
    by (simp add: ivshmem_send_step_def in_request_def send_loop_step_def send_copy_step_def)
  then obtain sh'' where "send_alone now (t\<lparr>snd_pc := Send_copy dst j\<rparr>, sh') (t\<lparr>snd_pc := Send_copy dst (Suc j)\<rparr>, sh'')"
    by (metis send_alone_step)
  from steps_trans [OF s steps_one [of "send_alone now", OF this]] show ?case by blast
qed

lemma send_enters_copy:
  assumes wf: "wf_ctrl (ctrl sh)" and m: "control_mutex (ctrl sh) = 0"
    and f: "ivshmem_find_channel (ctrl sh) k = Inr (Some c)"
    and room: "Suc (unat (head (chan_at sh c))) mod nat (num_page (chan_at sh c)) \<noteq> unat (tail (chan_at sh c))"
    and sz: "0 < unat sz"
  shows "steps (send_alone now) (send_call k buf sz, sh)
      ((send_call k buf sz)\<lparr>snd_pc := Send_copy (page_addr (chan_at sh c) (head (chan_at sh c))) 0, snd_chan := c\<rparr>, sh)"
    and "page_addr (chan_at sh c) (head (chan_at sh c)) + 4096 \<le> unat DATA_SECTION_SIZE"
proof -
  let ?ch = "chan_at sh c" and ?t = "\<lambda>pc. (send_call k buf sz)\<lparr>snd_pc := pc, snd_chan := c\<rparr>"
  have "num_active_channels (ctrl sh) \<le> int (length (channels (ctrl sh)))" using wf by (simp add: wf_ctrl_def)
  then have cn: "c < nat (num_active_channels (ctrl sh))"
    using f by (cases rule: find_channel_cases [where k = k]) auto
  note ch = wf_ctrl_chan [OF wf cn]
  have h: "unat (head ?ch) < nat (num_page ?ch)" using ch(1) by (simp add: wf_channel_def)
  have full: "head ?ch \<noteq> tail ?ch - 1" "\<not> (head ?ch = u32_of_int (num_page ?ch - 1) \<and> tail ?ch = 0)"
    using ring_full_iff [OF ch(1)] room by auto
  have step: "send_alone now (t, sh) (t', sh)" if "ivshmem_send_step now t sh = (t', sh)" for t t'
    using send_alone_step [of now t sh] that by simp
  note eqs = ivshmem_send_step_def in_request_def request_channel_step_def send_loop_step_def send_call_def Let_def
  have "send_alone now (send_call k buf sz, sh) (?t Send_mutex, sh)"
    by (rule step) (simp add: eqs f)
  moreover have "send_alone now (?t Send_mutex, sh) (?t Send_size, sh)"
    by (rule step) (simp add: eqs m)
  moreover have "send_alone now (?t Send_size, sh) (?t Send_full1, sh)"
    by (rule step) (use sz in \<open>auto simp: eqs word_le_nat_alt\<close>)
  moreover have "send_alone now (?t Send_full1, sh) (?t Send_full2, sh)"
    by (rule step) (use full(1) in \<open>simp add: eqs\<close>)
  moreover have "send_alone now (?t Send_full2, sh) (?t Send_addr, sh)"
    by (rule step) (use full(2) in \<open>auto simp: eqs\<close>)
  moreover have "send_alone now (?t Send_addr, sh) (?t (Send_copy (page_addr ?ch (head ?ch)) 0), sh)"
    by (rule step) (simp add: eqs)
  ultimately show "steps (send_alone now) (send_call k buf sz, sh) (?t (Send_copy (page_addr ?ch (head ?ch)) 0), sh)"
    by (blast intro: steps.intros)
  show "page_addr ?ch (head ?ch) + 4096 \<le> unat DATA_SECTION_SIZE"
    using page_addr_eq [OF ch(1,3) h] ch(3) h by simp
qed

text \<open>
  A message shorter than a page makes ivshmem_send_buffer read beyond the caller's
  buffer.
\<close>

theorem send_short_overreads:
  assumes wf: "wf_ctrl (ctrl sh)" "control_mutex (ctrl sh) = 0"
    and f: "ivshmem_find_channel (ctrl sh) k = Inr (Some c)"
    and room: "Suc (unat (head (chan_at sh c))) mod nat (num_page (chan_at sh c)) \<noteq> unat (tail (chan_at sh c))"
    and sz: "0 < unat sz" "unat sz < 4096" "length buf = unat sz"
  shows "\<exists>t' sh'. steps (send_alone now) (send_call k buf sz, sh) (t', sh') \<and> snd_pc t' = Send_fault OutOfBounds"
proof -
  obtain dst where d: "dst + 4096 \<le> unat DATA_SECTION_SIZE" and s1: "steps (send_alone now) (send_call k buf sz, sh)
    ((send_call k buf sz)\<lparr>snd_pc := Send_copy dst 0, snd_chan := c\<rparr>, sh)" (is "steps _ _ (?t, _)")
    using send_enters_copy [OF wf f room sz(1)] by blast
  have c: "unat (send_chunk sz) = 4096" using sz by (simp add: send_chunk_eq)
  have t: "snd_pc ?t = Send_copy dst 0" "snd_sent ?t = 0" "snd_buf ?t = buf" "snd_size ?t = sz"
    by (simp_all add: send_call_def)
  obtain sh1 where s2: "steps (send_alone now) (?t, sh) (?t\<lparr>snd_pc := Send_copy dst (length buf)\<rparr>, sh1)"
    using send_copies_alone [OF t(1,2), of "length buf"] t c d sz by auto
  have "ivshmem_send_step now (?t\<lparr>snd_pc := Send_copy dst (length buf)\<rparr>) sh1 = (?t\<lparr>snd_pc := Send_fault OutOfBounds\<rparr>, sh1)"
    using c sz by (simp add: ivshmem_send_step_def in_request_def send_loop_step_def send_copy_step_def send_call_def)
  then have "send_alone now (?t\<lparr>snd_pc := Send_copy dst (length buf)\<rparr>, sh1) (?t\<lparr>snd_pc := Send_fault OutOfBounds\<rparr>, sh1)"
    by (metis send_alone_step)
  from steps_trans [OF s1 steps_trans [OF s2 steps_one [of "send_alone now", OF this]]] show ?thesis by fastforce
qed

theorem send_short_overreads_witness:
  "\<exists>t' sh'. steps (send_alone 0) (send_call \<lparr>sender_vm = 1, sender_pid = 2, receiver_vm = 2\<rparr> [65, 66] 2, demo_shm) (t', sh') \<and>
     snd_pc t' = Send_fault OutOfBounds"
proof -
  let ?k = "\<lparr>sender_vm = 1, sender_pid = 2, receiver_vm = 2\<rparr>"
  have f: "ivshmem_find_channel (ctrl demo_shm) ?k = Inr (Some 1)"
    by (simp add: ivshmem_find_channel_def find_channel_from.simps demo_ctrl_def demo_channel_def key_matches_def demo_shm_def)
  have "wf_ctrl (ctrl demo_shm)" "control_mutex (ctrl demo_shm) = 0"
    using demo_wf by (simp_all add: demo_shm_def) (simp add: demo_ctrl_def)
  moreover have "Suc (unat (head (chan_at demo_shm 1))) mod nat (num_page (chan_at demo_shm 1)) \<noteq> unat (tail (chan_at demo_shm 1))"
    by (simp add: demo_shm_def demo_ctrl_def demo_channel_def)
  ultimately show ?thesis
    using send_short_overreads [OF _ _ f] by simp
qed

end
