(* ===== verification/Ivshmem_World.thy ===== *)
theory Ivshmem_World
  imports Ivshmem_Calls
begin

text \<open>
  The whole system: any number of calls of \<^verbatim>\<open>ivshmem_send_buffer\<close> and
  \<^verbatim>\<open>ivshmem_recv_buffer\<close> by untrusted processes, interleaved with the event loop of the
  trusted host (\<^verbatim>\<open>examples/trusted_main/main.c\<close>).  An operation of the trusted host is
  one step; it holds \<^verbatim>\<open>control_mutex\<close> meanwhile, but the senders and receivers only
  look at the mutex at the top of their loops.

  The parameter \<open>reb\<close> of the step relation says whether the rebalancing timer may fire.
  The invariant holds either way; that every byte a sender writes lies in the buffer of a
  channel of its own is proved in \<open>Ivshmem_Calm\<close> for rebalancing that moves nothing or meets
  no copy, and fails here for rebalancing during a copy.
\<close>

section \<open>The trusted host\<close>

text \<open>
  The descriptors that \<^verbatim>\<open>epoll_wait\<close> reports, as the loop tells them apart.  What
  \<^verbatim>\<open>malloc\<close> and \<^verbatim>\<open>time\<close> return during the handling of an event are arguments; the
  reads of the timers and of the standard input only print.
\<close>

datatype trusted_event = Rb_timer | Ctl_timer | Stdin_ready | Other_fd

definition trusted_event_step :: "bool \<Rightarrow> time_t \<Rightarrow> trusted_event \<Rightarrow> shm \<Rightarrow> shm c_result" where
  "trusted_event_step malloc_ok now ev sh =
     (case ev of
        Rb_timer \<Rightarrow>
          (case ivshmem_trusted_rebalancing malloc_ok (ctrl sh) of
             Inl e \<Rightarrow> Inl e
           | Inr (ret, cs) \<Rightarrow> Inr (sh\<lparr>ctrl := cs\<rparr>))
      | Ctl_timer \<Rightarrow>
          (if ivshmem_check_is_control_requested (ctrl sh) \<noteq> 0 then
             (case ivshmem_trusted_control now (ctrl sh) of
                Inl e \<Rightarrow> Inl e
              | Inr (ret, cs) \<Rightarrow> Inr (sh\<lparr>ctrl := cs\<rparr>))
           else Inr sh)
      | Stdin_ready \<Rightarrow> Inr sh
      | Other_fd \<Rightarrow> Inr sh)"

text \<open>
  \<^verbatim>\<open>main\<close>: the calls that set it up, each with its own way out, and the loop over what
  successive calls of \<^verbatim>\<open>epoll_wait\<close> return.  \<open>Running\<close> is the state of the loop when the
  given outcomes are used up.
\<close>

datatype epoll_outcome =
    Epoll_events "(bool \<times> time_t \<times> trusted_event) list"
  | Epoll_eintr
  | Epoll_error

fun trusted_batch :: "(bool \<times> time_t \<times> trusted_event) list \<Rightarrow> shm \<Rightarrow> shm c_result" where
  "trusted_batch [] sh = Inr sh"
| "trusted_batch ((ok, now, ev) # evs) sh =
     (case trusted_event_step ok now ev sh of
        Inl e \<Rightarrow> Inl e
      | Inr sh' \<Rightarrow> trusted_batch evs sh')"

datatype trusted_call =
  Open_dev | Epoll_create | Rb_create | Rb_settime | Rb_add | Ctl_create | Ctl_settime | Ctl_add | Stdin_add

datatype trusted_status = Running | Loop_left | Assert_failed | Exit_failure trusted_call

fun trusted_loop :: "epoll_outcome list \<Rightarrow> shm \<Rightarrow> (trusted_status \<times> shm) c_result" where
  "trusted_loop [] sh = Inr (Running, sh)"
| "trusted_loop (Epoll_error # outs) sh = Inr (Loop_left, sh)"
| "trusted_loop (Epoll_eintr # outs) sh = trusted_loop outs sh"
| "trusted_loop (Epoll_events evs # outs) sh =
     (case trusted_batch evs sh of
        Inl e \<Rightarrow> Inl e
      | Inr sh' \<Rightarrow> trusted_loop outs sh')"

definition trusted_main ::
  "(trusted_call \<Rightarrow> bool) \<Rightarrow> epoll_outcome list \<Rightarrow> shm \<Rightarrow> (trusted_status \<times> shm) c_result" where
  "trusted_main ok outs sh =
     (if \<not> ok Open_dev then Inr (Assert_failed, sh)
      else
        let (ret, sh') = ivshmem_init_control_section sh in
        if ret \<noteq> 0 then Inr (Assert_failed, sh')
        else
          case List.find (\<lambda>c. \<not> ok c)
                 [Epoll_create, Rb_create, Rb_settime, Rb_add, Ctl_create, Ctl_settime, Ctl_add, Stdin_add] of
            Some c \<Rightarrow> Inr (Exit_failure c, sh')
          | None \<Rightarrow> trusted_loop outs sh')"

section \<open>The system\<close>

record world =
  w_shm :: shm
  w_senders :: "sender list"
  w_receivers :: "receiver list"

inductive world_step :: "bool \<Rightarrow> world \<Rightarrow> world \<Rightarrow> bool" for reb where
  world_send_call: "world_step reb w (w\<lparr>w_senders := w_senders w @ [send_call k buf sz]\<rparr>)"
| world_recv_call: "world_step reb w (w\<lparr>w_receivers := w_receivers w @ [recv_call k buf sz]\<rparr>)"
| world_send: "i < length (w_senders w) \<Longrightarrow> ivshmem_send_step now (w_senders w ! i) (w_shm w) = (t, sh) \<Longrightarrow>
    world_step reb w (w\<lparr>w_senders := (w_senders w)[i := t], w_shm := sh\<rparr>)"
| world_recv: "i < length (w_receivers w) \<Longrightarrow> ivshmem_recv_step (w_receivers w ! i) (w_shm w) = (r, sh) \<Longrightarrow>
    world_step reb w (w\<lparr>w_receivers := (w_receivers w)[i := r], w_shm := sh\<rparr>)"
| world_trusted: "(ev = Rb_timer \<Longrightarrow> reb) \<Longrightarrow> trusted_event_step ok now ev (w_shm w) = Inr sh \<Longrightarrow>
    world_step reb w (w\<lparr>w_shm := sh\<rparr>)"

definition world_init :: "world \<Rightarrow> bool" where
  "world_init w \<longleftrightarrow>
     (\<exists>sh. w_shm w = snd (ivshmem_init_control_section sh)) \<and> w_senders w = [] \<and> w_receivers w = []"

section \<open>The invariant\<close>

fun send_running :: "send_pc \<Rightarrow> bool" where
  "send_running (Send_ret _) = False"
| "send_running (Send_fault _) = False"
| "send_running pc = (\<not> in_request pc)"

fun recv_running :: "recv_pc \<Rightarrow> bool" where
  "recv_running (Recv_ret _) = False"
| "recv_running (Recv_fault _) = False"
| "recv_running pc = (pc \<noteq> Recv_find)"

text \<open>
  A call inside its loop works on an active channel that its key matches; a fault can only be
  an access behind the end of the caller's own buffer (or, for a receiver, a message of
  2 GiB).
\<close>

definition sender_ok :: "control_section \<Rightarrow> sender \<Rightarrow> bool" where
  "sender_ok cs t \<longleftrightarrow>
     (send_running (snd_pc t) \<longrightarrow>
        snd_chan t < nat (num_active_channels cs) \<and> key_matches (snd_key t) (chan_key (channels cs ! snd_chan t))) \<and>
     (case snd_pc t of
        Send_copy dst j \<Rightarrow> dst + 4096 \<le> unat DATA_SECTION_SIZE
      | Send_fault e \<Rightarrow> e = OutOfBounds \<and> length (snd_buf t) < unat (snd_sent t) + 4096
      | _ \<Rightarrow> True)"

definition receiver_ok :: "control_section \<Rightarrow> receiver \<Rightarrow> bool" where
  "receiver_ok cs r \<longleftrightarrow>
     (recv_running (rcv_pc r) \<longrightarrow>
        rcv_chan r < nat (num_active_channels cs) \<and> key_matches (rcv_key r) (chan_key (channels cs ! rcv_chan r))) \<and>
     (case rcv_pc r of
        Recv_copy src j \<Rightarrow> src + 4096 \<le> unat DATA_SECTION_SIZE
      | Recv_fault e \<Rightarrow> e = SignedOverflow \<or> e = OutOfBounds \<and> length (rcv_buf r) < nat (rcv_received r) + 4096
      | _ \<Rightarrow> True)"

text \<open>
  How the control section may change: channels are only added and keep their keys; without
  rebalancing they keep their place too.
\<close>

definition grows :: "control_section \<Rightarrow> control_section \<Rightarrow> bool" where
  "grows cs cs' \<longleftrightarrow>
     num_active_channels cs \<le> num_active_channels cs' \<and>
     (\<forall>c < nat (num_active_channels cs). chan_key (channels cs' ! c) = chan_key (channels cs ! c))"

definition keeps_place :: "control_section \<Rightarrow> control_section \<Rightarrow> bool" where
  "keeps_place cs cs' \<longleftrightarrow>
     grows cs cs' \<and>
     (\<forall>c < nat (num_active_channels cs).
        buf_offset (channels cs' ! c) = buf_offset (channels cs ! c) \<and>
        buf_size (channels cs' ! c) = buf_size (channels cs ! c) \<and>
        num_page (channels cs' ! c) = num_page (channels cs ! c))"

text \<open>The destination of a copy in progress is a page of the sender's channel.\<close>

definition placed :: "control_section \<Rightarrow> sender \<Rightarrow> bool" where
  "placed cs t \<longleftrightarrow>
     (case snd_pc t of
        Send_copy dst j \<Rightarrow>
          (\<exists>p. p < nat (num_page (channels cs ! snd_chan t)) \<and> dst = unat (buf_offset (channels cs ! snd_chan t)) + 4096 * p)
      | _ \<Rightarrow> True)"

definition world_inv :: "bool \<Rightarrow> world \<Rightarrow> bool" where
  "world_inv reb w \<longleftrightarrow>
     (let cs = ctrl (w_shm w) in
      wf_ctrl cs \<and> wf_sizes cs \<and>
      (\<forall>t \<in> set (w_senders w). sender_ok cs t \<and> (reb \<or> placed cs t)) \<and>
      (\<forall>r \<in> set (w_receivers w). receiver_ok cs r))"

definition shm_kept :: "shm \<Rightarrow> shm \<Rightarrow> bool" where
  "shm_kept sh sh' \<longleftrightarrow>
     wf_ctrl (ctrl sh') \<and> (wf_sizes (ctrl sh) \<longrightarrow> wf_sizes (ctrl sh')) \<and> keeps_place (ctrl sh) (ctrl sh')"

definition in_buffer :: "nat \<Rightarrow> ivshmem_channel \<Rightarrow> bool" where
  "in_buffer a ch \<longleftrightarrow> unat (buf_offset ch) \<le> a \<and> a < unat (buf_offset ch) + unat (buf_size ch)"

text \<open>Keys and a start state for the concrete runs.\<close>

definition key_a :: channel_key where "key_a = \<lparr>sender_vm = 1, sender_pid = 1, receiver_vm = 2\<rparr>"

definition key_b :: channel_key where "key_b = \<lparr>sender_vm = 1, sender_pid = 2, receiver_vm = 2\<rparr>"

definition start_world :: world where
  "start_world = \<lparr>w_shm = empty_shm, w_senders = [], w_receivers = []\<rparr>"

definition pid_key :: "nat \<Rightarrow> channel_key" where
  "pid_key n = \<lparr>sender_vm = 1, sender_pid = word_of_nat n, receiver_vm = 2\<rparr>"

section \<open>Single steps\<close>

lemma grows_refl [simp]: "grows cs cs" by (simp add: grows_def)

lemma keeps_place_refl [simp]: "keeps_place cs cs" by (simp add: keeps_place_def)

lemma keeps_place_upd:
  assumes "keeps_layout f"
  shows "keeps_place (ctrl sh) (ctrl (upd_channel c f sh))"
  using assms
  by (cases "c < length (channels (ctrl sh))")
    (auto simp: keeps_place_def grows_def upd_channel_at keeps_layout_def, auto simp: upd_channel_def list_update_beyond not_less)

lemma grows_sender_ok: "sender_ok cs t \<Longrightarrow> grows cs cs' \<Longrightarrow> sender_ok cs' t"
  by (auto simp: sender_ok_def grows_def)

lemma grows_receiver_ok: "receiver_ok cs r \<Longrightarrow> grows cs cs' \<Longrightarrow> receiver_ok cs' r"
  by (auto simp: receiver_ok_def grows_def)

lemma keeps_place_placed: "placed cs t \<Longrightarrow> sender_ok cs t \<Longrightarrow> keeps_place cs cs' \<Longrightarrow> placed cs' t"
  by (auto simp: sender_ok_def keeps_place_def placed_def in_request_def split: send_pc.splits)

lemma wf_sizes_upd:
  assumes "keeps_layout f"
  shows "wf_sizes (ctrl (upd_channel c f sh)) = wf_sizes (ctrl sh)"
proof -
  have "map buf_size (active (ctrl (upd_channel c f sh))) = map buf_size (active (ctrl sh))"
  proof (cases "c < length (active (ctrl sh))")
    case True
    then have "chan_at sh c = active (ctrl sh) ! c" by (simp add: active_def)
    then show ?thesis
      using assms by (simp add: active_upd) (rule map_update_same, simp add: keeps_layout_def)
  next
    case False
    then show ?thesis by (simp add: active_upd list_update_beyond not_less)
  qed
  moreover from this have "length (active (ctrl (upd_channel c f sh))) = length (active (ctrl sh))"
    by (metis length_map)
  ultimately show ?thesis by (simp add: wf_sizes_def)
qed

lemma shm_kept_intros:
  "wf_ctrl (ctrl sh) \<Longrightarrow> shm_kept sh sh"
  "wf_ctrl (ctrl sh) \<Longrightarrow> shm_kept sh (sh\<lparr>shm_data := d\<rparr>)"
  "wf_ctrl (ctrl sh) \<Longrightarrow> shm_kept sh (sh\<lparr>ctrl := (ctrl sh)\<lparr>has_channel_candidate := b\<rparr>\<rparr>)"
  "wf_ctrl (ctrl sh) \<Longrightarrow> shm_kept sh (sh\<lparr>ctrl := (ctrl sh)\<lparr>channel_candidate := k\<rparr>\<rparr>)"
  by (simp_all add: shm_kept_def keeps_place_def grows_def)

lemma shm_kept_upd:
  assumes "wf_ctrl (ctrl sh)" and "keeps_layout f"
    and "c < nat (num_active_channels (ctrl sh)) \<Longrightarrow> wf_channel (f (chan_at sh c))"
  shows "shm_kept sh (upd_channel c f sh)"
  using assms by (simp add: shm_kept_def wf_ctrl_upd wf_sizes_upd keeps_place_upd)

lemma next_index_wf:
  assumes "wf_ctrl cs" and "c < nat (num_active_channels cs)"
  shows "\<exists>x. next_index (channels cs ! c) (head (channels cs ! c)) = Inr x \<and> unat x < nat (num_page (channels cs ! c))"
    and "\<exists>x. next_index (channels cs ! c) (tail (channels cs ! c)) = Inr x \<and> unat x < nat (num_page (channels cs ! c))"
proof -
  note wf = wf_ctrl_chan(1) [OF assms]
  have "0 < nat (num_page (channels cs ! c))" using wf by (simp add: wf_channel_def)
  then show "\<exists>x. next_index (channels cs ! c) (head (channels cs ! c)) = Inr x \<and> unat x < nat (num_page (channels cs ! c))"
    "\<exists>x. next_index (channels cs ! c) (tail (channels cs ! c)) = Inr x \<and> unat x < nat (num_page (channels cs ! c))"
    using next_index_eq [OF wf, of "head (channels cs ! c)"] next_index_eq [OF wf, of "tail (channels cs ! c)"] wf
    by (fastforce simp: wf_channel_def)+
qed

lemma page_addr_placed:
  assumes "wf_ctrl cs" and "c < nat (num_active_channels cs)" and "i \<in> {head (channels cs ! c), tail (channels cs ! c)}"
  shows "page_addr (channels cs ! c) i + 4096 \<le> unat DATA_SECTION_SIZE"
    and "\<exists>p. p < nat (num_page (channels cs ! c)) \<and> page_addr (channels cs ! c) i = unat (buf_offset (channels cs ! c)) + 4096 * p"
proof -
  note ch = wf_ctrl_chan [OF assms(1,2)]
  have i: "unat i < nat (num_page (channels cs ! c))" using ch(1) assms(3) by (auto simp: wf_channel_def)
  from page_addr_eq [OF ch(1,3) i] i ch(3)
  show "page_addr (channels cs ! c) i + 4096 \<le> unat DATA_SECTION_SIZE"
    and "\<exists>p. p < nat (num_page (channels cs ! c)) \<and> page_addr (channels cs ! c) i = unat (buf_offset (channels cs ! c)) + 4096 * p"
    by auto
qed

lemma find_some_active:
  assumes "wf_ctrl cs" and "ivshmem_find_channel cs k = Inr (Some c)"
  shows "c < nat (num_active_channels cs)" and "key_matches k (chan_key (channels cs ! c))"
proof -
  have "num_active_channels cs \<le> int (length (channels cs))" using assms(1) by (simp add: wf_ctrl_def)
  then show "c < nat (num_active_channels cs)" "key_matches k (chan_key (channels cs ! c))"
    using assms(2) by (cases rule: find_channel_cases [where k = k]; auto)+
qed

lemma find_no_fault:
  assumes "wf_ctrl cs"
  shows "ivshmem_find_channel cs k \<noteq> Inl e"
proof -
  have "num_active_channels cs \<le> int (length (channels cs))" using assms(1) by (simp add: wf_ctrl_def)
  then show ?thesis by (cases rule: find_channel_cases [where k = k]) auto
qed

lemma unat_send_chunk_le: "unat (send_chunk sz) \<le> 4096"
  by (auto simp: send_chunk_eq)

lemma send_step_kept:
  assumes wf: "wf_ctrl (ctrl sh)" and ok: "sender_ok (ctrl sh) t" and step: "ivshmem_send_step now t sh = (t', sh')"
  shows "shm_kept sh sh'"
proof (cases "snd_pc t")
  case Send_head
  then have c: "snd_chan t < nat (num_active_channels (ctrl sh))" using ok by (simp add: sender_ok_def in_request_def)
  obtain x where x: "next_index (chan_at sh (snd_chan t)) (head (chan_at sh (snd_chan t))) = Inr x"
    "unat x < nat (num_page (chan_at sh (snd_chan t)))"
    using next_index_wf(1) [OF wf c] by blast
  have "shm_kept sh (upd_channel (snd_chan t) (\<lambda>y. y\<lparr>head := x\<rparr>) sh)"
    using x(2) wf_ctrl_chan(1) [OF wf] by (intro shm_kept_upd) (auto simp: wf wf_channel_def)
  then show ?thesis
    using step Send_head x(1) by (auto simp: ivshmem_send_step_def in_request_def send_loop_step_def Let_def)
next
  case Send_account
  have "shm_kept sh (upd_channel (snd_chan t) (\<lambda>y. y\<lparr>data_size := data_size y + send_chunk (snd_size t)\<rparr>) sh)"
    using wf_ctrl_chan(1) [OF wf] by (intro shm_kept_upd) (auto simp: wf wf_channel_def)
  then show ?thesis
    using step Send_account by (auto simp: ivshmem_send_step_def in_request_def send_loop_step_def Let_def)
next
  case Send_stamp
  have "shm_kept sh (upd_channel (snd_chan t) (\<lambda>y. y\<lparr>last_sent_at := now\<rparr>) sh)"
    using wf_ctrl_chan(1) [OF wf] by (intro shm_kept_upd) (auto simp: wf wf_channel_def)
  then show ?thesis
    using step Send_stamp by (auto simp: ivshmem_send_step_def in_request_def send_loop_step_def Let_def)
qed (use step wf in \<open>auto simp: ivshmem_send_step_def in_request_def request_channel_step_def send_loop_step_def
       send_copy_step_def Let_def shm_kept_intros split: if_splits sum.splits option.splits\<close>)+

lemma send_step_ok:
  assumes wf: "wf_ctrl (ctrl sh)" and ok: "sender_ok (ctrl sh) t" and step: "ivshmem_send_step now t sh = (t', sh')"
  shows "sender_ok (ctrl sh) t'" and "placed (ctrl sh) t \<Longrightarrow> placed (ctrl sh) t'"
proof -
  have le: "unat (send_chunk (snd_size t)) \<le> 4096" by (rule unat_send_chunk_le)
  note eqs = ivshmem_send_step_def in_request_def request_channel_step_def send_loop_step_def send_copy_step_def Let_def
  have run: "snd_chan t < nat (num_active_channels (ctrl sh))" if "send_running (snd_pc t)"
    using ok that by (simp add: sender_ok_def)
  show "sender_ok (ctrl sh) t'"
  proof (cases "snd_pc t")
    case Send_find
    then show ?thesis using step find_no_fault [OF wf] find_some_active [OF wf]
      by (auto simp: eqs sender_ok_def split: sum.splits option.splits)
  next
    case Send_refind
    then show ?thesis using step find_no_fault [OF wf] find_some_active [OF wf]
      by (auto simp: eqs sender_ok_def split: sum.splits option.splits)
  next
    case Send_addr
    then show ?thesis using step ok page_addr_placed(1) [OF wf run]
      by (auto simp: eqs sender_ok_def)
  next
    case Send_head
    then show ?thesis using step ok next_index_wf(1) [OF wf run] by (auto simp: eqs sender_ok_def)
  next
    case (Send_copy dst j)
    then show ?thesis using step ok le by (auto simp: eqs sender_ok_def split: if_splits)
  qed (use step ok in \<open>auto simp: eqs sender_ok_def split: if_splits\<close>)+
  show "placed (ctrl sh) t'" if "placed (ctrl sh) t"
  proof (cases "snd_pc t")
    case Send_addr
    then show ?thesis using step page_addr_placed(2) [OF wf run] by (auto simp: eqs placed_def)
  qed (use step that in \<open>auto simp: eqs placed_def split: if_splits sum.splits option.splits\<close>)+
qed

lemma recv_chunk_le: "recv_chunk sz r \<le> 4096"
proof -
  have "min (sz - size_of_int r) (size_of_int IVSHMEM_PAGE_SIZE) \<le> size_of_int IVSHMEM_PAGE_SIZE" by simp
  then have "uint (min (sz - size_of_int r) (size_of_int IVSHMEM_PAGE_SIZE)) \<le> uint (size_of_int IVSHMEM_PAGE_SIZE)"
    by (simp only: word_le_def)
  then show ?thesis by (simp add: recv_chunk_def size_of_int_def ivshmem_consts)
qed

lemma recv_step_kept:
  assumes wf: "wf_ctrl (ctrl sh)" and ok: "receiver_ok (ctrl sh) r" and step: "ivshmem_recv_step r sh = (r', sh')"
  shows "shm_kept sh sh'"
proof (cases "rcv_pc r")
  case Recv_tail
  then have c: "rcv_chan r < nat (num_active_channels (ctrl sh))" using ok by (simp add: receiver_ok_def)
  obtain x where x: "next_index (chan_at sh (rcv_chan r)) (tail (chan_at sh (rcv_chan r))) = Inr x"
    "unat x < nat (num_page (chan_at sh (rcv_chan r)))"
    using next_index_wf(2) [OF wf c] by blast
  have "shm_kept sh (upd_channel (rcv_chan r) (\<lambda>y. y\<lparr>tail := x\<rparr>) sh)"
    using x(2) wf_ctrl_chan(1) [OF wf] by (intro shm_kept_upd) (auto simp: wf wf_channel_def)
  then show ?thesis
    using step Recv_tail x(1) by (auto simp: ivshmem_recv_step_def recv_loop_step_def Let_def)
next
  case Recv_account
  have "shm_kept sh (upd_channel (rcv_chan r) (\<lambda>y. y\<lparr>data_size := data_size y - n\<rparr>) sh)" for n
    using wf_ctrl_chan(1) [OF wf] by (intro shm_kept_upd) (auto simp: wf wf_channel_def)
  then show ?thesis
    using step Recv_account wf
    by (auto simp: ivshmem_recv_step_def recv_loop_step_def Let_def shm_kept_intros split: if_splits)
qed (use step wf in \<open>auto simp: ivshmem_recv_step_def recv_loop_step_def
       recv_copy_step_def Let_def shm_kept_intros split: if_splits sum.splits option.splits\<close>)+

lemma recv_step_ok:
  assumes wf: "wf_ctrl (ctrl sh)" and ok: "receiver_ok (ctrl sh) r" and step: "ivshmem_recv_step r sh = (r', sh')"
  shows "receiver_ok (ctrl sh) r'"
proof -
  have le: "recv_chunk (rcv_size r) (rcv_received r) \<le> 4096" by (rule recv_chunk_le)
  note eqs = ivshmem_recv_step_def recv_loop_step_def recv_copy_step_def Let_def
  have run: "rcv_chan r < nat (num_active_channels (ctrl sh))" if "recv_running (rcv_pc r)"
    using ok that by (simp add: receiver_ok_def)
  show ?thesis
  proof (cases "rcv_pc r")
    case Recv_find
    then show ?thesis using step find_no_fault [OF wf] find_some_active [OF wf]
      by (auto simp: eqs receiver_ok_def split: sum.splits option.splits)
  next
    case Recv_addr
    then show ?thesis using step ok page_addr_placed(1) [OF wf run]
      by (auto simp: eqs receiver_ok_def)
  next
    case Recv_tail
    then show ?thesis using step ok next_index_wf(2) [OF wf run] by (auto simp: eqs receiver_ok_def)
  next
    case (Recv_copy src j)
    then show ?thesis using step ok le by (auto simp: eqs receiver_ok_def split: if_splits)
  qed (use step ok in \<open>auto simp: eqs receiver_ok_def split: if_splits\<close>)+
qed

lemma grows_rebalancing:
  assumes wf: "wf_ctrl cs" and r: "ivshmem_trusted_rebalancing ok cs = Inr (ret, cs')"
  shows "grows cs cs'"
proof -
  have k: "num_active_channels cs' = num_active_channels cs" "map chan_key (active cs') = map chan_key (active cs)"
    using rebalancing_keeps_channels [OF wf r] by simp_all
  have wf': "wf_ctrl cs'" using rebalancing_wf [OF wf, of ok] r by auto
  have "chan_key (channels cs' ! c) = chan_key (channels cs ! c)" if "c < nat (num_active_channels cs)" for c
    using that k wf_ctrl_length_active [OF wf] wf_ctrl_length_active [OF wf']
    by (metis active_nth nth_map)
  with k(1) show ?thesis by (simp add: grows_def)
qed

lemma keeps_place_control:
  assumes wf: "wf_ctrl cs" and r: "ivshmem_trusted_control now cs = Inr (ret, cs')"
  shows "keeps_place cs cs'"
proof (cases "has_channel_candidate cs")
  case True
  have "wf_ctrl (cs\<lparr>control_mutex := 1\<rparr>)" using wf by simp
  then show ?thesis
    by (cases rule: create_channel_cases [where now = now and k = "channel_candidate cs"])
      (use True r in \<open>auto simp: ivshmem_trusted_control_def keeps_place_def grows_def\<close>)
next
  case False
  then show ?thesis using r by (simp add: ivshmem_trusted_control_def)
qed

lemma trusted_event_kept:
  assumes wf: "wf_ctrl (ctrl sh)" and r: "trusted_event_step ok now ev sh = Inr sh'"
  shows "wf_ctrl (ctrl sh') \<and> (wf_sizes (ctrl sh) \<longrightarrow> wf_sizes (ctrl sh')) \<and> grows (ctrl sh) (ctrl sh') \<and>
    (ev \<noteq> Rb_timer \<longrightarrow> keeps_place (ctrl sh) (ctrl sh')) \<and> shm_data sh' = shm_data sh"
proof (cases ev)
  case Rb_timer
  obtain ret cs' where c: "ivshmem_trusted_rebalancing ok (ctrl sh) = Inr (ret, cs')" "wf_ctrl cs'"
    using rebalancing_wf [OF wf, of ok] by blast
  then have "sh' = sh\<lparr>ctrl := cs'\<rparr>" using r Rb_timer by (simp add: trusted_event_step_def)
  then show ?thesis
    using c grows_rebalancing [OF wf c(1)] rebalancing_wf_sizes [OF wf _ c(1)] Rb_timer by simp
next
  case Ctl_timer
  obtain ret cs' where c: "ivshmem_trusted_control now (ctrl sh) = Inr (ret, cs')" "wf_ctrl cs'"
    using trusted_control_wf [OF wf, of now] by blast
  then have "sh' = sh\<lparr>ctrl := cs'\<rparr> \<or> sh' = sh"
    using r Ctl_timer by (auto simp: trusted_event_step_def split: if_splits)
  then show ?thesis
    using wf c keeps_place_control [OF wf c(1)] trusted_control_wf_sizes [OF wf _ c(1)]
    by (auto simp: keeps_place_def)
qed (use wf r in \<open>simp_all add: trusted_event_step_def\<close>)

lemma trusted_event_total:
  assumes "wf_ctrl (ctrl sh)"
  shows "\<exists>sh'. trusted_event_step ok now ev sh = Inr sh'"
  using rebalancing_wf [OF assms, of ok] trusted_control_wf [OF assms, of now]
  by (auto simp: trusted_event_step_def split: trusted_event.splits)

lemma world_inv_frame:
  assumes "world_inv reb w" and "wf_ctrl cs'" and "wf_sizes cs'" and "grows (ctrl (w_shm w)) cs'"
    and "\<not> reb \<longrightarrow> keeps_place (ctrl (w_shm w)) cs'"
  shows "\<forall>t \<in> set (w_senders w). sender_ok cs' t \<and> (reb \<or> placed cs' t)"
    and "\<forall>r \<in> set (w_receivers w). receiver_ok cs' r"
  using assms grows_sender_ok grows_receiver_ok keeps_place_placed by (fastforce simp: world_inv_def Let_def)+

lemma world_inv_init: "world_init w \<Longrightarrow> world_inv reb w"
  using init_control_section_wf
  by (auto simp: world_init_def world_inv_def Let_def wf_sizes_def active_def ivshmem_init_control_section_def)

lemma world_inv_step:
  assumes inv: "world_inv reb w" and step: "world_step reb w w'"
  shows "world_inv reb w'"
  using step
proof cases
  case (world_send_call k buf sz)
  then show ?thesis using inv
    by (auto simp: world_inv_def Let_def sender_ok_def placed_def send_call_def in_request_def)
next
  case (world_recv_call k buf sz)
  then show ?thesis using inv by (auto simp: world_inv_def Let_def receiver_ok_def recv_call_def)
next
  case (world_send i now t sh)
  have wf: "wf_ctrl (ctrl (w_shm w))" and sz: "wf_sizes (ctrl (w_shm w))"
    and t: "sender_ok (ctrl (w_shm w)) (w_senders w ! i)" "reb \<or> placed (ctrl (w_shm w)) (w_senders w ! i)"
    using inv world_send(2) by (auto simp: world_inv_def Let_def)
  have k: "wf_ctrl (ctrl sh)" "wf_sizes (ctrl sh)" "keeps_place (ctrl (w_shm w)) (ctrl sh)"
    using send_step_kept [OF wf t(1) world_send(3)] sz by (simp_all add: shm_kept_def)
  then have g: "grows (ctrl (w_shm w)) (ctrl sh)" by (simp add: keeps_place_def)
  have "sender_ok (ctrl sh) t \<and> (reb \<or> placed (ctrl sh) t)"
    using send_step_ok [OF wf t(1) world_send(3)] t(2) g k(3) grows_sender_ok keeps_place_placed by blast
  moreover have "\<forall>t \<in> set (w_senders w). sender_ok (ctrl sh) t \<and> (reb \<or> placed (ctrl sh) t)"
    "\<forall>r \<in> set (w_receivers w). receiver_ok (ctrl sh) r"
    using world_inv_frame [OF inv k(1,2) g] k(3) by auto
  ultimately show ?thesis
    using k unfolding world_send(1) world_inv_def Let_def
    by (auto dest!: set_update_subset_insert [THEN subsetD])
next
  case (world_recv i r sh)
  have wf: "wf_ctrl (ctrl (w_shm w))" and sz: "wf_sizes (ctrl (w_shm w))"
    and t: "receiver_ok (ctrl (w_shm w)) (w_receivers w ! i)"
    using inv world_recv(2) by (auto simp: world_inv_def Let_def)
  have k: "wf_ctrl (ctrl sh)" "wf_sizes (ctrl sh)" "keeps_place (ctrl (w_shm w)) (ctrl sh)"
    using recv_step_kept [OF wf t world_recv(3)] sz by (simp_all add: shm_kept_def)
  then have g: "grows (ctrl (w_shm w)) (ctrl sh)" by (simp add: keeps_place_def)
  have "receiver_ok (ctrl sh) r"
    using recv_step_ok [OF wf t world_recv(3)] g grows_receiver_ok by blast
  moreover have "\<forall>t \<in> set (w_senders w). sender_ok (ctrl sh) t \<and> (reb \<or> placed (ctrl sh) t)"
    "\<forall>r \<in> set (w_receivers w). receiver_ok (ctrl sh) r"
    using world_inv_frame [OF inv k(1,2) g] k(3) by auto
  ultimately show ?thesis
    using k unfolding world_recv(1) world_inv_def Let_def
    by (auto dest!: set_update_subset_insert [THEN subsetD])
next
  case (world_trusted ev ok now sh)
  have wf: "wf_ctrl (ctrl (w_shm w))" and sz: "wf_sizes (ctrl (w_shm w))"
    using inv by (auto simp: world_inv_def Let_def)
  have k: "wf_ctrl (ctrl sh)" "wf_sizes (ctrl sh)" "grows (ctrl (w_shm w)) (ctrl sh)"
    "\<not> reb \<longrightarrow> keeps_place (ctrl (w_shm w)) (ctrl sh)"
    using trusted_event_kept [OF wf world_trusted(3)] sz world_trusted(2) by auto
  show ?thesis
    using k world_inv_frame [OF inv k] unfolding world_trusted(1) world_inv_def Let_def by auto
qed

lemma data_change:
  assumes inv: "world_inv reb w" and step: "world_step reb w w'"
    and a: "shm_data (w_shm w') a \<noteq> shm_data (w_shm w) a"
  shows "\<exists>t \<in> set (w_senders w). \<exists>dst j. snd_pc t = Send_copy dst j \<and> a = dst + j \<and> j < 4096"
  using step
proof cases
  case (world_send i now t sh)
  have "\<exists>dst j. snd_pc (w_senders w ! i) = Send_copy dst j \<and> a = dst + j \<and> j < 4096"
  proof (cases "snd_pc (w_senders w ! i)")
    case (Send_copy dst j)
    then show ?thesis
      using a world_send unat_send_chunk_le [of "snd_size (w_senders w ! i)"]
      by (auto simp: ivshmem_send_step_def in_request_def send_loop_step_def send_copy_step_def Let_def split: if_splits)
  qed (use a world_send in \<open>auto simp: ivshmem_send_step_def in_request_def request_channel_step_def send_loop_step_def
        Let_def split: if_splits sum.splits option.splits\<close>)
  then show ?thesis using nth_mem [OF world_send(2)] by blast
next
  case (world_recv i r sh)
  then show ?thesis using a recv_step_frame(4) [OF world_recv(3)] by simp
next
  case (world_trusted ev ok now sh)
  then show ?thesis using a inv trusted_event_kept [OF _ world_trusted(3)] by (simp add: world_inv_def Let_def)
qed (use a in simp_all)

lemma world_step_grows:
  assumes inv: "world_inv reb w" and step: "world_step reb w w'"
  shows "grows (ctrl (w_shm w)) (ctrl (w_shm w'))"
proof -
  have wf: "wf_ctrl (ctrl (w_shm w))" using inv by (simp add: world_inv_def Let_def)
  from step show ?thesis
  proof cases
    case (world_send i now t sh)
    then have "sender_ok (ctrl (w_shm w)) (w_senders w ! i)" using inv by (auto simp: world_inv_def Let_def)
    from send_step_kept [OF wf this world_send(3)] show ?thesis
      unfolding world_send(1) by (simp add: shm_kept_def keeps_place_def)
  next
    case (world_recv i r sh)
    then have "receiver_ok (ctrl (w_shm w)) (w_receivers w ! i)" using inv by (auto simp: world_inv_def Let_def)
    from recv_step_kept [OF wf this world_recv(3)] show ?thesis
      unfolding world_recv(1) by (simp add: shm_kept_def keeps_place_def)
  next
    case (world_trusted ev ok now sh)
    then show ?thesis using trusted_event_kept [OF wf world_trusted(3)] by simp
  qed simp_all
qed

interpretation world_reb: safe_system world_init "world_step reb" "world_inv reb"
  by unfold_locales (auto intro: world_inv_init world_inv_step)

section \<open>Properties\<close>

lemma contiguous_ordered:
  "contiguous off chs e \<Longrightarrow> i < j \<Longrightarrow> j < length chs \<Longrightarrow>
   unat (buf_offset (chs ! i)) + unat (buf_size (chs ! i)) \<le> unat (buf_offset (chs ! j))"
proof (induction chs arbitrary: off i j)
  case (Cons ch chs)
  obtain j' where j: "j = Suc j'" "j' < length chs" using Cons.prems by (cases j) auto
  have c: "contiguous (off + unat (buf_size ch)) chs e" "unat (buf_offset ch) = off" using Cons.prems(1) by auto
  show ?case
  proof (cases i)
    case 0
    then show ?thesis using j c contiguous_bound [OF c(1) nth_mem [OF j(2)]] by simp
  next
    case (Suc i')
    then show ?thesis using Cons.IH [OF c(1), of i' j'] Cons.prems(2) j by simp
  qed
qed simp

lemma buffers_ordered:
  assumes "wf_ctrl cs" and "i < j" and "j < nat (num_active_channels cs)"
  shows "unat (buf_offset (channels cs ! i)) + unat (buf_size (channels cs ! i)) \<le> unat (buf_offset (channels cs ! j))"
  using assms contiguous_ordered [of 0 "active cs" "unat (free_start_offset cs)" i j] wf_ctrl_length_active [OF assms(1)]
  by (simp add: wf_ctrl_def)

lemma in_buffer_unique:
  assumes "wf_ctrl cs" and "i < nat (num_active_channels cs)" and "j < nat (num_active_channels cs)"
    and "in_buffer a (channels cs ! i)" and "in_buffer a (channels cs ! j)"
  shows "i = j"
  using assms buffers_ordered [OF assms(1), of i j] buffers_ordered [OF assms(1), of j i]
  by (cases i j rule: linorder_cases) (auto simp: in_buffer_def)

lemma data_change_owner:
  assumes inv: "world_inv False w" and "world_step False w w'" and "shm_data (w_shm w') a \<noteq> shm_data (w_shm w) a"
  obtains t c where "t \<in> set (w_senders w)" "send_running (snd_pc t)" "c < nat (num_active_channels (ctrl (w_shm w)))"
    "in_buffer a (chan_at (w_shm w) c)" "key_matches (snd_key t) (chan_key (chan_at (w_shm w) c))"
proof -
  have wf: "wf_ctrl (ctrl (w_shm w))" using inv by (simp add: world_inv_def Let_def)
  obtain t dst j where t: "t \<in> set (w_senders w)" "snd_pc t = Send_copy dst j" "a = dst + j" "j < 4096"
    using data_change [OF assms] by blast
  let ?ch = "chan_at (w_shm w) (snd_chan t)"
  have ok: "snd_chan t < nat (num_active_channels (ctrl (w_shm w)))" "key_matches (snd_key t) (chan_key ?ch)"
    and "placed (ctrl (w_shm w)) t"
    using inv t(1,2) by (auto simp: world_inv_def Let_def sender_ok_def in_request_def)
  then obtain p where p: "p < nat (num_page ?ch)" "dst = unat (buf_offset ?ch) + 4096 * p"
    using t(2) by (auto simp: placed_def)
  have "in_buffer a ?ch"
    using p t(3,4) wf_ctrl_chan(1) [OF wf ok(1)] by (auto simp: in_buffer_def wf_channel_def)
  moreover have "send_running (snd_pc t)" using t(2) by (simp add: in_request_def)
  ultimately show ?thesis using that ok t(1) by blast
qed

lemma world_control_section_safe_facts:
  assumes "reach world_init (world_step reb) w"
  shows "wf_ctrl (ctrl (w_shm w))"
    and "\<lbrakk>i < j; j < nat (num_active_channels (ctrl (w_shm w)))\<rbrakk> \<Longrightarrow>
      unat (buf_offset (chan_at (w_shm w) i)) + unat (buf_size (chan_at (w_shm w) i))
        \<le> unat (buf_offset (chan_at (w_shm w) j))"
    and "t \<in> set (w_senders w) \<Longrightarrow> snd_pc t = Send_fault e \<Longrightarrow>
      e = OutOfBounds \<and> length (snd_buf t) < unat (snd_sent t) + 4096"
    and "r \<in> set (w_receivers w) \<Longrightarrow> rcv_pc r = Recv_fault e \<Longrightarrow>
      e = SignedOverflow \<or> e = OutOfBounds \<and> length (rcv_buf r) < nat (rcv_received r) + 4096"
proof -
  have inv: "world_inv reb w" by (rule world_reb.reach_inv [OF assms])
  then show wf: "wf_ctrl (ctrl (w_shm w))" by (simp add: world_inv_def Let_def)
  show "unat (buf_offset (chan_at (w_shm w) i)) + unat (buf_size (chan_at (w_shm w) i))
        \<le> unat (buf_offset (chan_at (w_shm w) j))"
    if "i < j" "j < nat (num_active_channels (ctrl (w_shm w)))"
    by (rule buffers_ordered [OF wf that])
  show "e = OutOfBounds \<and> length (snd_buf t) < unat (snd_sent t) + 4096"
    if "t \<in> set (w_senders w)" "snd_pc t = Send_fault e"
    using inv that by (auto simp: world_inv_def Let_def sender_ok_def)
  show "e = SignedOverflow \<or> e = OutOfBounds \<and> length (rcv_buf r) < nat (rcv_received r) + 4096"
    if "r \<in> set (w_receivers w)" "rcv_pc r = Recv_fault e"
    using inv that by (auto simp: world_inv_def Let_def receiver_ok_def)
qed


lemma alone_world:
  assumes "steps (send_alone now) p q"
  shows "steps (world_step reb) (w\<lparr>w_senders := ts @ [fst p], w_shm := snd p\<rparr>) (w\<lparr>w_senders := ts @ [fst q], w_shm := snd q\<rparr>)"
  using assms
proof (induction rule: steps.induct)
  case (steps_step p q u)
  obtain t sh where p: "p = (t, sh)" by fastforce
  then have "ivshmem_send_step now t sh = (fst q, snd q)" using steps_step.hyps(1) by (auto elim: send_alone.cases)
  then have "world_step reb (w\<lparr>w_senders := ts @ [t], w_shm := sh\<rparr>) (w\<lparr>w_senders := ts @ [fst q], w_shm := snd q\<rparr>)"
    using world_send [of "length ts" "w\<lparr>w_senders := ts @ [t], w_shm := sh\<rparr>" now "fst q" "snd q" reb] by simp
  with steps_step.IH show ?case unfolding p by (auto intro: steps.steps_step)
qed (rule steps_refl)

lemma request_world:
  assumes wf: "wf_ctrl (ctrl (w_shm w))" and none: "ivshmem_find_channel (ctrl (w_shm w)) k = Inr None"
    and room: "num_active_channels (ctrl (w_shm w)) < 32"
      "unat (free_start_offset (ctrl (w_shm w))) + 16384 \<le> 4192224"
  shows "\<exists>w' ch. steps (world_step reb) w w' \<and> wf_ctrl (ctrl (w_shm w')) \<and> control_mutex (ctrl (w_shm w')) = 0 \<and>
    active (ctrl (w_shm w')) = active (ctrl (w_shm w)) @ [ch] \<and>
    chan_key ch = k \<and> num_page ch = 4 \<and> head ch = 0 \<and> tail ch = 0 \<and> shm_data (w_shm w') = shm_data (w_shm w) \<and>
    \<not> has_channel_candidate (ctrl (w_shm w')) \<and> w_receivers w' = w_receivers w \<and>
    w_senders w' = w_senders w @ [(send_call k [] 0)\<lparr>snd_pc := Send_wait\<rparr>]"
proof -
  let ?t = "send_call k [] 0" and ?sh = "w_shm w"
  let ?cs = "(ctrl ?sh)\<lparr>has_channel_candidate := True, channel_candidate := k\<rparr>"
  let ?w = "\<lambda>t sh. w\<lparr>w_senders := w_senders w @ [t], w_shm := sh\<rparr>"
  have t: "snd_key ?t = k" "snd_pc ?t = Send_find" by (simp_all add: send_call_def)
  note rs = request_steps [where sh = ?sh and t = ?t and now = 0, unfolded t, OF none refl]
  have s: "send_alone 0 (?t, ?sh) (?t\<lparr>snd_pc := Send_flag\<rparr>, ?sh)"
    "send_alone 0 (?t\<lparr>snd_pc := Send_flag\<rparr>, ?sh)
       (?t\<lparr>snd_pc := Send_candidate\<rparr>, ?sh\<lparr>ctrl := (ctrl ?sh)\<lparr>has_channel_candidate := True\<rparr>\<rparr>)"
    "send_alone 0 (?t\<lparr>snd_pc := Send_candidate\<rparr>, ?sh\<lparr>ctrl := (ctrl ?sh)\<lparr>has_channel_candidate := True\<rparr>\<rparr>)
       (?t\<lparr>snd_pc := Send_wait\<rparr>, ?sh\<lparr>ctrl := ?cs\<rparr>)"
    using send_alone_step [of 0 ?t ?sh] send_alone_step [of 0 "?t\<lparr>snd_pc := Send_flag\<rparr>" ?sh]
      send_alone_step [of 0 "?t\<lparr>snd_pc := Send_candidate\<rparr>" "?sh\<lparr>ctrl := (ctrl ?sh)\<lparr>has_channel_candidate := True\<rparr>\<rparr>"]
    unfolding rs by simp_all
  have alone: "steps (send_alone 0) (?t, ?sh) (?t\<lparr>snd_pc := Send_wait\<rparr>, ?sh\<lparr>ctrl := ?cs\<rparr>)"
    using s by (blast intro: steps.intros)
  have call: "world_step reb w (?w ?t ?sh)" using world_send_call [of reb w k "[]" 0] by simp
  have w1: "steps (world_step reb) w (?w (?t\<lparr>snd_pc := Send_wait\<rparr>) (?sh\<lparr>ctrl := ?cs\<rparr>))"
    using alone_world [OF alone, where reb = reb and w = w and ts = "w_senders w"] call by (auto intro: steps_step)
  obtain cs' ch where c: "ivshmem_trusted_control 0 ?cs = Inr (0, cs')" "wf_ctrl cs'" "active cs' = active ?cs @ [ch]"
    "chan_key ch = k" "num_page ch = 4" "head ch = 0" "tail ch = 0" "control_mutex cs' = 0" "\<not> has_channel_candidate cs'"
    using trusted_control_creates [of ?cs 0] wf room by auto
  then have "trusted_event_step True 0 Ctl_timer (?sh\<lparr>ctrl := ?cs\<rparr>) = Inr (?sh\<lparr>ctrl := cs'\<rparr>)"
    by (simp add: trusted_event_step_def ivshmem_check_is_control_requested_def)
  then have w2: "world_step reb (?w (?t\<lparr>snd_pc := Send_wait\<rparr>) (?sh\<lparr>ctrl := ?cs\<rparr>)) (?w (?t\<lparr>snd_pc := Send_wait\<rparr>) (?sh\<lparr>ctrl := cs'\<rparr>))"
    using world_trusted [where ev = Ctl_timer and reb = reb and ok = True and now = 0 and w = "?w (?t\<lparr>snd_pc := Send_wait\<rparr>) (?sh\<lparr>ctrl := ?cs\<rparr>)"] by simp
  show ?thesis
    using steps_trans [OF w1 steps_one [of "world_step reb", OF w2]] c
    by (intro exI [of _ "?w (?t\<lparr>snd_pc := Send_wait\<rparr>) (?sh\<lparr>ctrl := cs'\<rparr>)"] exI [of _ ch]) simp
qed

lemma start_world_reach: "reach world_init step start_world"
  by (rule reach_init) (auto simp: world_init_def start_world_def empty_shm_def)

lemma world_two_channels:
  "\<exists>w ch0 ch1. reach world_init (world_step reb) w \<and> wf_ctrl (ctrl (w_shm w)) \<and> control_mutex (ctrl (w_shm w)) = 0 \<and>
     active (ctrl (w_shm w)) = [ch0, ch1] \<and> chan_key ch0 = key_a \<and> chan_key ch1 = key_b \<and>
     num_page ch0 = 4 \<and> num_page ch1 = 4 \<and> head ch1 = 0 \<and> tail ch1 = 0 \<and>
     shm_data (w_shm w) = shm_data empty_shm"
proof -
  have a0: "active (ctrl empty_shm) = []" by (simp add: active_def empty_shm_facts)
  obtain w1 ch0 where w1: "steps (world_step reb) start_world w1" "wf_ctrl (ctrl (w_shm w1))"
    "active (ctrl (w_shm w1)) = [ch0]" "chan_key ch0 = key_a" "num_page ch0 = 4"
    "shm_data (w_shm w1) = shm_data empty_shm"
    using request_world [of start_world key_a reb] empty_shm_facts empty_shm_find a0 by (auto simp: start_world_def)
  have n1: "nat (num_active_channels (ctrl (w_shm w1))) = 1" using wf_ctrl_length_active [OF w1(2)] w1(3) by simp
  have "unat (buf_size ch0) = 16384" "unat (free_start_offset (ctrl (w_shm w1))) = 16384"
    using w1(2,3,5) by (auto simp: wf_ctrl_def wf_channel_def)
  moreover have "ivshmem_find_channel (ctrl (w_shm w1)) key_b = Inr None"
  proof -
    have "channels (ctrl (w_shm w1)) ! 0 = ch0" using active_nth [of 0 "ctrl (w_shm w1)"] n1 w1(3) by simp
    moreover have "num_active_channels (ctrl (w_shm w1)) \<le> int (length (channels (ctrl (w_shm w1))))"
      using w1(2) by (simp add: wf_ctrl_def)
    ultimately show ?thesis
      using w1(4) by (simp add: ivshmem_find_channel_def find_channel_eq_find n1 key_matches_def key_a_def key_b_def)
  qed
  ultimately obtain w2 ch1 where w2: "steps (world_step reb) w1 w2" "wf_ctrl (ctrl (w_shm w2))"
    "control_mutex (ctrl (w_shm w2)) = 0" "active (ctrl (w_shm w2)) = [ch0, ch1]" "chan_key ch1 = key_b" "num_page ch1 = 4"
    "head ch1 = 0" "tail ch1 = 0" "shm_data (w_shm w2) = shm_data empty_shm"
    using request_world [OF w1(2), of key_b reb] n1 w1(3,6) by fastforce
  have "reach world_init (world_step reb) w2"
    using reach_steps [OF w2(1)] reach_steps [OF w1(1)] start_world_reach by blast
  then show ?thesis using w1(4,5) w2 by blast
qed

lemma world_copying:
  "\<exists>w i ch0 ch1. reach world_init (world_step reb) w \<and> wf_ctrl (ctrl (w_shm w)) \<and>
     active (ctrl (w_shm w)) = [ch0, ch1] \<and> chan_key ch0 = key_a \<and> chan_key ch1 = key_b \<and>
     num_page ch0 = 4 \<and> i < length (w_senders w) \<and>
     w_senders w ! i = (send_call key_b (replicate 8192 7) 8192)\<lparr>snd_pc := Send_copy 16384 0, snd_chan := 1\<rparr> \<and>
     shm_data (w_shm w) 16384 = 0"
proof -
  obtain w ch0 ch1 where w: "reach world_init (world_step reb) w" "wf_ctrl (ctrl (w_shm w))"
     "control_mutex (ctrl (w_shm w)) = 0" "active (ctrl (w_shm w)) = [ch0, ch1]" "chan_key ch0 = key_a" "chan_key ch1 = key_b"
     "num_page ch0 = 4" "num_page ch1 = 4" "head ch1 = 0" "tail ch1 = 0"
     "shm_data (w_shm w) = shm_data empty_shm"
    using world_two_channels [of reb] by blast
  let ?cs = "ctrl (w_shm w)" and ?t = "send_call key_b (replicate 8192 7) 8192"
  have n: "nat (num_active_channels ?cs) = 2" using wf_ctrl_length_active [OF w(2)] w(4) by simp
  have at: "channels ?cs ! 0 = ch0" "channels ?cs ! 1 = ch1"
    using active_nth [of 0 ?cs] active_nth [of 1 ?cs] n w(4) by simp_all
  have off: "unat (buf_offset ch1) = 16384" using w(2,4,7) by (auto simp: wf_ctrl_def wf_channel_def)
  have le: "num_active_channels ?cs \<le> int (length (channels ?cs))" using w(2) by (simp add: wf_ctrl_def)
  have f: "ivshmem_find_channel ?cs key_b = Inr (Some 1)"
    using at w(5,6)
    by (simp add: ivshmem_find_channel_def find_channel_eq_find [OF le] n upt_rec key_matches_def key_a_def key_b_def)
  have "page_addr ch1 0 = 16384" using off by (simp add: page_addr_def)
  then have al: "steps (send_alone 0) (?t, w_shm w) (?t\<lparr>snd_pc := Send_copy 16384 0, snd_chan := 1\<rparr>, w_shm w)"
    using send_enters_copy(1) [OF w(2,3) f, of 8192 0 "replicate 8192 7"] at w(8-10) by simp
  let ?w = "w\<lparr>w_senders := w_senders w @ [?t\<lparr>snd_pc := Send_copy 16384 0, snd_chan := 1\<rparr>]\<rparr>"
  have "world_step reb w (w\<lparr>w_senders := w_senders w @ [?t]\<rparr>)" by (rule world_send_call)
  with w(1) have r: "reach world_init (world_step reb) (w\<lparr>w_senders := w_senders w @ [?t]\<rparr>)" by (rule reach_step)
  have st: "steps (world_step reb) (w\<lparr>w_senders := w_senders w @ [?t]\<rparr>) ?w"
    using alone_world [OF al, where reb = reb and w = w and ts = "w_senders w"] by simp
  have "reach world_init (world_step reb) ?w" by (rule reach_steps [OF st r])
  moreover have "shm_data empty_shm 16384 = 0"
    by (simp add: empty_shm_def ivshmem_init_control_section_def)
  ultimately show ?thesis
    using w by (intro exI [of _ ?w] exI [of _ "length (w_senders w)"] exI [of _ ch0] exI [of _ ch1]) simp
qed

lemma copying_writes:
  assumes "t = (send_call key_b (replicate 8192 7) 8192)\<lparr>snd_pc := Send_copy 16384 0, snd_chan := 1\<rparr>"
  shows "ivshmem_send_step 0 t sh = (t\<lparr>snd_pc := Send_copy 16384 1\<rparr>, sh\<lparr>shm_data := (shm_data sh)(16384 := 7)\<rparr>)"
proof -
  have "unat (send_chunk 8192) = 4096" by (simp add: send_chunk_eq)
  then show ?thesis
    using assms by (simp add: ivshmem_send_step_def in_request_def send_loop_step_def send_copy_step_def send_call_def)
qed

text \<open>
  C38.  With rebalancing, isolation fails: there is a reachable state in which a sender,
  whose channel has moved during its copy, changes a byte of another channel's buffer.
\<close>

theorem rebalancing_breaks_isolation:
  "\<exists>w i t' sh' a c. reach world_init (world_step True) w \<and> i < length (w_senders w) \<and>
     ivshmem_send_step 0 (w_senders w ! i) (w_shm w) = (t', sh') \<and>
     c < nat (num_active_channels (ctrl (w_shm w))) \<and> in_buffer a (chan_at (w_shm w) c) \<and>
     shm_data sh' a \<noteq> shm_data (w_shm w) a \<and>
     \<not> key_matches (snd_key (w_senders w ! i)) (chan_key (chan_at (w_shm w) c))"
proof -
  obtain w i ch0 ch1 where w: "reach world_init (world_step True) w" "wf_ctrl (ctrl (w_shm w))"
     "active (ctrl (w_shm w)) = [ch0, ch1]" "chan_key ch0 = key_a" "i < length (w_senders w)"
     "w_senders w ! i = (send_call key_b (replicate 8192 7) 8192)\<lparr>snd_pc := Send_copy 16384 0, snd_chan := 1\<rparr>"
     "shm_data (w_shm w) 16384 = 0"
    using world_copying [of True] by blast
  let ?cs = "ctrl (w_shm w)"
  have n: "num_active_channels ?cs = 2" using wf_ctrl_length_active [OF w(2)] w(3) by simp
  have sz: "wf_sizes ?cs" using world_reb.reach_inv [OF w(1)] by (simp add: world_inv_def Let_def)
  obtain cs' where c: "ivshmem_trusted_rebalancing True ?cs = Inr (0, cs')" "wf_ctrl cs'" "balanced cs'"
    "map chan_key (active cs') = map chan_key (active ?cs)"
    using rebalancing_balances [OF w(2) sz] n by auto
  have n': "num_active_channels cs' = 2" using rebalancing_wf [OF w(2), of True] c(1) n by auto
  have "chan_key (channels cs' ! 0) = key_a"
    using c(4) w(3,4) n' wf_ctrl_length_active [OF c(2)] active_nth [of 0 cs'] by (cases "active cs'") auto
  then have key: "\<not> key_matches key_b (chan_key (channels cs' ! 0))"
    by (simp add: key_matches_def key_a_def key_b_def)
  have buf: "in_buffer 16384 (channels cs' ! 0)"
    using balanced_channel [OF c(2,3), of 0] n' unat_rebalance_size [of 2] demo_pages(2) by (simp add: in_buffer_def)
  let ?w = "w\<lparr>w_shm := (w_shm w)\<lparr>ctrl := cs'\<rparr>\<rparr>"
  have "trusted_event_step True 0 Rb_timer (w_shm w) = Inr ((w_shm w)\<lparr>ctrl := cs'\<rparr>)"
    using c(1) by (simp add: trusted_event_step_def)
  then have r: "reach world_init (world_step True) ?w"
    by (rule reach_step [OF w(1) world_trusted, rotated]) simp
  show ?thesis
    using r w(5,7) n' buf key copying_writes [OF w(6), of "w_shm ?w"]
    by (intro exI [of _ ?w] exI [of _ i] exI conjI) (auto simp: w(6) send_call_def)
qed


lemma trusted_batch_total:
  assumes "wf_ctrl (ctrl sh)" and "wf_sizes (ctrl sh)"
  shows "\<exists>sh'. trusted_batch evs sh = Inr sh' \<and> wf_ctrl (ctrl sh') \<and> wf_sizes (ctrl sh') \<and>
    grows (ctrl sh) (ctrl sh') \<and> shm_data sh' = shm_data sh"
  using assms
proof (induction evs arbitrary: sh)
  case (Cons e evs)
  obtain ok now ev where e: "e = (ok, now, ev)" using prod_cases3 by blast
  obtain sh1 where s1: "trusted_event_step ok now ev sh = Inr sh1"
    using trusted_event_total [OF Cons.prems(1)] by blast
  have k: "wf_ctrl (ctrl sh1)" "wf_sizes (ctrl sh1)" "grows (ctrl sh) (ctrl sh1)" "shm_data sh1 = shm_data sh"
    using trusted_event_kept [OF Cons.prems(1) s1] Cons.prems(2) by auto
  from Cons.IH [OF k(1,2)] k(3,4) s1 show ?case unfolding e by (fastforce simp: grows_def)
qed simp

lemma trusted_loop_total:
  assumes "wf_ctrl (ctrl sh)" and "wf_sizes (ctrl sh)"
  shows "\<exists>st sh'. trusted_loop outs sh = Inr (st, sh') \<and> wf_ctrl (ctrl sh') \<and> wf_sizes (ctrl sh') \<and>
    st \<in> {Running, Loop_left} \<and> shm_data sh' = shm_data sh"
  using assms
proof (induction outs sh rule: trusted_loop.induct)
  case (4 evs outs sh)
  then show ?case using trusted_batch_total [OF 4(2,3), of evs] by fastforce
qed auto

lemma wf_sizes_init: "wf_sizes (ctrl (snd (ivshmem_init_control_section sh)))"
  by (simp add: wf_sizes_def active_def ivshmem_init_control_section_def)



lemma pid_key_matches:
  assumes "0 < m" "m \<le> 100" "n \<le> 100"
  shows "key_matches (pid_key m) (pid_key n) \<longleftrightarrow> m = n"
proof -
  have "unat (word_of_nat m :: u32) = m" "unat (word_of_nat n :: u32) = n"
    using assms by (simp_all add: unat_of_nat_small)
  then show ?thesis using assms by (auto simp: key_matches_def pid_key_def word_unat_eq_iff)
qed

lemma world_fill:
  "n \<le> 32 \<Longrightarrow> \<exists>w. reach world_init (world_step True) w \<and>
     map chan_key (active (ctrl (w_shm w))) = map pid_key [1..<Suc n] \<and> balanced (ctrl (w_shm w))"
proof (induction n)
  case 0
  have "balanced (ctrl empty_shm)" "active (ctrl empty_shm) = []"
    by (simp_all add: balanced_def active_def empty_shm_facts)
  then show ?case using start_world_reach by (fastforce simp: start_world_def)
next
  case (Suc n)
  then obtain w where w: "reach world_init (world_step True) w" "balanced (ctrl (w_shm w))"
    "map chan_key (active (ctrl (w_shm w))) = map pid_key [1..<Suc n]" by auto
  let ?cs = "ctrl (w_shm w)"
  have wf: "wf_ctrl ?cs" using world_reb.reach_inv [OF w(1)] by (simp add: world_inv_def Let_def)
  have len: "nat (num_active_channels ?cs) = n"
    using wf_ctrl_length_active [OF wf] arg_cong [OF w(3), of length] by (simp del: upt_Suc)
  have room: "num_active_channels ?cs < 32" "unat (free_start_offset ?cs) + 16384 \<le> 4192224"
    using len Suc.prems balanced_free [OF wf w(2)] by auto
  have none: "ivshmem_find_channel ?cs (pid_key (Suc n)) = Inr None"
  proof -
    have "num_active_channels ?cs \<le> int (length (channels ?cs))" using wf by (simp add: wf_ctrl_def)
    then show ?thesis
    proof (cases rule: find_channel_cases [where k = "pid_key (Suc n)"])
      case (found c)
      then have "chan_key (channels ?cs ! c) \<in> set (map chan_key (active ?cs))"
        using len wf_ctrl_length_active [OF wf] by (metis active_nth length_map nth_map nth_mem zless_nat_eq_int_zless)
      then obtain m where "m < Suc n" "chan_key (channels ?cs ! c) = pid_key m" unfolding w(3) by (auto simp del: upt_Suc)
      then show ?thesis using found(3) pid_key_matches [of "Suc n" m] Suc.prems by simp
    qed
  qed
  obtain w1 ch where w1: "steps (world_step True) w w1" "wf_ctrl (ctrl (w_shm w1))"
    "active (ctrl (w_shm w1)) = active ?cs @ [ch]" "chan_key ch = pid_key (Suc n)"
    using request_world [OF wf none room] by blast
  have r1: "reach world_init (world_step True) w1" by (rule reach_steps [OF w1(1) w(1)])
  then have sz: "wf_sizes (ctrl (w_shm w1))" using world_reb.reach_inv [OF r1] by (simp add: world_inv_def Let_def)
  have "0 < num_active_channels (ctrl (w_shm w1))"
    using wf_ctrl_length_active [OF w1(2)] w1(3) by simp
  from rebalancing_balances [OF w1(2) sz this] obtain cs' where
    c: "ivshmem_trusted_rebalancing True (ctrl (w_shm w1)) = Inr (0, cs')" "balanced cs'"
    "map chan_key (active cs') = map chan_key (active (ctrl (w_shm w1)))" by blast
  let ?w = "w1\<lparr>w_shm := (w_shm w1)\<lparr>ctrl := cs'\<rparr>\<rparr>"
  have "trusted_event_step True 0 Rb_timer (w_shm w1) = Inr ((w_shm w1)\<lparr>ctrl := cs'\<rparr>)"
    using c(1) by (simp add: trusted_event_step_def)
  then have "reach world_init (world_step True) ?w"
    by (rule reach_step [OF r1 world_trusted, rotated]) simp
  then show ?case
    using c(2,3) w1(3,4) w(3) by (intro exI [of _ ?w]) simp
qed

theorem channels_for_32_senders:
  assumes "n \<le> 32"
  shows "\<exists>w. reach world_init (world_step True) w \<and> num_active_channels (ctrl (w_shm w)) = int n \<and>
    (\<forall>m. 1 \<le> m \<and> m \<le> n \<longrightarrow> (\<exists>c. ivshmem_find_channel (ctrl (w_shm w)) (pid_key m) = Inr (Some c)))"
proof -
  obtain w where w: "reach world_init (world_step True) w"
    "map chan_key (active (ctrl (w_shm w))) = map pid_key [1..<Suc n]"
    using world_fill [OF assms] by blast
  let ?cs = "ctrl (w_shm w)"
  have wf: "wf_ctrl ?cs" using world_reb.reach_inv [OF w(1)] by (simp add: world_inv_def Let_def)
  have "num_active_channels ?cs = int n"
    using wf_ctrl_length_active [OF wf] arg_cong [OF w(2), of length] wf by (auto simp: wf_ctrl_def simp del: upt_Suc)
  moreover have "\<exists>c. ivshmem_find_channel ?cs (pid_key m) = Inr (Some c)" if "1 \<le> m" "m \<le> n" for m
  proof (rule ccontr)
    assume "\<nexists>c. ivshmem_find_channel ?cs (pid_key m) = Inr (Some c)"
    then have "ivshmem_find_channel ?cs (pid_key m) = Inr None"
      using find_no_fault [OF wf] by (metis option.exhaust sum.exhaust)
    from find_none_active [OF wf this] have "pid_key m \<notin> chan_key ` set (active ?cs)" by auto
    moreover have "pid_key m \<in> set (map chan_key (active ?cs))" unfolding w(2) using that by (auto simp del: upt_Suc)
    ultimately show False by simp
  qed
  ultimately show ?thesis using w(1) by blast
qed

theorem channels_for_32_senders_witness:
  "\<exists>w. reach world_init (world_step True) w \<and> num_active_channels (ctrl (w_shm w)) = 32"
  using channels_for_32_senders [of 32] by auto

lemma world_steps_grow:
  assumes "steps (world_step reb) w w'" and "world_inv reb w"
  shows "grows (ctrl (w_shm w)) (ctrl (w_shm w'))"
  using assms
proof (induction rule: steps.induct)
  case (steps_step w w1 w2)
  have "grows (ctrl (w_shm w)) (ctrl (w_shm w1))"
    by (rule world_step_grows [OF steps_step.prems steps_step.hyps(1)])
  moreover have "grows (ctrl (w_shm w1)) (ctrl (w_shm w2))"
    using steps_step.IH world_inv_step [OF steps_step.prems steps_step.hyps(1)] by blast
  ultimately show ?case by (auto simp: grows_def)
qed simp

lemma channels_never_freed_facts:
  assumes "reach world_init (world_step True) w" and "steps (world_step True) w w'"
    and "c < nat (num_active_channels (ctrl (w_shm w)))"
  shows "c < nat (num_active_channels (ctrl (w_shm w')))" and "chan_key (chan_at (w_shm w') c) = chan_key (chan_at (w_shm w) c)"
    and "num_active_channels (ctrl (w_shm w')) \<le> 32"
    and "num_active_channels (ctrl (w_shm w)) = 32 \<Longrightarrow> ivshmem_create_channel now (ctrl (w_shm w')) k = Inr (- 1, ctrl (w_shm w'))"
proof -
  have inv: "world_inv True w" by (rule world_reb.reach_inv [OF assms(1)])
  have g: "grows (ctrl (w_shm w)) (ctrl (w_shm w'))" by (rule world_steps_grow [OF assms(2) inv])
  then show "c < nat (num_active_channels (ctrl (w_shm w')))" "chan_key (chan_at (w_shm w') c) = chan_key (chan_at (w_shm w) c)"
    using assms(3) by (auto simp: grows_def)
  have "wf_ctrl (ctrl (w_shm w'))"
    using world_reb.steps_inv [OF assms(2) inv] by (simp add: world_inv_def Let_def)
  then show le: "num_active_channels (ctrl (w_shm w')) \<le> 32" by (simp add: wf_ctrl_def ivshmem_consts)
  show "ivshmem_create_channel now (ctrl (w_shm w')) k = Inr (- 1, ctrl (w_shm w'))"
    if "num_active_channels (ctrl (w_shm w)) = 32"
    using g that by (simp add: grows_def ivshmem_create_channel_def ivshmem_consts)
qed

text \<open>
  Channels are never freed: whatever happens, a channel keeps its place and key, there
  are never more than 32, and once there are 32 every further creation fails.
\<close>

theorem channels_never_freed:
  assumes "reach world_init (world_step True) w" and "steps (world_step True) w w'"
    and "c < nat (num_active_channels (ctrl (w_shm w)))"
  shows "c < nat (num_active_channels (ctrl (w_shm w'))) \<and>
    chan_key (chan_at (w_shm w') c) = chan_key (chan_at (w_shm w) c) \<and>
    num_active_channels (ctrl (w_shm w')) \<le> 32 \<and>
    (num_active_channels (ctrl (w_shm w)) = 32 \<longrightarrow>
       ivshmem_create_channel now (ctrl (w_shm w')) k = Inr (- 1, ctrl (w_shm w')))"
  using channels_never_freed_facts [OF assms] by auto

theorem channels_never_freed_witness:
  "\<exists>w. reach world_init (world_step True) w \<and> num_active_channels (ctrl (w_shm w)) = 32 \<and>
     ivshmem_create_channel 0 (ctrl (w_shm w)) zero_key = Inr (- 1, ctrl (w_shm w))"
proof -
  obtain w where w: "reach world_init (world_step True) w" "map chan_key (active (ctrl (w_shm w))) = map pid_key [1..<Suc 32]"
    using world_fill [of 32] by blast
  have wf: "wf_ctrl (ctrl (w_shm w))" using world_reb.reach_inv [OF w(1)] by (simp add: world_inv_def Let_def)
  have n: "num_active_channels (ctrl (w_shm w)) = 32"
    using wf_ctrl_length_active [OF wf] arg_cong [OF w(2), of length] by simp
  show ?thesis
    using channels_never_freed [OF w(1) steps_refl, of 0] n w(1) by auto
qed

end
