(* ===== verification/Ivshmem_Calm.thy ===== *)
theory Ivshmem_Calm
  imports Ivshmem_World
begin

text \<open>
  When rebalancing does no harm.  \<open>Ivshmem_World\<close> shows that moving the buffers during a copy
  breaks the isolation of channels.  Here the timer fires as well, but only when no sender is
  inside a copy, or when the channels already have their sizes, so that nothing moves:
  isolation then holds as it does without rebalancing.
\<close>

section \<open>The restricted system\<close>

definition no_copy :: "world \<Rightarrow> bool" where
  "no_copy w \<longleftrightarrow> (\<forall>t \<in> set (w_senders w). \<forall>dst j. snd_pc t \<noteq> Send_copy dst j)"

inductive calm_step :: "world \<Rightarrow> world \<Rightarrow> bool" where
  calm_world: "world_step False w w' \<Longrightarrow> calm_step w w'"
| calm_rebalance: "no_copy w \<or> balanced (ctrl (w_shm w)) \<Longrightarrow>
    trusted_event_step ok now Rb_timer (w_shm w) = Inr sh \<Longrightarrow> calm_step w (w\<lparr>w_shm := sh\<rparr>)"

section \<open>Isolation\<close>

lemma balanced_unmoved:
  assumes wf: "wf_ctrl cs" and "balanced cs" and r: "ivshmem_trusted_rebalancing ok cs = Inr (ret, cs')"
  shows "cs' = cs \<or> cs' = cs\<lparr>control_mutex := 0\<rparr>"
proof (cases "0 < num_active_channels cs")
  case True
  then have "rebalance_size (num_active_channels cs) = buf_size (channels cs ! 0)"
    using balanced_channel(2) [OF assms(1,2), of 0] by simp
  then show ?thesis using r by (simp add: ivshmem_trusted_rebalancing_def Let_def split: if_splits)
next
  case False
  then show ?thesis using r by (simp add: ivshmem_trusted_rebalancing_def Let_def)
qed

lemma calm_rebalance_inv:
  assumes inv: "world_inv False w" and calm: "no_copy w \<or> balanced (ctrl (w_shm w))"
    and r: "trusted_event_step ok now Rb_timer (w_shm w) = Inr sh"
  shows "world_inv False (w\<lparr>w_shm := sh\<rparr>)"
proof -
  have wf: "wf_ctrl (ctrl (w_shm w))" using inv by (simp add: world_inv_def Let_def)
  show ?thesis
  proof (cases "balanced (ctrl (w_shm w))")
    case True
    obtain ret cs' where c: "ivshmem_trusted_rebalancing ok (ctrl (w_shm w)) = Inr (ret, cs')" "sh = (w_shm w)\<lparr>ctrl := cs'\<rparr>"
      using r by (auto simp: trusted_event_step_def split: sum.splits)
    have cs: "cs' = ctrl (w_shm w) \<or> cs' = (ctrl (w_shm w))\<lparr>control_mutex := 0\<rparr>" by (rule balanced_unmoved [OF wf True c(1)])
    have k: "keeps_place (ctrl (w_shm w)) cs'" using cs by (elim disjE) (simp_all add: keeps_place_def grows_def)
    have "wf_sizes (ctrl (w_shm w))" using inv by (simp add: world_inv_def Let_def)
    then have w: "wf_ctrl cs'" "wf_sizes cs'" using cs wf by (elim disjE; simp)+
    have "grows (ctrl (w_shm w)) cs'" using k by (simp add: keeps_place_def)
    from world_inv_frame [OF inv w this] k c(2) w show ?thesis by (simp add: world_inv_def Let_def)
  next
    case False
    have "world_inv True w" using inv by (simp add: world_inv_def Let_def)
    then have "world_inv True (w\<lparr>w_shm := sh\<rparr>)" by (rule world_inv_step) (rule world_trusted [OF _ r], simp)
    moreover have "\<forall>t \<in> set (w_senders w). placed cs t" for cs
      using calm False by (auto simp: no_copy_def placed_def split: send_pc.split)
    ultimately show ?thesis by (simp add: world_inv_def Let_def)
  qed
qed

lemma calm_inv_step: "world_inv False w \<Longrightarrow> calm_step w w' \<Longrightarrow> world_inv False w'"
  by (erule calm_step.cases) (auto intro: world_inv_step calm_rebalance_inv)

interpretation calm: safe_system world_init calm_step "world_inv False"
  by unfold_locales (auto intro: world_inv_init calm_inv_step)

lemma reach_calm: "reach init (world_step False) w \<Longrightarrow> reach init calm_step w"
  by (induction rule: reach.induct) (auto intro: reach_init reach_step calm_world)

section \<open>Properties\<close>



end
