(* ===== verification/Ivshmem_Ring.thy ===== *)
theory Ivshmem_Ring
  imports Ivshmem_Channels
begin

text \<open>
  One sender and one receiver on one channel, with no trusted process interfering: every
  interleaving of the steps of \<^verbatim>\<open>ivshmem_send_buffer\<close> and \<^verbatim>\<open>ivshmem_recv_buffer\<close>
  over the page ring.  The invariant counts pages: the sender has published \<open>snd_pages\<close>,
  the receiver has released \<open>rcv_pages\<close>, head and tail are these counts modulo the number
  of pages, and the slots in between hold the pages of the sender's buffer.  It makes the
  pair a \<open>live_transport\<close>.  Shared memory is sequentially consistent.

  The precondition \<open>ring_init\<close> is that the message is a whole number of pages, at least
  two and below \<^verbatim>\<open>INT_MAX\<close>: for other sizes the program's own computation of
  \<^verbatim>\<open>to_sent\<close> goes wrong (see the theory on single calls).
\<close>

section \<open>The system and its invariant\<close>

record ring_sys =
  rs_snd :: sender
  rs_rcv :: receiver
  rs_shm :: shm

inductive ring_step :: "ring_sys \<Rightarrow> ring_sys \<Rightarrow> bool" where
  ring_send: "ivshmem_send_step now (rs_snd s) (rs_shm s) = (t, sh) \<Longrightarrow>
     ring_step s (s\<lparr>rs_snd := t, rs_shm := sh\<rparr>)"
| ring_recv: "ivshmem_recv_step (rs_rcv s) (rs_shm s) = (r, sh) \<Longrightarrow>
     ring_step s (s\<lparr>rs_rcv := r, rs_shm := sh\<rparr>)"

definition slot :: "nat \<Rightarrow> nat \<Rightarrow> nat \<Rightarrow> nat" where
  "slot off n p = off + 4096 * (p mod n)"

text \<open>
  Pages published and released: a page counts as soon as head or tail has moved.  The counts
  go over all calls on the channel, so that the invariant also serves sequences of calls:
  \<open>s0\<close> and \<open>r0\<close> pages belong to calls that have returned, \<open>K\<close> to each message, and
  \<open>B\<close> is the stream of all bytes sent.
\<close>

definition snd_pages :: "nat \<Rightarrow> sender \<Rightarrow> nat" where
  "snd_pages s0 t = s0 + unat (snd_sent t) div 4096 + (if snd_pc t = Send_account then 1 else 0)"

definition rcv_pages :: "nat \<Rightarrow> receiver \<Rightarrow> nat" where
  "rcv_pages r0 r = r0 + nat (rcv_received r) div 4096 + (if rcv_pc r = Recv_account then 1 else 0)"

definition rcv_progress :: "receiver \<Rightarrow> nat" where
  "rcv_progress r = nat (rcv_received r) +
     (case rcv_pc r of Recv_copy _ j \<Rightarrow> j | Recv_tail \<Rightarrow> 4096 | Recv_account \<Rightarrow> 4096 | _ \<Rightarrow> 0)"

definition send_at :: "nat \<Rightarrow> nat \<Rightarrow> nat \<Rightarrow> nat \<Rightarrow> nat \<Rightarrow> (nat \<Rightarrow> byte) \<Rightarrow> nat \<Rightarrow> (nat \<Rightarrow> byte) \<Rightarrow> send_pc \<Rightarrow> bool" where
  "send_at off n h0 E pr d a B pc \<longleftrightarrow>
     (case pc of
        Send_find \<Rightarrow> True
      | Send_mutex \<Rightarrow> True
      | Send_size \<Rightarrow> True
      | Send_stamp \<Rightarrow> True
      | Send_full1 \<Rightarrow> a < E
      | Send_full2 \<Rightarrow> a < E \<and> (Suc ((h0 + a) mod n) = n \<or> Suc a < pr + n)
      | Send_addr \<Rightarrow> a < E \<and> Suc a < pr + n
      | Send_copy dst j \<Rightarrow> a < E \<and> Suc a < pr + n \<and> dst = slot off n (h0 + a) \<and> j \<le> 4096 \<and>
          (\<forall>i < j. d (dst + i) = B (4096 * a + i))
      | Send_head \<Rightarrow> a < E \<and> Suc a < pr + n \<and>
          (\<forall>i < 4096. d (slot off n (h0 + a) + i) = B (4096 * a + i))
      | Send_account \<Rightarrow> a < E
      | Send_ret v \<Rightarrow> v = 0 \<and> a = E
      | _ \<Rightarrow> False)"

definition recv_at :: "nat \<Rightarrow> nat \<Rightarrow> nat \<Rightarrow> nat \<Rightarrow> nat \<Rightarrow> nat \<Rightarrow> recv_pc \<Rightarrow> bool" where
  "recv_at off n h0 E ps b pc \<longleftrightarrow>
     (case pc of
        Recv_find \<Rightarrow> True
      | Recv_mutex \<Rightarrow> True
      | Recv_size \<Rightarrow> True
      | Recv_empty \<Rightarrow> b < E
      | Recv_addr \<Rightarrow> b < E \<and> b < ps
      | Recv_copy src j \<Rightarrow> b < E \<and> b < ps \<and> src = slot off n (h0 + b) \<and> j \<le> 4096
      | Recv_tail \<Rightarrow> b < E \<and> b < ps
      | Recv_account \<Rightarrow> b < E \<and> b < ps
      | Recv_ret v \<Rightarrow> v = 0 \<and> b = E
      | _ \<Rightarrow> False)"

definition send_inv :: "nat \<Rightarrow> nat \<Rightarrow> nat \<Rightarrow> nat \<Rightarrow> nat \<Rightarrow> nat \<Rightarrow> nat \<Rightarrow> (nat \<Rightarrow> byte) \<Rightarrow> (nat \<Rightarrow> byte) \<Rightarrow> sender \<Rightarrow> bool" where
  "send_inv c off n h0 s0 K pr B d t \<longleftrightarrow>
     (if snd_pc t = Send_find then snd_sent t = 0 else snd_chan t = c) \<and>
     unat (snd_size t) = 4096 * K \<and> 2 \<le> K \<and> 4096 * K < 2 ^ 31 \<and> 4096 * K \<le> length (snd_buf t) \<and>
     (\<forall>i < 4096 * K. snd_buf t ! i = B (4096 * s0 + i)) \<and>
     (\<exists>a. s0 \<le> a \<and> unat (snd_sent t) = 4096 * (a - s0) \<and> a \<le> s0 + K \<and>
       send_at off n h0 (s0 + K) pr d a B (snd_pc t))"

definition recv_inv :: "nat \<Rightarrow> nat \<Rightarrow> nat \<Rightarrow> nat \<Rightarrow> nat \<Rightarrow> nat \<Rightarrow> nat \<Rightarrow> (nat \<Rightarrow> byte) \<Rightarrow> receiver \<Rightarrow> bool" where
  "recv_inv c off n h0 r0 K ps B r \<longleftrightarrow>
     (if rcv_pc r = Recv_find then rcv_received r = 0 else rcv_chan r = c) \<and>
     unat (rcv_size r) = 4096 * K \<and> 4096 * K < 2 ^ 31 \<and> 4096 * K \<le> length (rcv_buf r) \<and>
     (\<exists>b. r0 \<le> b \<and> rcv_received r = 4096 * int (b - r0) \<and> b \<le> r0 + K \<and> recv_at off n h0 (r0 + K) ps b (rcv_pc r)) \<and>
     (\<forall>i < rcv_progress r. rcv_buf r ! i = B (4096 * r0 + i))"

definition ring_view :: "nat \<Rightarrow> nat \<Rightarrow> nat \<Rightarrow> nat \<Rightarrow> nat \<Rightarrow> (nat \<Rightarrow> byte) \<Rightarrow> ivshmem_channel \<Rightarrow> (nat \<Rightarrow> byte) \<Rightarrow> bool" where
  "ring_view off n h0 ps pr B ch d \<longleftrightarrow>
     unat (buf_offset ch) = off \<and> nat (num_page ch) = n \<and>
     unat (head ch) = (h0 + ps) mod n \<and> unat (tail ch) = (h0 + pr) mod n \<and>
     pr \<le> ps \<and> ps < pr + n \<and>
     (\<forall>q i. pr \<le> q \<and> q < ps \<and> i < 4096 \<longrightarrow> d (slot off n (h0 + q) + i) = B (4096 * q + i))"

definition shm_static :: "nat \<Rightarrow> channel_key \<Rightarrow> channel_key \<Rightarrow> shm \<Rightarrow> bool" where
  "shm_static c ks kr sh \<longleftrightarrow>
     wf_ctrl (ctrl sh) \<and> c < nat (num_active_channels (ctrl sh)) \<and> control_mutex (ctrl sh) = 0 \<and>
     ivshmem_find_channel (ctrl sh) ks = Inr (Some c) \<and> ivshmem_find_channel (ctrl sh) kr = Inr (Some c)"

definition ring_inv_at :: "nat \<Rightarrow> nat \<Rightarrow> nat \<Rightarrow> nat \<Rightarrow> nat \<Rightarrow> nat \<Rightarrow> nat \<Rightarrow> (nat \<Rightarrow> byte) \<Rightarrow> ring_sys \<Rightarrow> bool" where
  "ring_inv_at c off n h0 s0 r0 K B s \<longleftrightarrow>
     (let t = rs_snd s; r = rs_rcv s; sh = rs_shm s in
      shm_static c (snd_key t) (rcv_key r) sh \<and>
      send_inv c off n h0 s0 K (rcv_pages r0 r) B (shm_data sh) t \<and>
      recv_inv c off n h0 r0 K (snd_pages s0 t) B r \<and>
      ring_view off n h0 (snd_pages s0 t) (rcv_pages r0 r) B (chan_at sh c) (shm_data sh))"

definition ring_inv :: "ring_sys \<Rightarrow> bool" where
  "ring_inv s \<longleftrightarrow> (\<exists>c off n h0 K. ring_inv_at c off n h0 0 0 K (nth (snd_buf (rs_snd s))) s)"

definition send_post where
  "send_post c off n h0 s0 K pr kr B t t' sh' \<longleftrightarrow>
     shm_static c (snd_key t') kr sh' \<and> send_inv c off n h0 s0 K pr B (shm_data sh') t' \<and>
     ring_view off n h0 (snd_pages s0 t') pr B (chan_at sh' c) (shm_data sh') \<and>
     snd_key t' = snd_key t \<and> snd_buf t' = snd_buf t \<and> snd_size t' = snd_size t \<and>
     snd_pages s0 t \<le> snd_pages s0 t' \<and> snd_pages s0 t' \<le> s0 + K"

definition recv_post where
  "recv_post c off n h0 r0 K ps ks B r r' sh' d \<longleftrightarrow>
     shm_static c ks (rcv_key r') sh' \<and> recv_inv c off n h0 r0 K ps B r' \<and>
     ring_view off n h0 ps (rcv_pages r0 r') B (chan_at sh' c) (shm_data sh') \<and>
     rcv_key r' = rcv_key r \<and> rcv_size r' = rcv_size r \<and> length (rcv_buf r') = length (rcv_buf r) \<and>
     rcv_pages r0 r \<le> rcv_pages r0 r' \<and> shm_data sh' = d"

text \<open>
  Initial states: both calls start, for the same whole number of pages, on an existing
  channel whose ring is empty.
\<close>

definition ring_init :: "ring_sys \<Rightarrow> bool" where
  "ring_init s \<longleftrightarrow>
     (let t = rs_snd s; r = rs_rcv s; sh = rs_shm s in
      t = send_call (snd_key t) (snd_buf t) (snd_size t) \<and>
      r = recv_call (rcv_key r) (rcv_buf r) (rcv_size r) \<and>
      rcv_size r = snd_size t \<and> 4096 dvd unat (snd_size t) \<and> 8192 \<le> unat (snd_size t) \<and>
      unat (snd_size t) < 2 ^ 31 \<and>
      unat (snd_size t) \<le> length (snd_buf t) \<and> unat (rcv_size r) \<le> length (rcv_buf r) \<and>
      wf_ctrl (ctrl sh) \<and> control_mutex (ctrl sh) = 0 \<and>
      ivshmem_find_channel (ctrl sh) (rcv_key r) = ivshmem_find_channel (ctrl sh) (snd_key t) \<and>
      (case ivshmem_find_channel (ctrl sh) (snd_key t) of
         Inr (Some c) \<Rightarrow> head (chan_at sh c) = tail (chan_at sh c)
       | _ \<Rightarrow> False))"

definition ring_stream :: "ring_sys \<Rightarrow> byte list" where
  "ring_stream s = take (unat (snd_size (rs_snd s))) (snd_buf (rs_snd s))"

definition ring_delivered :: "ring_sys \<Rightarrow> byte list" where
  "ring_delivered s = take (rcv_progress (rs_rcv s)) (rcv_buf (rs_rcv s))"

definition ring_received :: "ring_sys \<Rightarrow> bool" where
  "ring_received s \<longleftrightarrow> rcv_pc (rs_rcv s) = Recv_ret 0"

definition ring_done :: "ring_sys \<Rightarrow> bool" where
  "ring_done s \<longleftrightarrow> snd_pc (rs_snd s) = Send_ret 0 \<and> rcv_pc (rs_rcv s) = Recv_ret 0"

fun send_rank :: "send_pc \<Rightarrow> nat" where
  "send_rank Send_find = 4200"
| "send_rank Send_stamp = 4120"
| "send_rank Send_mutex = 4110"
| "send_rank Send_size = 4109"
| "send_rank Send_full1 = 4108"
| "send_rank Send_full2 = 4107"
| "send_rank Send_addr = 4106"
| "send_rank (Send_copy _ j) = 4105 - j"
| "send_rank Send_head = 8"
| "send_rank Send_account = 7"
| "send_rank _ = 0"

fun recv_rank :: "recv_pc \<Rightarrow> nat" where
  "recv_rank Recv_find = 4200"
| "recv_rank Recv_mutex = 4110"
| "recv_rank Recv_size = 4109"
| "recv_rank Recv_empty = 4108"
| "recv_rank Recv_addr = 4106"
| "recv_rank (Recv_copy _ j) = 4105 - j"
| "recv_rank Recv_tail = 8"
| "recv_rank Recv_account = 7"
| "recv_rank _ = 0"

definition send_work :: "sender \<Rightarrow> nat" where
  "send_work t = (unat (snd_size t) div 4096 - unat (snd_sent t) div 4096) * 5000 + send_rank (snd_pc t)"

definition recv_work :: "receiver \<Rightarrow> nat" where
  "recv_work r = (unat (rcv_size r) div 4096 - nat (rcv_received r) div 4096) * 5000 + recv_rank (rcv_pc r)"

definition ring_work :: "ring_sys \<Rightarrow> nat" where
  "ring_work s = send_work (rs_snd s) + recv_work (rs_rcv s)"

text \<open>A concrete transfer of two pages on the second channel of \<open>demo_shm\<close>.\<close>

definition ring_demo :: ring_sys where
  "ring_demo =
     \<lparr>rs_snd = send_call \<lparr>sender_vm = 1, sender_pid = 2, receiver_vm = 2\<rparr> (replicate 8192 7) 8192,
      rs_rcv = recv_call \<lparr>sender_vm = 1, sender_pid = 2, receiver_vm = 2\<rparr> (replicate 8192 0) 8192,
      rs_shm = demo_shm\<rparr>"

section \<open>Arithmetic of the ring\<close>

lemma nat_pages [simp]:
  "r0 \<le> b \<Longrightarrow> nat (4096 * int b - 4096 * int r0) = 4096 * (b - r0)"
  "r0 \<le> b \<Longrightarrow> nat (4096 + 4096 * int b - 4096 * int r0) = 4096 * (Suc b - r0)"
  by linarith+

lemma send_chunk_page: "unat sz = 4096 * K \<Longrightarrow> 2 \<le> K \<Longrightarrow> send_chunk sz = 4096"
proof -
  assume a: "unat sz = 4096 * K" "2 \<le> K"
  have p: "size_of_int IVSHMEM_PAGE_SIZE = 4096" by (simp add: size_of_int_def ivshmem_consts)
  have "unat (sz - 4096) = 4096 * K - 4096"
    using a by (subst unat_sub_no_wrap) auto
  then have "(4096::size_t) \<le> sz - 4096" using a by (simp add: word_le_nat_alt)
  then show ?thesis by (simp add: send_chunk_def p min_def)
qed

lemma recv_chunk_page:
  assumes "unat sz = 4096 * K" and "b < K" and "4096 * K < 2 ^ 31"
  shows "recv_chunk sz (4096 * int b) = 4096"
proof -
  have p: "size_of_int IVSHMEM_PAGE_SIZE = 4096" by (simp add: size_of_int_def ivshmem_consts)
  have u: "unat (size_of_int (4096 * int b)) = 4096 * b"
    using assms by (subst unat_size_of_int) auto
  have "unat (sz - size_of_int (4096 * int b)) = 4096 * K - 4096 * b"
    using assms u by (subst unat_sub_no_wrap) auto
  then have "(4096::size_t) \<le> sz - size_of_int (4096 * int b)"
    using assms by (simp add: word_le_nat_alt)
  then show ?thesis by (simp add: recv_chunk_def p min_def)
qed

lemma mod_neq_window:
  fixes p q n :: nat
  assumes "q < p" and "p < q + n"
  shows "p mod n \<noteq> q mod n"
proof
  assume "p mod n = q mod n"
  then have "n dvd p - q" using assms by (metis mod_eq_dvd_iff_nat less_imp_le_nat)
  then show False using assms by (auto dest: dvd_imp_le)
qed

lemma slot_disjoint:
  assumes "q < p" and "p < q + n" and "i < 4096" and "j < 4096"
  shows "slot off n p + i \<noteq> slot off n q + j"
proof
  assume "slot off n p + i = slot off n q + j"
  then have "4096 * (p mod n) + i = 4096 * (q mod n) + j" by (simp add: slot_def)
  moreover have "4096 * x + i = 4096 * y + j \<Longrightarrow> x = y" for x y :: nat
    using assms(3,4) by arith
  ultimately have "p mod n = q mod n" by blast
  then show False using mod_neq_window assms(1,2) by blast
qed

lemma slot_bound:
  assumes "0 < n" and "off + 4096 * n \<le> m"
  shows "slot off n p + 4096 \<le> m"
proof -
  have "Suc (p mod n) \<le> n" using assms(1) by (simp add: Suc_leI)
  then have "4096 * Suc (p mod n) \<le> 4096 * n" by (rule mult_le_mono2)
  then show ?thesis using assms(2) by (simp add: slot_def)
qed

lemma send_at_mono: "send_at off n h0 E pr d a B pc \<Longrightarrow> pr \<le> pr' \<Longrightarrow> send_at off n h0 E pr' d a B pc"
  by (auto simp: send_at_def split: send_pc.splits)

lemma recv_at_mono: "recv_at off n h0 E ps b pc \<Longrightarrow> ps \<le> ps' \<Longrightarrow> recv_at off n h0 E ps' b pc"
  by (auto simp: recv_at_def split: recv_pc.splits)

lemma send_step_eqs:
  "snd_pc t = Send_mutex \<Longrightarrow> ivshmem_send_step now t sh =
     (if control_mutex (ctrl sh) \<noteq> 0 then (t, sh) else (t\<lparr>snd_pc := Send_size\<rparr>, sh))"
  "snd_pc t = Send_size \<Longrightarrow> ivshmem_send_step now t sh =
     (t\<lparr>snd_pc := if snd_size t \<le> snd_sent t then Send_ret 0 else Send_full1\<rparr>, sh)"
  "snd_pc t = Send_full1 \<Longrightarrow> ivshmem_send_step now t sh =
     (t\<lparr>snd_pc := if head (chan_at sh (snd_chan t)) = tail (chan_at sh (snd_chan t)) - 1
                  then Send_mutex else Send_full2\<rparr>, sh)"
  "snd_pc t = Send_full2 \<Longrightarrow> ivshmem_send_step now t sh =
     (t\<lparr>snd_pc := if head (chan_at sh (snd_chan t)) = u32_of_int (num_page (chan_at sh (snd_chan t)) - 1)
                    \<and> tail (chan_at sh (snd_chan t)) = 0
                  then Send_mutex else Send_addr\<rparr>, sh)"
  "snd_pc t = Send_addr \<Longrightarrow> ivshmem_send_step now t sh =
     (t\<lparr>snd_pc := Send_copy (page_addr (chan_at sh (snd_chan t)) (head (chan_at sh (snd_chan t)))) 0\<rparr>, sh)"
  "snd_pc t = Send_copy dst j \<Longrightarrow> ivshmem_send_step now t sh = send_copy_step t dst j sh"
  "snd_pc t = Send_ret v \<Longrightarrow> ivshmem_send_step now t sh = (t, sh)"
  "snd_pc t = Send_fault e \<Longrightarrow> ivshmem_send_step now t sh = (t, sh)"
  by (simp_all add: ivshmem_send_step_def in_request_def send_loop_step_def Let_def)

lemma recv_step_eqs:
  "rcv_pc r = Recv_mutex \<Longrightarrow> ivshmem_recv_step r sh =
     (if control_mutex (ctrl sh) \<noteq> 0 then (r, sh) else (r\<lparr>rcv_pc := Recv_size\<rparr>, sh))"
  "rcv_pc r = Recv_size \<Longrightarrow> ivshmem_recv_step r sh =
     (r\<lparr>rcv_pc := if rcv_size r \<le> size_of_int (rcv_received r) then Recv_ret 0 else Recv_empty\<rparr>, sh)"
  "rcv_pc r = Recv_empty \<Longrightarrow> ivshmem_recv_step r sh =
     (r\<lparr>rcv_pc := if head (chan_at sh (rcv_chan r)) = tail (chan_at sh (rcv_chan r))
                  then Recv_mutex else Recv_addr\<rparr>, sh)"
  "rcv_pc r = Recv_addr \<Longrightarrow> ivshmem_recv_step r sh =
     (r\<lparr>rcv_pc := Recv_copy (page_addr (chan_at sh (rcv_chan r)) (tail (chan_at sh (rcv_chan r)))) 0\<rparr>, sh)"
  "rcv_pc r = Recv_copy src j \<Longrightarrow> ivshmem_recv_step r sh = recv_copy_step r src j sh"
  "rcv_pc r = Recv_ret v \<Longrightarrow> ivshmem_recv_step r sh = (r, sh)"
  "rcv_pc r = Recv_fault e \<Longrightarrow> ivshmem_recv_step r sh = (r, sh)"
  by (simp_all add: ivshmem_recv_step_def recv_loop_step_def Let_def)

lemma shm_static_chan:
  assumes "shm_static c ks kr sh"
  shows "wf_channel (chan_at sh c)" and "c < length (channels (ctrl sh))"
    and "unat (buf_offset (chan_at sh c)) + nat (num_page (chan_at sh c)) * 4096 \<le> 4192224"
  using assms wf_ctrl_chan by (auto simp: shm_static_def)

lemma shm_static_upd:
  assumes "shm_static c ks kr sh" and "keeps_layout f" and "wf_channel (f (chan_at sh c))"
  shows "shm_static c ks kr (upd_channel c f sh)"
  using assms by (simp add: shm_static_def wf_ctrl_upd)

lemma shm_static_data [simp]: "shm_static c ks kr (sh\<lparr>shm_data := d\<rparr>) = shm_static c ks kr sh"
  by (simp add: shm_static_def)

lemma send_local:
  assumes "shm_static c (snd_key t) kr sh" and si: "send_inv c off n h0 s0 K pr B (shm_data sh) t"
    and "ring_view off n h0 (snd_pages s0 t) pr B (chan_at sh c) (shm_data sh)"
    and a: "unat (snd_sent t) = 4096 * (a - s0) \<and> s0 \<le> a" and "snd_pc t \<noteq> Send_account" and "pc \<noteq> Send_account"
    and "pc \<noteq> Send_find" "snd_pc t \<noteq> Send_find"
    and "send_at off n h0 (s0 + K) pr (shm_data sh) a B pc"
  shows "send_post c off n h0 s0 K pr kr B t (t\<lparr>snd_pc := pc\<rparr>) sh"
proof -
  have "a \<le> s0 + K" using si a by (auto simp: send_inv_def)
  then show ?thesis
    using assms by (auto simp: send_post_def send_inv_def snd_pages_def)
qed

lemma send_stay:
  assumes "shm_static c (snd_key t) kr sh" and "send_inv c off n h0 s0 K pr B (shm_data sh) t"
    and "ring_view off n h0 (snd_pages s0 t) pr B (chan_at sh c) (shm_data sh)"
  shows "send_post c off n h0 s0 K pr kr B t t sh"
  using assms by (auto simp: send_post_def send_inv_def send_at_def snd_pages_def split: if_splits)

lemma ring_view_frame:
  assumes "ring_view off n h0 ps pr B ch d"
  shows "ring_view off n h0 ps pr B (ch\<lparr>data_size := x\<rparr>) d"
    and "ring_view off n h0 ps pr B (ch\<lparr>last_sent_at := y\<rparr>) d"
  using assms by (simp_all add: ring_view_def)

lemma send_find_post:
  assumes "shm_static c (snd_key t) kr sh" and "send_inv c off n h0 s0 K pr B (shm_data sh) t"
    and "ring_view off n h0 (snd_pages s0 t) pr B (chan_at sh c) (shm_data sh)"
    and "snd_pc t = Send_find" and "ivshmem_send_step now t sh = (t', sh')"
  shows "send_post c off n h0 s0 K pr kr B t t' sh'"
  using assms
  by (auto simp: ivshmem_send_step_def in_request_def request_channel_step_def shm_static_def
      send_post_def send_inv_def send_at_def snd_pages_def unat_eq_0)

lemma send_copy_post:
  assumes st: "shm_static c (snd_key t) kr sh" and si: "send_inv c off n h0 s0 K pr B (shm_data sh) t"
    and rv: "ring_view off n h0 (snd_pages s0 t) pr B (chan_at sh c) (shm_data sh)"
    and pc: "snd_pc t = Send_copy dst j" and step: "ivshmem_send_step now t sh = (t', sh')"
  shows "send_post c off n h0 s0 K pr kr B t t' sh'"
proof -
  obtain a where a: "unat (snd_sent t) = 4096 * (a - s0) \<and> s0 \<le> a" "a < s0 + K" "Suc a < pr + n"
    "dst = slot off n (h0 + a)" "j \<le> 4096" "\<forall>i < j. shm_data sh (dst + i) = B (4096 * a + i)"
    and len: "4096 * K \<le> length (snd_buf t)" and K: "unat (snd_size t) = 4096 * K" "2 \<le> K"
    and buf: "\<forall>i < 4096 * K. snd_buf t ! i = B (4096 * s0 + i)"
    using si pc by (auto simp: send_inv_def send_at_def)
  have chunk: "unat (send_chunk (snd_size t)) = 4096" using send_chunk_page [OF K] by simp
  have pg: "snd_pages s0 t = a" using a(1) pc by (simp add: snd_pages_def)
  note ch = shm_static_chan [OF st]
  have n0: "0 < n" and off: "off + 4096 * n \<le> 4192224"
    using rv ch by (auto simp: ring_view_def wf_channel_def)
  have sl: "slot off n (h0 + a) + 4096 \<le> 4192224" by (rule slot_bound [OF n0 off])
  show ?thesis
  proof (cases "j = 4096")
    case True
    have "(t', sh') = (t\<lparr>snd_pc := Send_head\<rparr>, sh)"
      using step pc chunk True
      by (simp add: ivshmem_send_step_def in_request_def send_loop_step_def send_copy_step_def)
    moreover have "send_post c off n h0 s0 K pr kr B t (t\<lparr>snd_pc := Send_head\<rparr>) sh"
      using a True pc by (intro send_local [OF st si rv a(1)]) (auto simp: send_at_def)
    ultimately show ?thesis by simp
  next
    case False
    let ?d = "(shm_data sh)(dst + j := B (4096 * a + j))"
    have j: "j < 4096" using False a(5) by simp
    have "4096 * (a - s0) + j < 4096 * K" using a(1,2) j by linarith
    then have m: "snd_buf t ! (4096 * (a - s0) + j) = B (4096 * a + j)" "4096 * (a - s0) + j < length (snd_buf t)"
      using buf len a(1) by (auto simp: diff_mult_distrib2)
    have eq: "t' = t\<lparr>snd_pc := Send_copy dst (Suc j)\<rparr>" "sh' = sh\<lparr>shm_data := ?d\<rparr>"
      using step pc chunk j a(1,2,4) sl m
      by (auto simp: ivshmem_send_step_def in_request_def send_loop_step_def send_copy_step_def)
    have "slot off n (h0 + q) + i \<noteq> dst + j" if "pr \<le> q" "q < a" "i < 4096" for q i
      using slot_disjoint [of "h0 + q" "h0 + a" n j i off] that j a(3,4) by simp
    then have "ring_view off n h0 a pr B (chan_at sh c) ?d"
      using rv unfolding ring_view_def pg by simp
    moreover have "\<forall>i < Suc j. ?d (dst + i) = B (4096 * a + i)"
      using a(6) by (auto simp: less_Suc_eq)
    ultimately show ?thesis
      using st si pc a j pg unfolding eq
      by (auto simp: send_post_def send_inv_def send_at_def snd_pages_def)
  qed
qed

lemma mod_Suc_window:
  fixes h n :: nat
  shows "Suc (h mod n) mod n = Suc h mod n"
  by (simp add: mod_Suc_eq)

lemma ring_not_full:
  assumes wf: "wf_channel ch" and rv: "ring_view off n h0 ps pr B ch d"
  shows "Suc (unat (head ch)) mod n \<noteq> unat (tail ch) \<longleftrightarrow> Suc ps < pr + n"
proof -
  have eq: "Suc (unat (head ch)) mod n = (h0 + Suc ps) mod n" "unat (tail ch) = (h0 + pr) mod n"
    and b: "pr \<le> ps" "ps < pr + n"
    using rv by (auto simp: ring_view_def mod_Suc_eq)
  show ?thesis
  proof (cases "Suc ps < pr + n")
    case True
    then show ?thesis unfolding eq using b mod_neq_window [of "h0 + pr" "h0 + Suc ps" n] by simp
  next
    case False
    then have "h0 + Suc ps = (h0 + pr) + n" using b by simp
    then have "(h0 + Suc ps) mod n = (h0 + pr) mod n" by (simp only: mod_add_self2)
    then show ?thesis unfolding eq using False by simp
  qed
qed

lemma send_full_post:
  assumes st: "shm_static c (snd_key t) kr sh" and si: "send_inv c off n h0 s0 K pr B (shm_data sh) t"
    and rv: "ring_view off n h0 (snd_pages s0 t) pr B (chan_at sh c) (shm_data sh)"
    and pc: "snd_pc t \<in> {Send_full1, Send_full2}" and step: "ivshmem_send_step now t sh = (t', sh')"
  shows "send_post c off n h0 s0 K pr kr B t t' sh'"
proof -
  let ?ch = "chan_at sh c"
  note wf = shm_static_chan(1) [OF st]
  have c: "snd_chan t = c" using si pc by (auto simp: send_inv_def)
  obtain a where a: "unat (snd_sent t) = 4096 * (a - s0) \<and> s0 \<le> a" "a < s0 + K"
    and p: "snd_pc t = Send_full2 \<longrightarrow> Suc ((h0 + a) mod n) = n \<or> Suc a < pr + n"
    using si pc by (auto simp: send_inv_def send_at_def)
  have ps: "snd_pages s0 t = a" using pc a by (auto simp: snd_pages_def)
  have v: "unat (head ?ch) = (h0 + a) mod n" "nat (num_page ?ch) = n"
    using rv ps by (auto simp: ring_view_def)
  have h: "unat (head ?ch) < 1023" using wf by (auto simp: wf_channel_def)
  note full = ring_full_iff [OF wf] ring_not_full [OF wf rv]
  note loc = send_local [OF st si rv a(1)]
  show ?thesis
  proof (cases "snd_pc t = Send_full1")
    case True
    have "head ?ch \<noteq> tail ?ch - 1 \<Longrightarrow> Suc ((h0 + a) mod n) = n \<or> Suc a < pr + n"
      using full v ps full_test2 [OF wf] by auto
    then show ?thesis
      using step True c a loc by (auto simp: send_step_eqs send_at_def)
  next
    case False
    then have pc2: "snd_pc t = Send_full2" using pc by simp
    have "\<not> (head ?ch = u32_of_int (num_page ?ch - 1) \<and> tail ?ch = 0) \<Longrightarrow> Suc a < pr + n"
      using p pc2 full v ps full_test1 [OF h] full_test2 [OF wf] by auto
    then show ?thesis
      using step pc2 c a loc by (auto simp: send_step_eqs send_at_def)
  qed
qed

lemma send_local_post:
  assumes st: "shm_static c (snd_key t) kr sh" and si: "send_inv c off n h0 s0 K pr B (shm_data sh) t"
    and rv: "ring_view off n h0 (snd_pages s0 t) pr B (chan_at sh c) (shm_data sh)"
    and pc: "snd_pc t = Send_mutex \<or> snd_pc t = Send_size \<or> snd_pc t = Send_addr \<or> snd_pc t = Send_ret v"
    and step: "ivshmem_send_step now t sh = (t', sh')"
  shows "send_post c off n h0 s0 K pr kr B t t' sh'"
proof -
  let ?ch = "chan_at sh c"
  have c: "snd_chan t = c" using si pc by (auto simp: send_inv_def)
  obtain a where a: "unat (snd_sent t) = 4096 * (a - s0) \<and> s0 \<le> a" "a \<le> s0 + K"
    "send_at off n h0 (s0 + K) pr (shm_data sh) a B (snd_pc t)" and K: "unat (snd_size t) = 4096 * K"
    using si by (auto simp: send_inv_def)
  have ps: "snd_pages s0 t = a" using pc a by (auto simp: snd_pages_def)
  have "page_addr ?ch (head ?ch) = slot off n (h0 + a)"
    using rv ps page_addr_eq [OF shm_static_chan(1,3) [OF st], of "head ?ch"] shm_static_chan(1) [OF st]
    by (auto simp: ring_view_def slot_def wf_channel_def)
  moreover have "snd_size t \<le> snd_sent t \<longleftrightarrow> a = s0 + K"
    using a K by (auto simp: word_le_nat_alt)
  ultimately show ?thesis
    using step pc c a st send_local [OF st si rv a(1)] send_stay [OF st si rv]
    by (auto simp: send_step_eqs send_at_def shm_static_def)
qed

lemma send_head_post:
  assumes st: "shm_static c (snd_key t) kr sh" and si: "send_inv c off n h0 s0 K pr B (shm_data sh) t"
    and rv: "ring_view off n h0 (snd_pages s0 t) pr B (chan_at sh c) (shm_data sh)"
    and pc: "snd_pc t = Send_head" and step: "ivshmem_send_step now t sh = (t', sh')"
  shows "send_post c off n h0 s0 K pr kr B t t' sh'"
proof -
  let ?ch = "chan_at sh c"
  note wf = shm_static_chan(1) [OF st] and len = shm_static_chan(2) [OF st]
  have c: "snd_chan t = c" using si pc by (auto simp: send_inv_def)
  obtain a where a: "unat (snd_sent t) = 4096 * (a - s0) \<and> s0 \<le> a" "a < s0 + K" "Suc a < pr + n"
    "\<forall>i < 4096. shm_data sh (slot off n (h0 + a) + i) = B (4096 * a + i)"
    using si pc by (auto simp: send_inv_def send_at_def)
  have ps: "snd_pages s0 t = a" using pc a by (auto simp: snd_pages_def)
  have hn: "unat (head ?ch) < nat (num_page ?ch)" using wf by (simp add: wf_channel_def)
  obtain x where x: "next_index ?ch (head ?ch) = Inr x"
    "unat x = Suc (unat (head ?ch)) mod nat (num_page ?ch)"
    using next_index_eq [OF wf hn] by blast
  have eq: "t' = t\<lparr>snd_pc := Send_account\<rparr>" "sh' = upd_channel c (\<lambda>y. y\<lparr>head := x\<rparr>) sh"
    using step pc c x by (auto simp: ivshmem_send_step_def in_request_def send_loop_step_def Let_def)
  have wf': "wf_channel (?ch\<lparr>head := x\<rparr>)" using wf x by (auto simp: wf_channel_def)
  have "ring_view off n h0 (Suc a) pr B (?ch\<lparr>head := x\<rparr>) (shm_data sh)"
    using rv a x(2) unfolding ring_view_def ps by (auto simp: mod_Suc_eq less_Suc_eq)
  then show ?thesis
    using st si pc a len shm_static_upd [OF st, of "\<lambda>y. y\<lparr>head := x\<rparr>"] wf' unfolding eq
    by (auto simp: send_post_def send_inv_def send_at_def snd_pages_def upd_channel_at)
qed

lemma send_account_post:
  assumes st: "shm_static c (snd_key t) kr sh" and si: "send_inv c off n h0 s0 K pr B (shm_data sh) t"
    and rv: "ring_view off n h0 (snd_pages s0 t) pr B (chan_at sh c) (shm_data sh)"
    and pc: "snd_pc t \<in> {Send_account, Send_stamp}" and step: "ivshmem_send_step now t sh = (t', sh')"
  shows "send_post c off n h0 s0 K pr kr B t t' sh'"
proof -
  let ?ch = "chan_at sh c"
  note wf = shm_static_chan(1) [OF st] and len = shm_static_chan(2) [OF st]
  have c: "snd_chan t = c" using si pc by (auto simp: send_inv_def)
  obtain a where a: "unat (snd_sent t) = 4096 * (a - s0) \<and> s0 \<le> a" "a \<le> s0 + K" "snd_pc t = Send_account \<longrightarrow> a < s0 + K"
    and K: "unat (snd_size t) = 4096 * K" "2 \<le> K" "4096 * K < 2 ^ 31"
    using si pc by (auto simp: send_inv_def send_at_def)
  have wf': "wf_channel (?ch\<lparr>data_size := x\<rparr>)" "wf_channel (?ch\<lparr>last_sent_at := y\<rparr>)" for x y
    using wf by (auto simp: wf_channel_def)
  show ?thesis
  proof (cases "snd_pc t = Send_account")
    case True
    have eq: "t' = t\<lparr>snd_pc := Send_stamp, snd_sent := snd_sent t + 4096\<rparr>"
      "sh' = upd_channel c (\<lambda>x. x\<lparr>data_size := data_size x + 4096\<rparr>) sh"
      using step True c send_chunk_page [OF K(1,2)]
      by (auto simp: ivshmem_send_step_def in_request_def send_loop_step_def Let_def)
    have u: "unat (snd_sent t + 4096) = 4096 * (Suc a - s0)"
      using a True K by (subst unat_add_no_wrap) auto
    then show ?thesis
      using st si rv a True len wf' shm_static_upd [OF st, of "\<lambda>x. x\<lparr>data_size := data_size x + 4096\<rparr>"]
        ring_view_frame(1) unfolding eq
      by (auto simp: send_post_def send_inv_def send_at_def snd_pages_def upd_channel_at
          intro!: exI [of _ "Suc a"])
  next
    case False
    then have eq: "snd_pc t = Send_stamp" "t' = t\<lparr>snd_pc := Send_mutex\<rparr>"
      "sh' = upd_channel c (\<lambda>x. x\<lparr>last_sent_at := now\<rparr>) sh"
      using step pc c by (auto simp: ivshmem_send_step_def in_request_def send_loop_step_def Let_def)
    then show ?thesis
      using st si rv a len wf' shm_static_upd [OF st, of "\<lambda>x. x\<lparr>last_sent_at := now\<rparr>"]
        ring_view_frame(2) unfolding eq(2,3)
      by (auto simp: send_post_def send_inv_def send_at_def snd_pages_def upd_channel_at)
  qed
qed

lemma send_step_post:
  assumes "shm_static c (snd_key t) kr sh" and si: "send_inv c off n h0 s0 K pr B (shm_data sh) t"
    and "ring_view off n h0 (snd_pages s0 t) pr B (chan_at sh c) (shm_data sh)"
    and "ivshmem_send_step now t sh = (t', sh')"
  shows "send_post c off n h0 s0 K pr kr B t t' sh'"
proof (cases "snd_pc t")
  case Send_find
  then show ?thesis using send_find_post assms by blast
next
  case (Send_copy dst j)
  then show ?thesis using send_copy_post assms by blast
next
  case Send_head
  then show ?thesis using send_head_post assms by blast
qed (use assms send_local_post send_full_post send_account_post in
      \<open>force simp: send_inv_def send_at_def\<close>)+

lemma recv_local:
  assumes "shm_static c ks (rcv_key r) sh" and ri: "recv_inv c off n h0 r0 K ps B r"
    and "ring_view off n h0 ps (rcv_pages r0 r) B (chan_at sh c) (shm_data sh)"
    and b: "rcv_received r = 4096 * int (b - r0) \<and> r0 \<le> b" and "rcv_pc r \<noteq> Recv_account" and "pc \<noteq> Recv_account"
    and "rcv_pc r \<noteq> Recv_find" and "pc \<noteq> Recv_find" and "recv_at off n h0 (r0 + K) ps b pc"
    and "rcv_progress (r\<lparr>rcv_pc := pc\<rparr>) \<le> rcv_progress r"
  shows "recv_post c off n h0 r0 K ps ks B r (r\<lparr>rcv_pc := pc\<rparr>) sh (shm_data sh)"
proof -
  have "b \<le> r0 + K" using ri b by (auto simp: recv_inv_def)
  then show ?thesis
    using assms by (auto simp: recv_post_def recv_inv_def rcv_pages_def)
qed

lemma recv_stay:
  assumes "shm_static c ks (rcv_key r) sh" and "recv_inv c off n h0 r0 K ps B r"
    and "ring_view off n h0 ps (rcv_pages r0 r) B (chan_at sh c) (shm_data sh)"
  shows "recv_post c off n h0 r0 K ps ks B r r sh (shm_data sh)"
  using assms by (simp add: recv_post_def)

lemma recv_find_post:
  assumes "shm_static c ks (rcv_key r) sh" and "recv_inv c off n h0 r0 K ps B r"
    and "ring_view off n h0 ps (rcv_pages r0 r) B (chan_at sh c) (shm_data sh)"
    and "rcv_pc r = Recv_find" and "ivshmem_recv_step r sh = (r', sh')"
  shows "recv_post c off n h0 r0 K ps ks B r r' sh' (shm_data sh)"
  using assms
  by (auto simp: ivshmem_recv_step_def shm_static_def recv_post_def recv_inv_def recv_at_def
      rcv_pages_def rcv_progress_def)

lemma recv_local_post:
  assumes st: "shm_static c ks (rcv_key r) sh" and ri: "recv_inv c off n h0 r0 K ps B r"
    and rv: "ring_view off n h0 ps (rcv_pages r0 r) B (chan_at sh c) (shm_data sh)"
    and pc: "rcv_pc r = Recv_mutex \<or> rcv_pc r = Recv_size \<or> rcv_pc r = Recv_empty \<or>
      rcv_pc r = Recv_addr \<or> rcv_pc r = Recv_ret v"
    and step: "ivshmem_recv_step r sh = (r', sh')"
  shows "recv_post c off n h0 r0 K ps ks B r r' sh' (shm_data sh)"
proof -
  let ?ch = "chan_at sh c"
  note wf = shm_static_chan(1) [OF st]
  have c: "rcv_chan r = c" using ri pc by (auto simp: recv_inv_def)
  obtain b where b: "rcv_received r = 4096 * int (b - r0) \<and> r0 \<le> b" "b \<le> r0 + K" "recv_at off n h0 (r0 + K) ps b (rcv_pc r)"
    and K: "unat (rcv_size r) = 4096 * K" "4096 * K < 2 ^ 31"
    using ri by (auto simp: recv_inv_def)
  have pr: "rcv_pages r0 r = b" using pc b by (auto simp: rcv_pages_def)
  have "page_addr ?ch (tail ?ch) = slot off n (h0 + b)"
    using rv pr page_addr_eq [OF shm_static_chan(1,3) [OF st], of "tail ?ch"] wf
    by (auto simp: ring_view_def slot_def wf_channel_def)
  moreover have "unat (size_of_int (rcv_received r)) = 4096 * (b - r0)"
    using b K by (subst unat_size_of_int) auto
  then have "rcv_size r \<le> size_of_int (rcv_received r) \<longleftrightarrow> b = r0 + K"
    using b K by (auto simp: word_le_nat_alt)
  moreover have "head ?ch \<noteq> tail ?ch \<Longrightarrow> b < ps"
    using rv pr by (cases "b = ps") (auto simp: ring_view_def word_unat_eq_iff)
  ultimately show ?thesis
    using step pc c b st recv_local [OF st ri rv b(1)] recv_stay [OF st ri rv]
    by (auto simp: recv_step_eqs recv_at_def shm_static_def rcv_progress_def)
qed

lemma recv_copy_post:
  assumes st: "shm_static c ks (rcv_key r) sh" and ri: "recv_inv c off n h0 r0 K ps B r"
    and rv: "ring_view off n h0 ps (rcv_pages r0 r) B (chan_at sh c) (shm_data sh)"
    and pc: "rcv_pc r = Recv_copy src j" and step: "ivshmem_recv_step r sh = (r', sh')"
  shows "recv_post c off n h0 r0 K ps ks B r r' sh' (shm_data sh)"
proof -
  obtain b where b: "rcv_received r = 4096 * int (b - r0) \<and> r0 \<le> b" "b < ps \<and> b < r0 + K" "src = slot off n (h0 + b)" "j \<le> 4096"
    and K: "unat (rcv_size r) = 4096 * K" "4096 * K < 2 ^ 31" "4096 * K \<le> length (rcv_buf r)"
    and B: "\<forall>i < 4096 * (b - r0) + j. rcv_buf r ! i = B (4096 * r0 + i)"
    using ri pc by (auto simp: recv_inv_def recv_at_def rcv_progress_def nat_mult_distrib)
  have chunk: "recv_chunk (rcv_size r) (rcv_received r) = 4096"
    using recv_chunk_page [OF K(1), of "b - r0"] b K by auto
  have pr: "rcv_pages r0 r = b" using pc b by (simp add: rcv_pages_def)
  note ch = shm_static_chan [OF st]
  have n0: "0 < n" and off: "off + 4096 * n \<le> 4192224"
    using rv ch by (auto simp: ring_view_def wf_channel_def)
  have sl: "slot off n (h0 + b) + 4096 \<le> 4192224" by (rule slot_bound [OF n0 off])
  show ?thesis
  proof (cases "j = 4096")
    case True
    have "(r', sh') = (r\<lparr>rcv_pc := Recv_tail\<rparr>, sh)"
      using step pc chunk True by (simp add: recv_step_eqs recv_copy_step_def)
    moreover have "recv_post c off n h0 r0 K ps ks B r (r\<lparr>rcv_pc := Recv_tail\<rparr>) sh (shm_data sh)"
      using b True pc by (intro recv_local [OF st ri rv b(1)]) (auto simp: recv_at_def rcv_progress_def)
    ultimately show ?thesis by simp
  next
    case False
    have j: "j < 4096" using False b(4) by simp
    have idx: "4096 * (b - r0) + j < length (rcv_buf r)" using b K j by linarith
    have gl: "4096 * r0 + (4096 * (b - r0) + j) = 4096 * b + j" using b(1) by (simp add: diff_mult_distrib2)
    have d: "shm_data sh (src + j) = B (4096 * b + j)"
      using rv b j pr by (auto simp: ring_view_def)
    have eq: "r' = r\<lparr>rcv_pc := Recv_copy src (Suc j),
        rcv_buf := (rcv_buf r)[4096 * (b - r0) + j := B (4096 * b + j)]\<rparr>" "sh' = sh"
      using step pc chunk j idx b(1,3) sl d
      by (auto simp: recv_step_eqs recv_copy_step_def nat_mult_distrib)
    have "\<forall>i < Suc (4096 * (b - r0) + j). (rcv_buf r)[4096 * (b - r0) + j := B (4096 * b + j)] ! i = B (4096 * r0 + i)"
      using B idx by (auto simp: less_Suc_eq nth_list_update gl)
    then show ?thesis
      using st ri rv pc b j K pr unfolding eq
      by (auto simp: recv_post_def recv_inv_def recv_at_def rcv_pages_def rcv_progress_def nat_mult_distrib)
  qed
qed

lemma recv_tail_post:
  assumes st: "shm_static c ks (rcv_key r) sh" and ri: "recv_inv c off n h0 r0 K ps B r"
    and rv: "ring_view off n h0 ps (rcv_pages r0 r) B (chan_at sh c) (shm_data sh)"
    and pc: "rcv_pc r = Recv_tail" and step: "ivshmem_recv_step r sh = (r', sh')"
  shows "recv_post c off n h0 r0 K ps ks B r r' sh' (shm_data sh)"
proof -
  let ?ch = "chan_at sh c"
  note wf = shm_static_chan(1) [OF st] and len = shm_static_chan(2) [OF st]
  have c: "rcv_chan r = c" using ri pc by (auto simp: recv_inv_def)
  obtain b where b: "rcv_received r = 4096 * int (b - r0) \<and> r0 \<le> b" "b < ps \<and> b < r0 + K"
    using ri pc by (auto simp: recv_inv_def recv_at_def)
  have pr: "rcv_pages r0 r = b" using pc b by (auto simp: rcv_pages_def)
  have hn: "unat (tail ?ch) < nat (num_page ?ch)" using wf by (simp add: wf_channel_def)
  obtain x where x: "next_index ?ch (tail ?ch) = Inr x"
    "unat x = Suc (unat (tail ?ch)) mod nat (num_page ?ch)"
    using next_index_eq [OF wf hn] by blast
  have eq: "r' = r\<lparr>rcv_pc := Recv_account\<rparr>" "sh' = upd_channel c (\<lambda>y. y\<lparr>tail := x\<rparr>) sh"
    using step pc c x by (auto simp: ivshmem_recv_step_def recv_loop_step_def Let_def)
  have wf': "wf_channel (?ch\<lparr>tail := x\<rparr>)" using wf x by (auto simp: wf_channel_def)
  have "ring_view off n h0 ps (Suc b) B (?ch\<lparr>tail := x\<rparr>) (shm_data sh)"
    using rv b x(2) unfolding ring_view_def pr by (auto simp: mod_Suc_eq)
  then show ?thesis
    using st ri pc b len shm_static_upd [OF st, of "\<lambda>y. y\<lparr>tail := x\<rparr>"] wf' unfolding eq
    by (auto simp: recv_post_def recv_inv_def recv_at_def rcv_pages_def rcv_progress_def upd_channel_at
        nat_mult_distrib)
qed

lemma recv_account_post:
  assumes st: "shm_static c ks (rcv_key r) sh" and ri: "recv_inv c off n h0 r0 K ps B r"
    and rv: "ring_view off n h0 ps (rcv_pages r0 r) B (chan_at sh c) (shm_data sh)"
    and pc: "rcv_pc r = Recv_account" and step: "ivshmem_recv_step r sh = (r', sh')"
  shows "recv_post c off n h0 r0 K ps ks B r r' sh' (shm_data sh)"
proof -
  let ?ch = "chan_at sh c"
  note wf = shm_static_chan(1) [OF st] and len = shm_static_chan(2) [OF st]
  have c: "rcv_chan r = c" using ri pc by (auto simp: recv_inv_def)
  obtain b where b: "rcv_received r = 4096 * int (b - r0) \<and> r0 \<le> b" "b < ps \<and> b < r0 + K"
    and K: "unat (rcv_size r) = 4096 * K" "4096 * K < 2 ^ 31"
    using ri pc by (auto simp: recv_inv_def recv_at_def)
  have chunk: "recv_chunk (rcv_size r) (rcv_received r) = 4096"
    using recv_chunk_page [OF K(1), of "b - r0"] b K by auto
  have rng: "in_c_int (rcv_received r + 4096)"
    using b K by (auto simp: in_c_int_def)
  let ?f = "\<lambda>x. x\<lparr>data_size := data_size x - size_of_int 4096\<rparr>"
  have eq: "r' = r\<lparr>rcv_pc := Recv_mutex, rcv_received := rcv_received r + 4096\<rparr>" "sh' = upd_channel c ?f sh"
    using step pc c chunk rng by (auto simp: ivshmem_recv_step_def recv_loop_step_def Let_def)
  have wf': "wf_channel (?f ?ch)" using wf by (auto simp: wf_channel_def)
  have "nat (4096 * int (b - r0) + 4096) = 4096 * (Suc b - r0)" using b(1) by linarith
  then show ?thesis
    using st ri rv pc b K len wf' shm_static_upd [OF st, of ?f] ring_view_frame(1) unfolding eq
    by (auto simp: recv_post_def recv_inv_def recv_at_def rcv_pages_def rcv_progress_def upd_channel_at
        nat_mult_distrib intro!: exI [of _ "Suc b"])
qed

lemma recv_step_post:
  assumes "shm_static c ks (rcv_key r) sh" and ri: "recv_inv c off n h0 r0 K ps B r"
    and "ring_view off n h0 ps (rcv_pages r0 r) B (chan_at sh c) (shm_data sh)"
    and "ivshmem_recv_step r sh = (r', sh')"
  shows "recv_post c off n h0 r0 K ps ks B r r' sh' (shm_data sh)"
proof (cases "rcv_pc r")
  case Recv_find
  then show ?thesis using recv_find_post assms by blast
next
  case (Recv_copy dst j)
  then show ?thesis using recv_copy_post assms by blast
next
  case Recv_tail
  then show ?thesis using recv_tail_post assms by blast
next
  case Recv_account
  then show ?thesis using recv_account_post assms by blast
qed (use assms recv_local_post in \<open>force simp: recv_inv_def recv_at_def\<close>)+

lemma ring_inv_step:
  assumes "ring_inv_at c off n h0 s0 r0 K B s" and "ring_step s s'"
  shows "ring_inv_at c off n h0 s0 r0 K B s'"
  using assms(2)
proof cases
  case (ring_send now t sh)
  let ?t = "rs_snd s" and ?r = "rs_rcv s" and ?sh = "rs_shm s"
  have i: "shm_static c (snd_key ?t) (rcv_key ?r) ?sh"
    "send_inv c off n h0 s0 K (rcv_pages r0 ?r) B (shm_data ?sh) ?t"
    "recv_inv c off n h0 r0 K (snd_pages s0 ?t) B ?r"
    "ring_view off n h0 (snd_pages s0 ?t) (rcv_pages r0 ?r) B (chan_at ?sh c) (shm_data ?sh)"
    using assms(1) by (simp_all add: ring_inv_at_def Let_def)
  from send_step_post [OF i(1,2,4) ring_send(2)] i(3) show ?thesis
    unfolding ring_send(1) ring_inv_at_def Let_def send_post_def recv_inv_def
    by (auto 0 3 intro: recv_at_mono split: if_splits)
next
  case (ring_recv r sh)
  let ?t = "rs_snd s" and ?r = "rs_rcv s" and ?sh = "rs_shm s"
  have i: "shm_static c (snd_key ?t) (rcv_key ?r) ?sh"
    "send_inv c off n h0 s0 K (rcv_pages r0 ?r) B (shm_data ?sh) ?t"
    "recv_inv c off n h0 r0 K (snd_pages s0 ?t) B ?r"
    "ring_view off n h0 (snd_pages s0 ?t) (rcv_pages r0 ?r) B (chan_at ?sh c) (shm_data ?sh)"
    using assms(1) by (simp_all add: ring_inv_at_def Let_def)
  from recv_step_post [OF i(1,3,4) ring_recv(2)] i(2) show ?thesis
    unfolding ring_recv(1) ring_inv_at_def Let_def recv_post_def send_inv_def
    by (auto 0 3 intro: send_at_mono split: if_splits)
qed

lemma send_call_iff:
  "t = send_call (snd_key t) (snd_buf t) (snd_size t) \<longleftrightarrow>
   snd_pc t = Send_find \<and> snd_chan t = 0 \<and> snd_sent t = 0"
  by (cases t) (auto simp: send_call_def)

lemma recv_call_iff:
  "r = recv_call (rcv_key r) (rcv_buf r) (rcv_size r) \<longleftrightarrow>
   rcv_pc r = Recv_find \<and> rcv_chan r = 0 \<and> rcv_received r = 0"
  by (cases r) (auto simp: recv_call_def)


lemma ring_inv_init:
  assumes "ring_init s"
  shows "ring_inv s"
proof -
  let ?t = "rs_snd s" and ?r = "rs_rcv s" and ?sh = "rs_shm s"
  obtain c where c: "ivshmem_find_channel (ctrl ?sh) (snd_key ?t) = Inr (Some c)"
    "ivshmem_find_channel (ctrl ?sh) (rcv_key ?r) = Inr (Some c)" "head (chan_at ?sh c) = tail (chan_at ?sh c)"
    using assms by (auto simp: ring_init_def Let_def split: sum.splits option.splits)
  obtain K where K: "unat (snd_size ?t) = 4096 * K" using assms by (auto simp: ring_init_def Let_def)
  have wf: "wf_ctrl (ctrl ?sh)" using assms by (simp add: ring_init_def Let_def)
  then have "num_active_channels (ctrl ?sh) \<le> int (length (channels (ctrl ?sh)))" by (simp add: wf_ctrl_def)
  then have cn: "c < nat (num_active_channels (ctrl ?sh))"
    using c(1) by (cases rule: find_channel_cases [where k = "snd_key ?t"]) auto
  let ?ch = "chan_at ?sh c"
  have ch: "wf_channel ?ch" using wf_ctrl_chan [OF wf cn] by simp
  have eqs: "snd_pc ?t = Send_find" "snd_sent ?t = 0" "rcv_pc ?r = Recv_find" "rcv_received ?r = 0"
    using assms by (simp_all add: ring_init_def Let_def send_call_iff recv_call_iff)
  have "ring_inv_at c (unat (buf_offset ?ch)) (nat (num_page ?ch)) (unat (head ?ch)) 0 0 K (nth (snd_buf ?t)) s"
    using assms c cn K ch eqs
    by (auto simp: ring_inv_at_def Let_def shm_static_def send_inv_def recv_inv_def ring_view_def ring_init_def
        send_at_def recv_at_def snd_pages_def rcv_pages_def rcv_progress_def wf_channel_def)
  then show ?thesis unfolding ring_inv_def by blast
qed

text \<open>What the receiver has of its current message, and that it is complete when the call returns.\<close>

lemma recv_inv_taken:
  assumes "recv_inv c off n h0 r0 K ps B r"
  shows "rcv_progress r \<le> 4096 * K" and "4096 * K \<le> length (rcv_buf r)"
    and "i < rcv_progress r \<Longrightarrow> rcv_buf r ! i = B (4096 * r0 + i)"
    and "rcv_pc r = Recv_ret v \<Longrightarrow> v = 0 \<and> rcv_progress r = 4096 * K \<and> rcv_pages r0 r = r0 + K"
proof -
  obtain b where b: "r0 \<le> b" "rcv_received r = 4096 * int (b - r0)" "b \<le> r0 + K" "recv_at off n h0 (r0 + K) ps b (rcv_pc r)"
    using assms by (auto simp: recv_inv_def)
  have nb: "nat (4096 * int (b - r0)) = 4096 * (b - r0)" by simp
  show "rcv_progress r \<le> 4096 * K"
    using b by (auto simp: rcv_progress_def recv_at_def nb split: recv_pc.splits)
  show "rcv_pc r = Recv_ret v \<Longrightarrow> v = 0 \<and> rcv_progress r = 4096 * K \<and> rcv_pages r0 r = r0 + K"
    using b by (auto simp: rcv_progress_def rcv_pages_def recv_at_def)
qed (use assms in \<open>auto simp: recv_inv_def\<close>)

lemma send_inv_pages:
  assumes "send_inv c off n h0 s0 K pr B d t"
  shows "s0 \<le> snd_pages s0 t" and "snd_pages s0 t \<le> s0 + K"
    and "snd_pc t = Send_ret v \<Longrightarrow> v = 0 \<and> snd_pages s0 t = s0 + K"
  using assms by (auto simp: send_inv_def send_at_def snd_pages_def)

lemma ring_inv_prefix:
  assumes "ring_inv s"
  shows "prefix (ring_delivered s) (ring_stream s)"
proof -
  let ?t = "rs_snd s" and ?r = "rs_rcv s"
  obtain c off n h0 K where "ring_inv_at c off n h0 0 0 K (nth (snd_buf ?t)) s" using assms by (auto simp: ring_inv_def)
  then have r: "recv_inv c off n h0 0 K (snd_pages 0 ?t) (nth (snd_buf ?t)) ?r"
    and t: "unat (snd_size ?t) = 4096 * K" "4096 * K \<le> length (snd_buf ?t)"
    by (auto simp: ring_inv_at_def Let_def send_inv_def)
  show ?thesis
    using recv_inv_taken(1-3) [OF r] t by (intro prefix_nthI) (auto simp: ring_delivered_def ring_stream_def)
qed

lemma ring_inv_received:
  assumes "ring_inv s" and "ring_received s"
  shows "ring_delivered s = ring_stream s"
proof -
  let ?t = "rs_snd s" and ?r = "rs_rcv s"
  obtain c off n h0 K where "ring_inv_at c off n h0 0 0 K (nth (snd_buf ?t)) s" using assms by (auto simp: ring_inv_def)
  then have r: "recv_inv c off n h0 0 K (snd_pages 0 ?t) (nth (snd_buf ?t)) ?r"
    and t: "unat (snd_size ?t) = 4096 * K" "4096 * K \<le> length (snd_buf ?t)"
    by (auto simp: ring_inv_at_def Let_def send_inv_def)
  have "length (ring_delivered s) = length (ring_stream s)"
    using recv_inv_taken(2,4) [OF r] t assms(2) by (simp add: ring_delivered_def ring_stream_def ring_received_def)
  then show ?thesis
    using ring_inv_prefix [OF assms(1)] by (auto simp: prefix_def)
qed

lemma send_progress:
  assumes st: "shm_static c (snd_key t) kr sh" and si: "send_inv c off n h0 s0 K pr B (shm_data sh) t"
    and rv: "ring_view off n h0 (snd_pages s0 t) pr B (chan_at sh c) (shm_data sh)"
    and go: "snd_pc t \<noteq> Send_ret 0" "Suc (snd_pages s0 t) < pr + n \<or> snd_pc t \<notin> {Send_full1, Send_full2}"
    and step: "ivshmem_send_step now t sh = (t', sh')"
  shows "send_work t' < send_work t"
proof -
  let ?ch = "chan_at sh c"
  note wf = shm_static_chan(1) [OF st]
  obtain a where a: "unat (snd_sent t) = 4096 * (a - s0) \<and> s0 \<le> a" "a \<le> s0 + K"
    "send_at off n h0 (s0 + K) pr (shm_data sh) a B (snd_pc t)"
    and K: "unat (snd_size t) = 4096 * K" "2 \<le> K" "4096 * K < 2 ^ 31"
    and c: "snd_pc t \<noteq> Send_find \<longrightarrow> snd_chan t = c"
    using si by (auto simp: send_inv_def)
  have z: "snd_pc t = Send_find \<longrightarrow> snd_sent t = 0" using si by (simp add: send_inv_def)
  have chunk: "send_chunk (snd_size t) = 4096" by (rule send_chunk_page [OF K(1,2)])
  have full: "Suc (snd_pages s0 t) < pr + n \<Longrightarrow>
      head ?ch \<noteq> tail ?ch - 1 \<and> \<not> (head ?ch = u32_of_int (num_page ?ch - 1) \<and> tail ?ch = 0)"
    using ring_full_iff [OF wf] ring_not_full [OF wf rv] rv by (auto simp: ring_view_def)
  have post: "send_post c off n h0 s0 K pr kr B t t' sh'" by (rule send_step_post [OF st si rv step])
  obtain x where x: "next_index ?ch (head ?ch) = Inr x"
    using next_index_eq [OF wf, of "head ?ch"] wf by (auto simp: wf_channel_def)
  have u: "unat (snd_sent t + 4096) = 4096 * (Suc a - s0)" if "a < s0 + K"
    using a K that by (subst unat_add_no_wrap) auto
  have nf: "\<And>e. snd_pc t' \<noteq> Send_fault e" using post by (auto simp: send_post_def send_inv_def send_at_def)
  show ?thesis
  proof (cases "snd_pc t")
    case Send_find
    then show ?thesis
      using step st z by (auto simp: ivshmem_send_step_def in_request_def request_channel_step_def
          shm_static_def send_work_def)
  next
    case (Send_copy dst j)
    then show ?thesis
      using step chunk a nf
      by (auto simp: send_step_eqs send_copy_step_def send_work_def send_at_def split: if_splits)
  next
    case Send_head
    then show ?thesis
      using step c x by (auto simp: ivshmem_send_step_def in_request_def send_loop_step_def Let_def send_work_def)
  next
    case Send_account
    then have "a < s0 + K" using a by (simp add: send_at_def)
    then show ?thesis
      using step c chunk a K u Send_account
      by (auto simp: ivshmem_send_step_def in_request_def send_loop_step_def Let_def send_work_def diff_mult_distrib)
  next
    case Send_stamp
    then show ?thesis
      using step by (auto simp: ivshmem_send_step_def in_request_def send_loop_step_def Let_def send_work_def)
  qed (use step st c a go full in
        \<open>auto simp: send_step_eqs send_work_def shm_static_def send_at_def\<close>)
qed

lemma recv_progress:
  assumes st: "shm_static c ks (rcv_key r) sh" and ri: "recv_inv c off n h0 r0 K ps B r"
    and rv: "ring_view off n h0 ps (rcv_pages r0 r) B (chan_at sh c) (shm_data sh)"
    and go: "rcv_pc r \<noteq> Recv_ret 0" "rcv_pages r0 r < ps \<or> rcv_pc r \<noteq> Recv_empty"
    and step: "ivshmem_recv_step r sh = (r', sh')"
  shows "recv_work r' < recv_work r"
proof -
  let ?ch = "chan_at sh c"
  note wf = shm_static_chan(1) [OF st]
  obtain b where b: "rcv_received r = 4096 * int (b - r0) \<and> r0 \<le> b" "b \<le> r0 + K" "recv_at off n h0 (r0 + K) ps b (rcv_pc r)"
    and K: "unat (rcv_size r) = 4096 * K" "4096 * K < 2 ^ 31"
    and c: "rcv_pc r \<noteq> Recv_find \<longrightarrow> rcv_chan r = c"
    using ri by (auto simp: recv_inv_def)
  have z: "rcv_pc r = Recv_find \<longrightarrow> rcv_received r = 0" using ri by (simp add: recv_inv_def)
  have chunk: "recv_chunk (rcv_size r) (rcv_received r) = 4096" if "b < r0 + K"
    using recv_chunk_page [OF K(1), of "b - r0"] b K that by auto
  have ne: "head ?ch \<noteq> tail ?ch" if "rcv_pages r0 r < ps"
    using rv that mod_neq_window [of "h0 + rcv_pages r0 r" "h0 + ps" n]
    by (auto simp: ring_view_def word_unat_eq_iff)
  have post: "recv_post c off n h0 r0 K ps ks B r r' sh' (shm_data sh)" by (rule recv_step_post [OF st ri rv step])
  obtain x where x: "next_index ?ch (tail ?ch) = Inr x"
    using next_index_eq [OF wf, of "tail ?ch"] wf by (auto simp: wf_channel_def)
  have nf: "\<And>e. rcv_pc r' \<noteq> Recv_fault e" using post by (auto simp: recv_post_def recv_inv_def recv_at_def)
  have nb: "nat (4096 * int (b - r0)) = 4096 * (b - r0)" "nat (4096 * int (b - r0) + 4096) = 4096 * (Suc b - r0)"
    using b(1) by linarith+
  show ?thesis
  proof (cases "rcv_pc r")
    case Recv_find
    then show ?thesis
      using step st z by (auto simp: ivshmem_recv_step_def shm_static_def recv_work_def)
  next
    case (Recv_copy src j)
    then have "b < r0 + K" using b K by (simp add: recv_at_def)
    with Recv_copy show ?thesis
      using step chunk b K nb nf [of OutOfBounds]
      by (auto simp: recv_step_eqs recv_copy_step_def recv_work_def recv_at_def split: if_splits)
  next
    case Recv_tail
    then show ?thesis
      using step c x by (auto simp: ivshmem_recv_step_def recv_loop_step_def Let_def recv_work_def)
  next
    case Recv_account
    then have "b < r0 + K" using b K by (simp add: recv_at_def)
    with Recv_account show ?thesis
      using step c chunk b K nb nf
      by (auto simp: ivshmem_recv_step_def recv_loop_step_def Let_def recv_work_def diff_mult_distrib split: if_splits)
  qed (use step st c b go ne in
        \<open>auto simp: recv_step_eqs recv_work_def shm_static_def recv_at_def\<close>)
qed

text \<open>
  One of the two can go on, unless the receiver waits for the next call of a sender that has
  returned, or has returned itself.
\<close>

lemma ring_progress_at:
  assumes inv: "ring_inv_at c off n h0 s0 r0 K B s"
    and "\<not> (snd_pc (rs_snd s) = Send_ret 0 \<and> rcv_pc (rs_rcv s) = Recv_empty \<and>
      rcv_pages r0 (rs_rcv s) = snd_pages s0 (rs_snd s))"
    and "\<not> (rcv_pc (rs_rcv s) = Recv_ret 0 \<and>
      (snd_pc (rs_snd s) = Send_ret 0 \<or> rcv_pages r0 (rs_rcv s) < snd_pages s0 (rs_snd s)))"
  shows "\<exists>s'. ring_step s s' \<and> ring_work s' < ring_work s"
proof -
  let ?t = "rs_snd s" and ?r = "rs_rcv s" and ?sh = "rs_shm s"
  have i: "shm_static c (snd_key ?t) (rcv_key ?r) ?sh"
    "send_inv c off n h0 s0 K (rcv_pages r0 ?r) B (shm_data ?sh) ?t"
    "recv_inv c off n h0 r0 K (snd_pages s0 ?t) B ?r"
    "ring_view off n h0 (snd_pages s0 ?t) (rcv_pages r0 ?r) B (chan_at ?sh c) (shm_data ?sh)"
    using inv by (simp_all add: ring_inv_at_def Let_def)
  obtain t' sh1 where t': "ivshmem_send_step 0 ?t ?sh = (t', sh1)" by fastforce
  obtain r' sh2 where r': "ivshmem_recv_step ?r ?sh = (r', sh2)" by fastforce
  have n2: "2 \<le> n" using shm_static_chan(1) [OF i(1)] i(4) by (auto simp: wf_channel_def ring_view_def)
  have le: "rcv_pages r0 ?r \<le> snd_pages s0 ?t" using i(4) by (simp add: ring_view_def)
  show ?thesis
  proof (cases "snd_pc ?t \<noteq> Send_ret 0 \<and>
      (Suc (snd_pages s0 ?t) < rcv_pages r0 ?r + n \<or> snd_pc ?t \<notin> {Send_full1, Send_full2})")
    case True
    then have "send_work t' < send_work ?t" using send_progress [OF i(1,2,4) _ _ t'] by blast
    then show ?thesis
      using ring_send [OF t'] by (intro exI [of _ "s\<lparr>rs_snd := t', rs_shm := sh1\<rparr>"] conjI) (simp_all add: ring_work_def)
  next
    case blocked: False
    then have "rcv_pc ?r \<noteq> Recv_ret 0 \<and> (rcv_pages r0 ?r < snd_pages s0 ?t \<or> rcv_pc ?r \<noteq> Recv_empty)"
      using assms(2,3) le n2 by auto
    then have "recv_work r' < recv_work ?r" using recv_progress [OF i(1,3,4) _ _ r'] by blast
    then show ?thesis
      using ring_recv [OF r'] by (intro exI [of _ "s\<lparr>rs_rcv := r', rs_shm := sh2\<rparr>"] conjI) (simp_all add: ring_work_def)
  qed
qed

lemma ring_progress:
  assumes "ring_inv s" and "\<not> ring_done s"
  shows "\<exists>s'. ring_step s s' \<and> ring_work s' < ring_work s"
proof -
  let ?t = "rs_snd s" and ?r = "rs_rcv s"
  obtain c off n h0 K where inv: "ring_inv_at c off n h0 0 0 K (nth (snd_buf ?t)) s" using assms by (auto simp: ring_inv_def)
  then have i: "send_inv c off n h0 0 K (rcv_pages 0 ?r) (nth (snd_buf ?t)) (shm_data (rs_shm s)) ?t"
    "recv_inv c off n h0 0 K (snd_pages 0 ?t) (nth (snd_buf ?t)) ?r"
    by (simp_all add: ring_inv_at_def Let_def)
  have "rcv_pc ?r = Recv_empty \<Longrightarrow> rcv_pages 0 ?r < K"
    using i(2) by (auto simp: recv_inv_def recv_at_def rcv_pages_def)
  moreover have "rcv_pc ?r = Recv_ret 0 \<Longrightarrow> rcv_pages 0 ?r = K" using recv_inv_taken(4) [OF i(2)] by simp
  moreover have "snd_pages 0 ?t \<le> K" "snd_pc ?t = Send_ret 0 \<Longrightarrow> snd_pages 0 ?t = K"
    using send_inv_pages(2,3) [OF i(1)] by simp_all
  ultimately show ?thesis
    using assms(2) unfolding ring_done_def by (intro ring_progress_at [OF inv]) linarith+
qed

section \<open>The pair as a transport\<close>

lemma ring_stream_step: "ring_step s t \<Longrightarrow> ring_stream t = ring_stream s"
  by (induction rule: ring_step.induct) (simp_all add: ring_stream_def send_step_frame(2,3))

lemma ring_inv_kept:
  assumes "ring_inv s" and "ring_step s t"
  shows "ring_inv t"
proof -
  have "snd_buf (rs_snd t) = snd_buf (rs_snd s)"
    using assms(2) by cases (simp_all add: send_step_frame)
  then show ?thesis using assms ring_inv_step unfolding ring_inv_def by metis
qed

interpretation ring: live_transport ring_init ring_step ring_inv ring_stream ring_delivered
  ring_received ring_done ring_work
proof unfold_locales
  show "ring_inv s" if "ring_init s" for s using that by (rule ring_inv_init)
  show "ring_inv t" if "ring_inv s" "ring_step s t" for s t using that by (rule ring_inv_kept)
  show "ring_stream t = ring_stream s" if "ring_inv s" "ring_step s t" for s t
    using that(2) by (rule ring_stream_step)
  show "prefix (ring_delivered s) (ring_stream s)" if "ring_inv s" for s
    using that by (rule ring_inv_prefix)
  show "ring_delivered s = ring_stream s" if "ring_inv s" "ring_received s" for s
    using that by (rule ring_inv_received)
  show "ring_received s" if "ring_inv s" "ring_done s" for s
    using that(2) by (simp add: ring_received_def ring_done_def)
  show "\<exists>t. ring_step s t \<and> ring_work t < ring_work s" if "ring_inv s" "\<not> ring_done s" for s
    using that by (rule ring_progress)
qed

lemma ring_inv_no_fault:
  assumes "ring_inv s"
  shows "snd_pc (rs_snd s) \<noteq> Send_fault e" and "rcv_pc (rs_rcv s) \<noteq> Recv_fault e"
  using assms by (auto simp: ring_inv_def ring_inv_at_def Let_def send_inv_def recv_inv_def send_at_def recv_at_def)

lemma ring_received_stream:
  assumes "reach ring_init ring_step s" and ret: "rcv_pc (rs_rcv s) = Recv_ret 0"
  shows "take (unat (rcv_size (rs_rcv s))) (rcv_buf (rs_rcv s)) = ring_stream s"
proof -
  have "ring_inv s" by (rule ring.reach_inv [OF assms(1)])
  then have "rcv_progress (rs_rcv s) = unat (rcv_size (rs_rcv s))"
    using ret by (auto simp: ring_inv_def ring_inv_at_def Let_def recv_inv_def recv_at_def rcv_progress_def
        nat_mult_distrib)
  then show ?thesis
    using ring.reach_complete [OF assms(1)] ret by (simp add: ring_received_def ring_delivered_def)
qed

lemma ring_demo_init: "ring_init ring_demo"
proof -
  have "ivshmem_find_channel demo_ctrl \<lparr>sender_vm = 1, sender_pid = 2, receiver_vm = 2\<rparr> = Inr (Some 1)"
    by (simp add: ivshmem_find_channel_def find_channel_from.simps key_matches_def demo_ctrl_def demo_channel_def)
  then show ?thesis
    using demo_wf
    by (simp add: ring_init_def ring_demo_def send_call_def recv_call_def demo_shm_def)
      (simp add: demo_ctrl_def demo_channel_def)
qed

section \<open>Properties\<close>

lemma ring_delivery_facts:
  assumes "reach ring_init ring_step s"
  shows "prefix (ring_delivered s) (ring_stream s)"
    and "rcv_pc (rs_rcv s) = Recv_ret 0 \<Longrightarrow>
      take (unat (rcv_size (rs_rcv s))) (rcv_buf (rs_rcv s)) = ring_stream s"
    and "snd_pc (rs_snd s) \<noteq> Send_fault e" and "rcv_pc (rs_rcv s) \<noteq> Recv_fault e"
proof -
  have inv: "ring_inv s" by (rule ring.reach_inv [OF assms])
  show "prefix (ring_delivered s) (ring_stream s)" by (rule ring.reach_prefix [OF assms])
  show "snd_pc (rs_snd s) \<noteq> Send_fault e" "rcv_pc (rs_rcv s) \<noteq> Recv_fault e"
    by (rule ring_inv_no_fault [OF inv])+
  show "take (unat (rcv_size (rs_rcv s))) (rcv_buf (rs_rcv s)) = ring_stream s" if "rcv_pc (rs_rcv s) = Recv_ret 0"
    using that by (rule ring_received_stream [OF assms])
qed

text \<open>
  Safety of the page ring. In every state that any interleaving of one
  ivshmem_send_buffer and one ivshmem_recv_buffer on a channel can reach (message of at
  least two whole pages), the bytes received so far are a prefix of the message; when the
  receiver has returned 0 its buffer holds the whole message; and neither side has read or
  written out of bounds.
\<close>

theorem ring_delivery:
  assumes "reach ring_init ring_step s"
  shows "prefix (ring_delivered s) (ring_stream s) \<and>
    (rcv_pc (rs_rcv s) = Recv_ret 0 \<longrightarrow>
       take (unat (rcv_size (rs_rcv s))) (rcv_buf (rs_rcv s)) = ring_stream s) \<and>
    (\<forall>e. snd_pc (rs_snd s) \<noteq> Send_fault e \<and> rcv_pc (rs_rcv s) \<noteq> Recv_fault e)"
  using ring_delivery_facts [OF assms] by auto

theorem ring_delivery_witness:
  "prefix (ring_delivered ring_demo) (replicate 8192 7) \<and> snd_pc (rs_snd ring_demo) \<noteq> Send_fault OutOfBounds"
proof -
  have "ring_stream ring_demo = replicate 8192 7"
    by (simp add: ring_stream_def ring_demo_def send_call_def)
  then show ?thesis
    using ring_delivery [OF reach_init [of ring_init, OF ring_demo_init]] by simp
qed

text \<open>
  Liveness of the page ring. Neither side can be stuck for good: from every reachable
  state some schedule lets both calls return 0, with exactly the message in the receiver's
  buffer, however the ring fills up and empties on the way.
\<close>

theorem ring_completes:
  assumes "reach ring_init ring_step s"
  shows "\<exists>t. steps ring_step s t \<and> snd_pc (rs_snd t) = Send_ret 0 \<and> rcv_pc (rs_rcv t) = Recv_ret 0 \<and>
    ring_delivered t = ring_stream s"
  using ring.reach_can_finish [OF assms] by (simp add: ring_done_def)

theorem ring_completes_witness:
  "\<exists>t. steps ring_step ring_demo t \<and> snd_pc (rs_snd t) = Send_ret 0 \<and> rcv_pc (rs_rcv t) = Recv_ret 0 \<and>
     ring_delivered t = replicate 8192 7"
proof -
  have "ring_stream ring_demo = replicate 8192 7"
    by (simp add: ring_stream_def ring_demo_def send_call_def)
  then show ?thesis
    using ring_completes [OF reach_init [of ring_init, OF ring_demo_init]] by simp
qed

end
