(* ===== verification/Ivshmem_Sessions.thy ===== *)
theory Ivshmem_Sessions
  imports Ivshmem_Systems
begin

text \<open>
  Sequences of calls.  The programs send one message after the other, and fetch one after
  the other, each at its own pace, so that the sender can be calls ahead of the receiver as
  far as the transport has room.  A session wraps a system of one sending and one receiving
  call; all its messages have the same size.  The interface \<open>call_transport\<close> says what the
  transports promise of single calls, with the bytes counted over the whole session, and
  yields that the session is a \<open>live_transport\<close>.
\<close>

section \<open>Sessions\<close>

text \<open>
  \<open>se_msgs\<close> are the messages of the session, \<open>se_next\<close> the number of calls the sender has
  started, \<open>se_got\<close> what the calls of the receiver that have returned 0 had in their
  buffers.  The sender goes on after every return of a call, as the writer programs do.
\<close>

record 's session =
  se_sys :: 's
  se_msgs :: "byte list list"
  se_next :: nat
  se_got :: "byte list list"

inductive session_step ::
  "('s \<Rightarrow> 's \<Rightarrow> bool) \<Rightarrow> ('s \<Rightarrow> bool) \<Rightarrow> ('s \<Rightarrow> bool) \<Rightarrow> (byte list \<Rightarrow> 's \<Rightarrow> 's) \<Rightarrow> ('s \<Rightarrow> 's) \<Rightarrow> ('s \<Rightarrow> byte list) \<Rightarrow>
   's session \<Rightarrow> 's session \<Rightarrow> bool"
  for step sent received next_send next_recv fetch where
  session_call: "step (se_sys s) g \<Longrightarrow>
    session_step step sent received next_send next_recv fetch s (s\<lparr>se_sys := g\<rparr>)"
| session_send: "sent (se_sys s) \<Longrightarrow> se_next s < length (se_msgs s) \<Longrightarrow>
    session_step step sent received next_send next_recv fetch s
      (s\<lparr>se_sys := next_send (se_msgs s ! se_next s) (se_sys s), se_next := Suc (se_next s)\<rparr>)"
| session_recv: "received (se_sys s) \<Longrightarrow>
    session_step step sent received next_send next_recv fetch s
      (s\<lparr>se_sys := next_recv (se_sys s), se_got := se_got s @ [fetch (se_sys s)]\<rparr>)"

text \<open>
  \<open>start N m s\<close> says that \<open>s\<close> begins with a call for the message \<open>m\<close> of \<open>N\<close> bytes, \<open>I N i j B s\<close>
  that the sender is in its call \<open>i\<close> and the receiver in its call \<open>j\<close> of a session that sends
  the bytes \<open>B\<close>.
\<close>

definition session_init :: "(nat \<Rightarrow> byte list \<Rightarrow> 's \<Rightarrow> bool) \<Rightarrow> 's session \<Rightarrow> bool" where
  "session_init start s \<longleftrightarrow>
     se_msgs s \<noteq> [] \<and> start (length (se_msgs s ! 0)) (se_msgs s ! 0) (se_sys s) \<and> se_next s = 1 \<and> se_got s = [] \<and>
     (\<forall>m \<in> set (se_msgs s). length m = length (se_msgs s ! 0))"

definition session_inv ::
  "(nat \<Rightarrow> nat \<Rightarrow> nat \<Rightarrow> (nat \<Rightarrow> byte) \<Rightarrow> 's \<Rightarrow> bool) \<Rightarrow> 's session \<Rightarrow> bool" where
  "session_inv I s \<longleftrightarrow>
     (\<exists>N i. I N i (length (se_got s)) (nth (concat (se_msgs s))) (se_sys s) \<and>
        se_next s = Suc i \<and> i < length (se_msgs s) \<and> (\<forall>m \<in> set (se_msgs s). length m = N) \<and>
        se_got s = take (length (se_got s)) (se_msgs s))"

definition session_stream :: "'s session \<Rightarrow> byte list" where
  "session_stream s = concat (se_msgs s)"

definition session_delivered :: "('s \<Rightarrow> byte list) \<Rightarrow> 's session \<Rightarrow> byte list" where
  "session_delivered current s = concat (se_got s) @ current (se_sys s)"

definition session_received :: "'s session \<Rightarrow> bool" where
  "session_received s \<longleftrightarrow> se_got s = se_msgs s"

definition session_done :: "('s \<Rightarrow> bool) \<Rightarrow> 's session \<Rightarrow> bool" where
  "session_done sent s \<longleftrightarrow> se_got s = se_msgs s \<and> se_next s = length (se_msgs s) \<and> sent (se_sys s)"

definition session_work :: "('s \<Rightarrow> nat) \<Rightarrow> (nat \<Rightarrow> nat) \<Rightarrow> 's session \<Rightarrow> nat" where
  "session_work work call_work s =
     (length (se_msgs s) - se_next s + (length (se_msgs s) - length (se_got s))) *
       Suc (call_work (length (se_msgs s ! 0))) + work (se_sys s)"

section \<open>Messages of one length\<close>

lemma concat_same_length:
  assumes "\<forall>m \<in> set ms. length m = L"
  shows "length (concat ms) = L * length ms" and "concat (take k ms) = take (L * k) (concat ms)"
    and "i < length ms \<Longrightarrow> j < L \<Longrightarrow> concat ms ! (L * i + j) = ms ! i ! j"
proof -
  show "length (concat ms) = L * length ms" using assms by (induction ms) auto
  show "concat (take k ms) = take (L * k) (concat ms)"
    using assms by (induction ms arbitrary: k) (auto simp: take_Cons split: nat.split)
  show "concat ms ! (L * i + j) = ms ! i ! j" if "i < length ms" "j < L"
    using assms that by (induction ms arbitrary: i) (auto simp: nth_append nth_Cons split: nat.split)
qed

lemma less_rank:
  fixes x y W :: nat
  assumes "x < W + y"
  shows "(m + k) * W + x < (Suc m + k) * W + y" and "(k + m) * W + x < (k + Suc m) * W + y"
  using assms by simp_all

section \<open>The interface\<close>

locale call_transport =
  fixes step :: "'s \<Rightarrow> 's \<Rightarrow> bool"
    and start :: "nat \<Rightarrow> byte list \<Rightarrow> 's \<Rightarrow> bool"
    and inv :: "nat \<Rightarrow> nat \<Rightarrow> nat \<Rightarrow> (nat \<Rightarrow> byte) \<Rightarrow> 's \<Rightarrow> bool"
    and sent :: "'s \<Rightarrow> bool"
    and received :: "'s \<Rightarrow> bool"
    and next_send :: "byte list \<Rightarrow> 's \<Rightarrow> 's"
    and next_recv :: "'s \<Rightarrow> 's"
    and fetch :: "'s \<Rightarrow> byte list"
    and current :: "'s \<Rightarrow> byte list"
    and work :: "'s \<Rightarrow> nat"
    and call_work :: "nat \<Rightarrow> nat"
  assumes start_inv: "start N m s \<Longrightarrow> length m = N \<Longrightarrow> \<forall>k < N. m ! k = B k \<Longrightarrow> inv N 0 0 B s"
    and inv_step: "inv N i j B s \<Longrightarrow> step s t \<Longrightarrow> inv N i j B t"
    and send_next: "inv N i j B s \<Longrightarrow> sent s \<Longrightarrow> length m = N \<Longrightarrow> \<forall>k < N. m ! k = B (N * Suc i + k) \<Longrightarrow>
      inv N (Suc i) j B (next_send m s)"
    and recv_next: "inv N i j B s \<Longrightarrow> received s \<Longrightarrow> inv N i (Suc j) B (next_recv s)"
    and positive: "inv N i j B s \<Longrightarrow> 0 < N"
    and behind: "inv N i j B s \<Longrightarrow> N * j + length (current s) \<le> N * Suc i"
    and current_nth: "inv N i j B s \<Longrightarrow> k < length (current s) \<Longrightarrow> current s ! k = B (N * j + k)"
    and fetched: "inv N i j B s \<Longrightarrow> received s \<Longrightarrow> length (current s) = N \<and> fetch s = current s"
    and progress: "inv N i j B s \<Longrightarrow> \<not> received s \<Longrightarrow> \<not> (sent s \<and> i < j) \<Longrightarrow> \<exists>t. step s t \<and> work t < work s"
    and send_work: "inv N i j B s \<Longrightarrow> sent s \<Longrightarrow> work (next_send m s) \<le> work s + call_work N"
    and recv_work: "inv N i j B s \<Longrightarrow> received s \<Longrightarrow> work (next_recv s) \<le> work s + call_work N"
begin

lemma session_invI:
  assumes "inv N i (length (se_got s)) (nth (concat (se_msgs s))) (se_sys s)" and "se_next s = Suc i"
    and "i < length (se_msgs s)" and "\<forall>m \<in> set (se_msgs s). length m = N"
    and "se_got s = take (length (se_got s)) (se_msgs s)"
  shows "session_inv inv s"
  using assms unfolding session_inv_def by blast

lemma session_inv_init:
  assumes "session_init start s"
  shows "session_inv inv s"
proof -
  let ?m = "se_msgs s ! 0"
  obtain N where i: "se_msgs s \<noteq> []" "start N ?m (se_sys s)" "se_next s = 1" "se_got s = []" "length ?m = N"
    "\<forall>m \<in> set (se_msgs s). length m = N"
    using assms unfolding session_init_def by blast
  have "\<forall>k < N. ?m ! k = concat (se_msgs s) ! k"
    using concat_same_length(3) [OF i(6), of 0] i(1) by simp
  from start_inv [OF i(2,5) this] show ?thesis using i by (intro session_invI [where i = 0 and N = N]) simp_all
qed

lemma session_got_less:
  assumes "inv N i j B s" and "received s" and "i < M"
  shows "j < M"
proof -
  have "N * Suc j \<le> N * Suc i" using behind [OF assms(1)] fetched [OF assms(1,2)] by simp
  then show ?thesis using positive [OF assms(1)] assms(3) by (simp del: mult_Suc_right)
qed

lemma session_inv_step:
  assumes "session_inv inv s" and "session_step step sent received next_send next_recv fetch s s'"
  shows "session_inv inv s'"
proof -
  let ?g = "se_sys s" and ?B = "nth (concat (se_msgs s))" and ?j = "length (se_got s)"
  obtain N i where g: "inv N i ?j ?B ?g" and i: "se_next s = Suc i" "i < length (se_msgs s)"
    and m: "\<forall>m \<in> set (se_msgs s). length m = N" "se_got s = take ?j (se_msgs s)"
    using assms(1) by (auto simp: session_inv_def)
  note con = concat_same_length(3) [OF m(1)]
  from assms(2) show ?thesis
  proof cases
    case (session_call g')
    then show ?thesis using inv_step [OF g session_call(2)] i m by (intro session_invI) auto
  next
    case session_send
    let ?m = "se_msgs s ! Suc i"
    have "length ?m = N" "\<forall>k < N. ?m ! k = ?B (N * Suc i + k)"
      using session_send(3) m(1) con [of "Suc i"] i(1) by simp_all
    from send_next [OF g session_send(2) this] show ?thesis
      using session_send(3) i m unfolding session_send(1) by (intro session_invI) auto
  next
    case session_recv
    have j: "?j < length (se_msgs s)" by (rule session_got_less [OF g session_recv(2) i(2)])
    have "fetch ?g = se_msgs s ! ?j"
      using fetched [OF g session_recv(2)] current_nth [OF g] con [OF j] m(1) j by (intro nth_equalityI) auto
    then have "se_got s @ [fetch ?g] = take (Suc ?j) (se_msgs s)"
      using m(2) j by (metis take_Suc_conv_app_nth)
    then show ?thesis
      using recv_next [OF g session_recv(2)] i m j unfolding session_recv(1) by (intro session_invI) auto
  qed
qed

lemma session_inv_prefix:
  assumes "session_inv inv s"
  shows "prefix (session_delivered current s) (session_stream s)"
proof -
  let ?g = "se_sys s" and ?ms = "se_msgs s" and ?j = "length (se_got s)"
  obtain N i where g: "inv N i ?j (nth (concat ?ms)) ?g" and i: "i < length ?ms"
    and m: "\<forall>m \<in> set ?ms. length m = N" "se_got s = take ?j ?ms"
    using assms by (auto simp: session_inv_def)
  have "N * ?j + length (current ?g) \<le> N * length ?ms"
    using behind [OF g] mult_le_mono2 [of "Suc i" "length ?ms" N] i by linarith
  then have le: "N * ?j + length (current ?g) \<le> length (concat ?ms)" using concat_same_length(1) [OF m(1)] by simp
  have "concat (se_got s) = take (N * ?j) (concat ?ms)"
    using concat_same_length(2) [OF m(1), of ?j] m(2) by simp
  moreover have "current ?g = take (length (current ?g)) (drop (N * ?j) (concat ?ms))"
    using current_nth [OF g] le by (intro nth_equalityI) auto
  ultimately have "session_delivered current s = take (N * ?j + length (current ?g)) (concat ?ms)"
    by (simp add: session_delivered_def take_add)
  then show ?thesis by (simp add: session_stream_def take_is_prefix)
qed

lemma session_inv_received:
  assumes "session_inv inv s" and "session_received s"
  shows "session_delivered current s = session_stream s"
  using session_inv_prefix [OF assms(1)] assms(2)
  by (auto simp: session_delivered_def session_stream_def session_received_def prefix_def)

lemma session_progress:
  assumes "session_inv inv s" and "\<not> session_done sent s"
  shows "\<exists>t. session_step step sent received next_send next_recv fetch s t \<and>
    session_work work call_work t < session_work work call_work s"
proof -
  let ?g = "se_sys s" and ?M = "length (se_msgs s)" and ?j = "length (se_got s)"
  obtain N i where g: "inv N i ?j (nth (concat (se_msgs s))) ?g" and i: "se_next s = Suc i" "i < ?M"
    and m: "\<forall>m \<in> set (se_msgs s). length m = N" "se_got s = take ?j (se_msgs s)"
    using assms(1) by (auto simp: session_inv_def)
  have "se_msgs s ! 0 \<in> set (se_msgs s)" using i(2) by (intro nth_mem) linarith
  then have N: "length (se_msgs s ! 0) = N" using m(1) by blast
  consider (snd) "sent ?g" "se_next s < ?M" | (rcv) "received ?g" | (call) "\<not> received ?g" "\<not> (sent ?g \<and> i < ?j)"
  proof -
    have "se_got s = se_msgs s" if "i < ?j" "Suc i = ?M" using that m(2) by simp
    then show ?thesis using that i assms(2) unfolding session_done_def by (metis Suc_lessI)
  qed
  then show ?thesis
  proof cases
    case snd
    let ?s = "s\<lparr>se_sys := next_send (se_msgs s ! se_next s) ?g, se_next := Suc (se_next s)\<rparr>"
    obtain d where "?M - se_next s = Suc d" "?M - Suc (se_next s) = d" using snd(2) by (metis Suc_diff_Suc)
    then have "session_work work call_work ?s < session_work work call_work s"
      using send_work [OF g snd(1), of "se_msgs s ! se_next s"] N
      by (simp add: session_work_def less_rank(1) del: mult_Suc add_Suc mult_Suc_right Nat.add_diff_assoc Nat.add_diff_assoc2)
    then show ?thesis using session_send [where s = s and sent = sent, OF snd] by blast
  next
    case rcv
    let ?s = "s\<lparr>se_sys := next_recv ?g, se_got := se_got s @ [fetch ?g]\<rparr>"
    obtain d where "?M - ?j = Suc d" "?M - (?j + Suc 0) = d" using session_got_less [OF g rcv i(2)] by (metis Suc_diff_Suc add_Suc_right add_0_right)
    then have "session_work work call_work ?s < session_work work call_work s"
      using recv_work [OF g rcv] N
      by (simp add: session_work_def less_rank(2) del: mult_Suc add_Suc add_Suc_right mult_Suc_right Nat.add_diff_assoc Nat.add_diff_assoc2)
    then show ?thesis using session_recv [where s = s and received = received, OF rcv] by blast
  next
    case call
    from progress [OF g this] obtain g' where "step ?g g'" "work g' < work ?g" by blast
    then show ?thesis
      by (intro exI [of _ "s\<lparr>se_sys := g'\<rparr>"] conjI session_call) (simp_all add: session_work_def)
  qed
qed

end

lemma session_msgs_step: "session_step step sent received next_send next_recv fetch s t \<Longrightarrow> se_msgs t = se_msgs s"
  by (induction rule: session_step.induct) simp_all

lemma session_msgs_steps:
  "steps (session_step step sent received next_send next_recv fetch) s t \<Longrightarrow> se_msgs t = se_msgs s"
  by (induction rule: steps.induct) (simp_all add: session_msgs_step)

sublocale call_transport \<subseteq> session: live_transport "session_init start"
  "session_step step sent received next_send next_recv fetch" "session_inv inv" session_stream
  "session_delivered current" session_received "session_done sent" "session_work work call_work"
proof unfold_locales
  show "session_inv inv s" if "session_init start s" for s using that by (rule session_inv_init)
  show "session_inv inv t" if "session_inv inv s" "session_step step sent received next_send next_recv fetch s t" for s t
    using that by (rule session_inv_step)
  show "session_stream t = session_stream s"
    if "session_inv inv s" "session_step step sent received next_send next_recv fetch s t" for s t
    using that(2) by (simp add: session_stream_def session_msgs_step)
  show "prefix (session_delivered current s) (session_stream s)" if "session_inv inv s" for s
    using that by (rule session_inv_prefix)
  show "session_delivered current s = session_stream s" if "session_inv inv s" "session_received s" for s
    using that by (rule session_inv_received)
  show "session_received s" if "session_inv inv s" "session_done sent s" for s
    using that(2) by (simp add: session_received_def session_done_def)
  show "\<exists>t. session_step step sent received next_send next_recv fetch s t \<and>
      session_work work call_work t < session_work work call_work s"
    if "session_inv inv s" "\<not> session_done sent s" for s
    using that by (rule session_progress)
qed

end
