(* ===== verification/Ivshmem_Ring_Calls.thy ===== *)
theory Ivshmem_Ring_Calls
  imports Ivshmem_Ring Ivshmem_Sessions
begin

text \<open>
  Sequences of calls over the page ring: a sender that calls \<^verbatim>\<open>ivshmem_send_buffer\<close> and a
  receiver that calls \<^verbatim>\<open>ivshmem_recv_buffer\<close> again and again on one channel.  The invariant
  of the ring, with the pages counted over all calls, makes it a \<open>call_transport\<close>.
\<close>

section \<open>The ring as a transport of calls\<close>

text \<open>
  A session starts as the ring does.  The writer programs call again whatever a call
  returned, the reader programs only when it returned 0; both pass the same arguments, the
  writer with the next message in its buffer.
\<close>

definition ring_start :: "nat \<Rightarrow> byte list \<Rightarrow> ring_sys \<Rightarrow> bool" where
  "ring_start N m g \<longleftrightarrow> ring_init g \<and> snd_buf (rs_snd g) = m \<and> unat (snd_size (rs_snd g)) = N"

definition ring_sent :: "ring_sys \<Rightarrow> bool" where
  "ring_sent g \<longleftrightarrow> (case snd_pc (rs_snd g) of Send_ret v \<Rightarrow> True | _ \<Rightarrow> False)"

definition ring_next_send :: "byte list \<Rightarrow> ring_sys \<Rightarrow> ring_sys" where
  "ring_next_send m g = g\<lparr>rs_snd := send_call (snd_key (rs_snd g)) m (snd_size (rs_snd g))\<rparr>"

definition ring_next_recv :: "ring_sys \<Rightarrow> ring_sys" where
  "ring_next_recv g = g\<lparr>rs_rcv := recv_call (rcv_key (rs_rcv g)) (rcv_buf (rs_rcv g)) (rcv_size (rs_rcv g))\<rparr>"

definition ring_fetch :: "ring_sys \<Rightarrow> byte list" where
  "ring_fetch g = take (unat (rcv_size (rs_rcv g))) (rcv_buf (rs_rcv g))"

definition ring_calls_inv :: "nat \<Rightarrow> nat \<Rightarrow> nat \<Rightarrow> (nat \<Rightarrow> byte) \<Rightarrow> ring_sys \<Rightarrow> bool" where
  "ring_calls_inv N i j B g \<longleftrightarrow>
     (\<exists>c off n h0 K. N = 4096 * K \<and> ring_inv_at c off n h0 (K * i) (K * j) K B g)"

abbreviation ring_session_step :: "ring_sys session \<Rightarrow> ring_sys session \<Rightarrow> bool" where
  "ring_session_step \<equiv> session_step ring_step ring_sent ring_received ring_next_send ring_next_recv ring_fetch"

section \<open>The laws\<close>

lemma recv_inv_behind:
  assumes "recv_inv c off n h0 r0 K ps B r" and "rcv_pages r0 r \<le> ps"
  shows "4096 * r0 + rcv_progress r \<le> 4096 * ps"
proof -
  obtain b where b: "r0 \<le> b" "rcv_received r = 4096 * int (b - r0)" "recv_at off n h0 (r0 + K) ps b (rcv_pc r)"
    using assms by (auto simp: recv_inv_def)
  then show ?thesis
    using assms(2) by (auto simp: rcv_progress_def rcv_pages_def recv_at_def split: recv_pc.splits)
qed

lemma recv_inv_empty:
  assumes "recv_inv c off n h0 r0 K ps B r" and "rcv_pc r = Recv_empty"
  shows "rcv_pages r0 r < r0 + K"
  using assms by (auto simp: recv_inv_def recv_at_def rcv_pages_def)

lemma ring_inv_parts:
  assumes "ring_inv_at c off n h0 s0 r0 K B g"
  shows "shm_static c (snd_key (rs_snd g)) (rcv_key (rs_rcv g)) (rs_shm g)"
    and "send_inv c off n h0 s0 K (rcv_pages r0 (rs_rcv g)) B (shm_data (rs_shm g)) (rs_snd g)"
    and "recv_inv c off n h0 r0 K (snd_pages s0 (rs_snd g)) B (rs_rcv g)"
    and "ring_view off n h0 (snd_pages s0 (rs_snd g)) (rcv_pages r0 (rs_rcv g)) B (chan_at (rs_shm g) c) (shm_data (rs_shm g))"
    and "rcv_pages r0 (rs_rcv g) \<le> snd_pages s0 (rs_snd g)"
    and "unat (snd_size (rs_snd g)) = 4096 * K" and "unat (rcv_size (rs_rcv g)) = 4096 * K" and "0 < K"
  using assms by (auto simp: ring_inv_at_def Let_def ring_view_def send_inv_def recv_inv_def)

lemma ring_start_inv:
  assumes "ring_start N m g" and "length m = N" and "\<forall>k < N. m ! k = B k"
  shows "ring_calls_inv N 0 0 B g"
proof -
  have i: "ring_init g" "snd_buf (rs_snd g) = m" "unat (snd_size (rs_snd g)) = N" using assms(1) by (auto simp: ring_start_def)
  obtain c off n h0 K where g: "ring_inv_at c off n h0 0 0 K (nth m) g"
    using ring_inv_init [OF i(1)] i(2) by (auto simp: ring_inv_def)
  then have "N = 4096 * K" using i(3) by (auto simp: ring_inv_at_def Let_def send_inv_def)
  moreover have "rcv_pc (rs_rcv g) = Recv_find" "snd_pc (rs_snd g) = Send_find" "rcv_received (rs_rcv g) = 0" "snd_sent (rs_snd g) = 0"
    using i(1) by (simp_all add: ring_init_def Let_def send_call_iff recv_call_iff)
  ultimately have "ring_inv_at c off n h0 0 0 K B g"
    using g i(2) assms(3) unfolding ring_inv_at_def Let_def send_inv_def recv_inv_def ring_view_def
    by (simp add: rcv_progress_def snd_pages_def rcv_pages_def send_at_def recv_at_def)
  then show ?thesis using \<open>N = 4096 * K\<close> unfolding ring_calls_inv_def by fastforce
qed

lemma ring_next_send_inv:
  assumes inv: "ring_inv_at c off n h0 s0 r0 K B g" and "ring_sent g"
    and "4096 * K \<le> length m" and "\<forall>i < 4096 * K. m ! i = B (4096 * (s0 + K) + i)"
  shows "ring_inv_at c off n h0 (s0 + K) r0 K B (ring_next_send m g)"
proof -
  note i = ring_inv_parts [OF inv]
  have "snd_pages s0 (rs_snd g) = s0 + K"
    using send_inv_pages(3) [OF i(2)] assms(2) by (auto simp: ring_sent_def split: send_pc.splits)
  then have p: "snd_pages (s0 + K) (send_call k m sz) = snd_pages s0 (rs_snd g)" for k sz
    by (simp add: snd_pages_def send_call_def)
  show ?thesis
    using i(1-4) assms(3,4) unfolding ring_inv_at_def Let_def send_inv_def ring_next_send_def
    by (simp add: p) (auto simp: send_call_def send_at_def)
qed

lemma ring_next_recv_inv:
  assumes inv: "ring_inv_at c off n h0 s0 r0 K B g" and "ring_received g"
  shows "ring_inv_at c off n h0 s0 (r0 + K) K B (ring_next_recv g)"
proof -
  note i = ring_inv_parts [OF inv]
  have "rcv_pages r0 (rs_rcv g) = r0 + K" using recv_inv_taken(4) [OF i(3)] assms(2) by (simp add: ring_received_def)
  then have p: "rcv_pages (r0 + K) (recv_call k b sz) = rcv_pages r0 (rs_rcv g)" for k b sz
    by (simp add: rcv_pages_def recv_call_def)
  show ?thesis
    using i(1-4) unfolding ring_inv_at_def Let_def recv_inv_def ring_next_recv_def
    by (simp add: p) (auto simp: recv_call_def recv_at_def rcv_progress_def)
qed

lemma ring_calls_progress:
  assumes inv: "ring_inv_at c off n h0 (K * i) (K * j) K B g" and "\<not> ring_received g" and "\<not> (ring_sent g \<and> i < j)"
  shows "\<exists>t. ring_step g t \<and> ring_work t < ring_work g"
proof (rule ring_progress_at [OF inv])
  note p = ring_inv_parts [OF inv]
  show "\<not> (rcv_pc (rs_rcv g) = Recv_ret 0 \<and>
      (snd_pc (rs_snd g) = Send_ret 0 \<or> rcv_pages (K * j) (rs_rcv g) < snd_pages (K * i) (rs_snd g)))"
    using assms(2) by (simp add: ring_received_def)
  show "\<not> (snd_pc (rs_snd g) = Send_ret 0 \<and> rcv_pc (rs_rcv g) = Recv_empty \<and>
      rcv_pages (K * j) (rs_rcv g) = snd_pages (K * i) (rs_snd g))"
  proof (intro notI, elim conjE)
    assume e: "snd_pc (rs_snd g) = Send_ret 0" "rcv_pc (rs_rcv g) = Recv_empty"
      "rcv_pages (K * j) (rs_rcv g) = snd_pages (K * i) (rs_snd g)"
    have "K * i + K < K * j + K"
      using send_inv_pages(3) [OF p(2) e(1)] recv_inv_empty [OF p(3) e(2)] e(3) by simp
    then show False using assms(3) e(1) by (simp add: ring_sent_def)
  qed
qed

interpretation ring_calls: call_transport ring_step ring_start ring_calls_inv ring_sent ring_received ring_next_send
  ring_next_recv ring_fetch ring_delivered ring_work "\<lambda>N. N div 4096 * 5000 + 4200"
proof unfold_locales
  show "ring_calls_inv N 0 0 B g" if "ring_start N m g" "length m = N" "\<forall>k < N. m ! k = B k" for N m g B
    using that by (rule ring_start_inv)
  show "ring_calls_inv N i j B h" if "ring_calls_inv N i j B g" "ring_step g h" for N i j B g h
    using that ring_inv_step unfolding ring_calls_inv_def by metis
  show "ring_calls_inv N (Suc i) j B (ring_next_send m g)"
    if inv: "ring_calls_inv N i j B g" and "ring_sent g" "length m = N" "\<forall>k < N. m ! k = B (N * Suc i + k)" for N i j B g m
  proof -
    obtain c off n h0 K where K: "N = 4096 * K" "ring_inv_at c off n h0 (K * i) (K * j) K B g"
      using inv by (auto simp: ring_calls_inv_def)
    have "\<forall>k < 4096 * K. m ! k = B (4096 * (K * i + K) + k)" using that(4) K(1) by (simp add: algebra_simps)
    from ring_next_send_inv [OF K(2) that(2) _ this] have "ring_inv_at c off n h0 (K * Suc i) (K * j) K B (ring_next_send m g)"
      using that(3) K(1) by (simp add: add.commute)
    then show ?thesis using K(1) unfolding ring_calls_inv_def by blast
  qed
  show "ring_calls_inv N i (Suc j) B (ring_next_recv g)" if inv: "ring_calls_inv N i j B g" and "ring_received g" for N i j B g
  proof -
    obtain c off n h0 K where K: "N = 4096 * K" "ring_inv_at c off n h0 (K * i) (K * j) K B g"
      using inv by (auto simp: ring_calls_inv_def)
    from ring_next_recv_inv [OF K(2) that(2)] have "ring_inv_at c off n h0 (K * i) (K * Suc j) K B (ring_next_recv g)"
      by (simp add: add.commute)
    then show ?thesis using K(1) unfolding ring_calls_inv_def by blast
  qed
  fix N i j B g
  assume "ring_calls_inv N i j B g"
  then obtain c off n h0 K where K: "N = 4096 * K" "ring_inv_at c off n h0 (K * i) (K * j) K B g"
    by (auto simp: ring_calls_inv_def)
  note p = ring_inv_parts [OF K(2)]
  note t = recv_inv_taken [OF p(3)]
  have len: "length (ring_delivered g) = rcv_progress (rs_rcv g)" using t(1,2) by (simp add: ring_delivered_def)
  show "0 < N" using K(1) p(8) by simp
  show "N * j + length (ring_delivered g) \<le> N * Suc i"
    using order_trans [OF recv_inv_behind [OF p(3,5)] mult_le_mono2 [OF send_inv_pages(2) [OF p(2)]]] len K(1)
    by (simp add: algebra_simps)
  show "ring_delivered g ! k = B (N * j + k)" if "k < length (ring_delivered g)" for k
    using that t(3) len K(1) by (simp add: ring_delivered_def mult.assoc)
  show "length (ring_delivered g) = N \<and> ring_fetch g = ring_delivered g" if "ring_received g"
    using that t(4) len K(1) p(7) by (simp add: ring_received_def ring_fetch_def ring_delivered_def)
  show "\<exists>h. ring_step g h \<and> ring_work h < ring_work g" if "\<not> ring_received g" "\<not> (ring_sent g \<and> i < j)"
    using that by (rule ring_calls_progress [OF K(2)])
  show "ring_work (ring_next_send m g) \<le> ring_work g + (N div 4096 * 5000 + 4200)" if "ring_sent g" for m
    using K(1) p(6) by (simp add: ring_work_def ring_next_send_def send_work_def send_call_def)
  show "ring_work (ring_next_recv g) \<le> ring_work g + (N div 4096 * 5000 + 4200)" if "ring_received g"
    using K(1) p(7) by (simp add: ring_work_def ring_next_recv_def recv_work_def recv_call_def)
qed

lemma ring_calls_returns:
  assumes "session_inv ring_calls_inv s"
  shows "snd_pc (rs_snd (se_sys s)) = Send_ret v \<Longrightarrow> v = 0" and "rcv_pc (rs_rcv (se_sys s)) = Recv_ret v \<Longrightarrow> v = 0"
    and "snd_pc (rs_snd (se_sys s)) \<noteq> Send_fault e" and "rcv_pc (rs_rcv (se_sys s)) \<noteq> Recv_fault e"
    and "se_got s = take (length (se_got s)) (se_msgs s)"
  using assms
  by (auto simp: session_inv_def ring_calls_inv_def ring_inv_at_def Let_def send_inv_def recv_inv_def send_at_def recv_at_def)

text \<open>Two messages of two pages on the second channel of \<open>demo_shm\<close>.\<close>

definition session_demo :: "ring_sys session" where
  "session_demo =
     \<lparr>se_sys = ring_demo, se_msgs = [replicate 8192 7, replicate 8192 9], se_next = 1, se_got = []\<rparr>"

lemma session_demo_init: "session_init ring_start session_demo"
  using ring_demo_init
  by (simp add: session_init_def session_demo_def ring_start_def) (simp add: ring_demo_def send_call_def)

section \<open>Properties\<close>

text \<open>
  Safety of the page ring over whole sessions. Whatever the interleaving of a sender
  that sends one message after the other and a receiver that fetches one after the other
  (same size, at least two whole pages), the messages received are the first messages sent,
  what the receiver has of the current one continues them, every call that returns returns
  0, and no access is out of bounds.
\<close>

theorem session_delivery:
  assumes "reach (session_init ring_start) ring_session_step s"
  shows "se_got s = take (length (se_got s)) (se_msgs s) \<and>
    prefix (concat (se_got s) @ ring_delivered (se_sys s)) (concat (se_msgs s)) \<and>
    (\<forall>v. snd_pc (rs_snd (se_sys s)) = Send_ret v \<or> rcv_pc (rs_rcv (se_sys s)) = Recv_ret v \<longrightarrow> v = 0) \<and>
    (\<forall>e. snd_pc (rs_snd (se_sys s)) \<noteq> Send_fault e \<and> rcv_pc (rs_rcv (se_sys s)) \<noteq> Recv_fault e)"
  using ring_calls_returns [OF ring_calls.session.reach_inv [OF assms]] ring_calls.session.reach_prefix [OF assms]
  by (auto simp: session_stream_def session_delivered_def)

theorem session_delivery_witness:
  "prefix (ring_delivered (se_sys session_demo)) (replicate 8192 7 @ replicate 8192 9) \<and>
   snd_pc (rs_snd (se_sys session_demo)) \<noteq> Send_fault OutOfBounds"
  using session_delivery [OF reach_init [where init = "session_init ring_start", OF session_demo_init]] by (simp add: session_demo_def)

text \<open>
  Liveness of the page ring over whole sessions. From every reachable state some
  schedule lets the receiver get all messages of the session and the sender's last call
  return 0, however the ring fills up and empties on the way.
\<close>

theorem session_completes:
  assumes "reach (session_init ring_start) ring_session_step s"
  shows "\<exists>t. steps ring_session_step s t \<and> se_got t = se_msgs s \<and> se_next t = length (se_msgs s) \<and>
    ring_sent (se_sys t)"
  using ring_calls.session.reach_can_finish [OF assms] session_msgs_steps by (fastforce simp: session_done_def)

theorem session_completes_witness:
  "\<exists>t. steps ring_session_step session_demo t \<and> se_got t = [replicate 8192 7, replicate 8192 9]"
proof -
  obtain t where "steps ring_session_step session_demo t" "se_got t = se_msgs session_demo"
    using session_completes [OF reach_init [where init = "session_init ring_start", OF session_demo_init]] by blast
  then show ?thesis by (auto simp: session_demo_def)
qed

end
