(* ===== verification/Ivshmem_Tenants.thy ===== *)
theory Ivshmem_Tenants
  imports Ivshmem_Calm Ivshmem_Ring_Calls
begin

text \<open>
  A pair of a sender and a receiver among others: the pair exchanges messages over its
  channel while any number of other calls work on other channels and the trusted program
  serves requests.  What the others may do to the shared memory is the relation
  \<open>channel_rely\<close>: they leave the channel and its buffer alone.  The invariant of the ring is
  stable under it, so the pair is a \<open>call_transport\<close> among the others too.

  The rebalancing timer fires too, in two situations: when the channels already have their
  sizes, and when no copy is in progress and the pair's ring is empty.  (Outside them it
  moves buffers under a running copy or loses pages, see \<open>Ivshmem_World\<close> and
  \<open>Ivshmem_Trusted\<close>.)
\<close>

section \<open>The system\<close>

record tenants =
  te_snd :: sender
  te_rcv :: receiver
  te_world :: world

definition te_pair :: "tenants \<Rightarrow> ring_sys" where
  "te_pair s = \<lparr>rs_snd = te_snd s, rs_rcv = te_rcv s, rs_shm = w_shm (te_world s)\<rparr>"

definition te_with :: "tenants \<Rightarrow> ring_sys \<Rightarrow> tenants" where
  "te_with s g = s\<lparr>te_snd := rs_snd g, te_rcv := rs_rcv g, te_world := (te_world s)\<lparr>w_shm := rs_shm g\<rparr>\<rparr>"

text \<open>All calls together, as a state of the world.\<close>

definition te_whole :: "tenants \<Rightarrow> world" where
  "te_whole s =
     \<lparr>w_shm = w_shm (te_world s), w_senders = te_snd s # w_senders (te_world s), w_receivers = te_rcv s # w_receivers (te_world s)\<rparr>"

text \<open>The keys of the other calls, unless they are over, do not match the channel that the pair uses.\<close>

definition send_over :: "send_pc \<Rightarrow> bool" where
  "send_over pc \<longleftrightarrow> (case pc of Send_ret v \<Rightarrow> True | Send_fault e \<Rightarrow> True | _ \<Rightarrow> False)"

definition recv_over :: "recv_pc \<Rightarrow> bool" where
  "recv_over pc \<longleftrightarrow> (case pc of Recv_ret v \<Rightarrow> True | Recv_fault e \<Rightarrow> True | _ \<Rightarrow> False)"

definition foreign_world :: "channel_key \<Rightarrow> world \<Rightarrow> bool" where
  "foreign_world ck w \<longleftrightarrow>
     (\<forall>t \<in> set (w_senders w). send_over (snd_pc t) \<or> \<not> key_matches (snd_key t) ck) \<and>
     (\<forall>r \<in> set (w_receivers w). recv_over (rcv_pc r) \<or> \<not> key_matches (rcv_key r) ck)"

definition te_foreign :: "tenants \<Rightarrow> bool" where
  "te_foreign s \<longleftrightarrow>
     (\<forall>c. ivshmem_find_channel (ctrl (w_shm (te_world s))) (snd_key (te_snd s)) = Inr (Some c) \<longrightarrow>
        foreign_world (chan_key (chan_at (w_shm (te_world s)) c)) (te_world s))"

text \<open>A rebalancing that moves the buffers does not disturb the pair in such a state.\<close>

definition te_calm :: "tenants \<Rightarrow> bool" where
  "te_calm s \<longleftrightarrow>
     no_copy (te_whole s) \<and> snd_pc (te_snd s) \<noteq> Send_head \<and>
     (\<forall>c. ivshmem_find_channel (ctrl (w_shm (te_world s))) (snd_key (te_snd s)) = Inr (Some c) \<longrightarrow>
        head (chan_at (w_shm (te_world s)) c) = tail (chan_at (w_shm (te_world s)) c))"

inductive tenants_step :: "tenants \<Rightarrow> tenants \<Rightarrow> bool" where
  tenants_pair: "ring_step (te_pair s) g \<Longrightarrow> tenants_step s (te_with s g)"
| tenants_others: "world_step False (te_world s) w \<Longrightarrow> te_foreign (s\<lparr>te_world := w\<rparr>) \<Longrightarrow>
    tenants_step s (s\<lparr>te_world := w\<rparr>)"
| tenants_rebalance: "te_calm s \<and> ok \<or> balanced (ctrl (w_shm (te_world s))) \<Longrightarrow>
    trusted_event_step ok now Rb_timer (w_shm (te_world s)) = Inr sh \<Longrightarrow>
    tenants_step s (te_with s ((te_pair s)\<lparr>rs_shm := sh\<rparr>))"

definition tenants_start :: "nat \<Rightarrow> byte list \<Rightarrow> tenants \<Rightarrow> bool" where
  "tenants_start N m s \<longleftrightarrow>
     ring_start N m (te_pair s) \<and> reach world_init calm_step (te_world s) \<and> te_foreign s"

definition tenants_inv :: "nat \<Rightarrow> nat \<Rightarrow> nat \<Rightarrow> (nat \<Rightarrow> byte) \<Rightarrow> tenants \<Rightarrow> bool" where
  "tenants_inv N i j B s \<longleftrightarrow> ring_calls_inv N i j B (te_pair s) \<and> world_inv False (te_whole s) \<and> te_foreign s"

definition tenants_next_send :: "byte list \<Rightarrow> tenants \<Rightarrow> tenants" where
  "tenants_next_send m s = te_with s (ring_next_send m (te_pair s))"

definition tenants_next_recv :: "tenants \<Rightarrow> tenants" where
  "tenants_next_recv s = te_with s (ring_next_recv (te_pair s))"

abbreviation tenants_session_step :: "tenants session \<Rightarrow> tenants session \<Rightarrow> bool" where
  "tenants_session_step \<equiv> session_step tenants_step (ring_sent \<circ> te_pair) (ring_received \<circ> te_pair) tenants_next_send
     tenants_next_recv (ring_fetch \<circ> te_pair)"

section \<open>What the others may change\<close>

definition channel_rely :: "nat \<Rightarrow> shm \<Rightarrow> shm \<Rightarrow> bool" where
  "channel_rely c sh sh' \<longleftrightarrow>
     wf_ctrl (ctrl sh') \<and> grows (ctrl sh) (ctrl sh') \<and> (control_mutex (ctrl sh) = 0 \<longrightarrow> control_mutex (ctrl sh') = 0) \<and>
     chan_at sh' c = chan_at sh c \<and> (\<forall>a. in_buffer a (chan_at sh c) \<longrightarrow> shm_data sh' a = shm_data sh a)"

lemma find_channel_grows:
  assumes "wf_ctrl cs" and "wf_ctrl cs'" and "grows cs cs'" and "ivshmem_find_channel cs k = Inr (Some c)"
  shows "ivshmem_find_channel cs' k = Inr (Some c)"
proof -
  have le: "num_active_channels cs \<le> int (length (channels cs))" "num_active_channels cs' \<le> int (length (channels cs'))"
    using assms(1,2) by (simp_all add: wf_ctrl_def)
  from le(1) have c: "int c < num_active_channels cs" "key_matches k (chan_key (channels cs ! c))"
    "\<And>j. j < c \<Longrightarrow> \<not> key_matches k (chan_key (channels cs ! j))"
    using assms(4) by (cases rule: find_channel_cases [where k = k]; auto)+
  then have c': "int c < num_active_channels cs'" "key_matches k (chan_key (channels cs' ! c))"
    "\<And>j. j < c \<Longrightarrow> \<not> key_matches k (chan_key (channels cs' ! j))"
    using assms(3) by (auto simp: grows_def)
  from le(2) show ?thesis
  proof (cases rule: find_channel_cases [where k = k])
    case (found d)
    then have "d = c" using c'(2,3) by (metis linorder_neqE_nat)
    then show ?thesis using found(1) by simp
  qed (use c' in auto)
qed

lemma send_step_touches:
  assumes "ivshmem_send_step now t sh = (t', sh')" and "send_running (snd_pc t) \<longrightarrow> snd_chan t \<noteq> c"
  shows "chan_at sh' c = chan_at sh c" and "control_mutex (ctrl sh') = control_mutex (ctrl sh)"
proof -
  have up: "chan_at (upd_channel d f sh) c = chan_at sh c" if "d \<noteq> c" for d f
    using that by (simp add: upd_channel_def)
  show "chan_at sh' c = chan_at sh c"
    using assms up by (cases "snd_pc t"; auto simp: ivshmem_send_step_def in_request_def request_channel_step_def
        send_loop_step_def send_copy_step_def Let_def split: if_splits sum.splits option.splits)
  show "control_mutex (ctrl sh') = control_mutex (ctrl sh)"
    using assms(1) by (cases "snd_pc t"; auto simp: ivshmem_send_step_def in_request_def request_channel_step_def
        send_loop_step_def send_copy_step_def Let_def split: if_splits sum.splits option.splits)
qed

lemma recv_step_touches:
  assumes "ivshmem_recv_step r sh = (r', sh')" and "recv_running (rcv_pc r) \<longrightarrow> rcv_chan r \<noteq> c"
  shows "chan_at sh' c = chan_at sh c" and "control_mutex (ctrl sh') = control_mutex (ctrl sh)"
proof -
  have up: "chan_at (upd_channel d f sh) c = chan_at sh c" if "d \<noteq> c" for d f
    using that by (simp add: upd_channel_def)
  show "chan_at sh' c = chan_at sh c"
    using assms up by (cases "rcv_pc r"; auto simp: ivshmem_recv_step_def recv_loop_step_def recv_copy_step_def Let_def
        split: if_splits sum.splits option.splits)
  show "control_mutex (ctrl sh') = control_mutex (ctrl sh)"
    using assms(1) by (cases "rcv_pc r"; auto simp: ivshmem_recv_step_def recv_loop_step_def recv_copy_step_def Let_def
        split: if_splits sum.splits option.splits)
qed

lemma trusted_event_touches:
  assumes wf: "wf_ctrl (ctrl sh)" and r: "trusted_event_step ok now ev sh = Inr sh'" and "ev \<noteq> Rb_timer"
    and c: "c < nat (num_active_channels (ctrl sh))"
  shows "chan_at sh' c = chan_at sh c" and "control_mutex (ctrl sh) = 0 \<longrightarrow> control_mutex (ctrl sh') = 0"
proof -
  have "chan_at sh' c = chan_at sh c \<and> (control_mutex (ctrl sh) = 0 \<longrightarrow> control_mutex (ctrl sh') = 0)"
  proof (cases "ev = Ctl_timer \<and> has_channel_candidate (ctrl sh)")
    case True
    have "wf_ctrl ((ctrl sh)\<lparr>control_mutex := 1\<rparr>)" using wf by simp
    then show ?thesis
      by (cases rule: create_channel_cases [where now = now and k = "channel_candidate (ctrl sh)"])
        (use True r c in \<open>auto simp: trusted_event_step_def ivshmem_trusted_control_def ivshmem_check_is_control_requested_def\<close>)
  next
    case False
    then show ?thesis
      using r assms(3)
      by (auto simp: trusted_event_step_def ivshmem_trusted_control_def ivshmem_check_is_control_requested_def
          split: trusted_event.splits)
  qed
  then show "chan_at sh' c = chan_at sh c" "control_mutex (ctrl sh) = 0 \<longrightarrow> control_mutex (ctrl sh') = 0" by simp_all
qed


lemma send_running_not_over: "send_running pc \<Longrightarrow> \<not> send_over pc"
  by (cases pc) (simp_all add: send_over_def)

lemma recv_running_not_over: "recv_running pc \<Longrightarrow> \<not> recv_over pc"
  by (cases pc) (simp_all add: recv_over_def)

lemma others_rely:
  assumes inv: "world_inv False w" and step: "world_step False w w'"
    and c: "c < nat (num_active_channels (ctrl (w_shm w)))" and foreign: "foreign_world (chan_key (chan_at (w_shm w) c)) w"
  shows "channel_rely c (w_shm w) (w_shm w')"
proof -
  let ?cs = "ctrl (w_shm w)"
  have wf: "wf_ctrl ?cs" using inv by (simp add: world_inv_def Let_def)
  have "wf_ctrl (ctrl (w_shm w'))" using world_inv_step [OF inv step] by (simp add: world_inv_def Let_def)
  moreover have "grows ?cs (ctrl (w_shm w'))" by (rule world_step_grows [OF inv step])
  moreover have "shm_data (w_shm w') a = shm_data (w_shm w) a" if "in_buffer a (chan_at (w_shm w) c)" for a
  proof (rule ccontr)
    assume "shm_data (w_shm w') a \<noteq> shm_data (w_shm w) a"
    from data_change_owner [OF inv step this] obtain t d where d: "t \<in> set (w_senders w)" "send_running (snd_pc t)"
      "d < nat (num_active_channels ?cs)" "in_buffer a (chan_at (w_shm w) d)" "key_matches (snd_key t) (chan_key (chan_at (w_shm w) d))"
      by blast
    then have "d = c" using in_buffer_unique [OF wf d(3) c d(4) that] by simp
    then show False using d(1,2,5) foreign send_running_not_over by (auto simp: foreign_world_def)
  qed
  moreover have "chan_at (w_shm w') c = chan_at (w_shm w) c \<and> (control_mutex ?cs = 0 \<longrightarrow> control_mutex (ctrl (w_shm w')) = 0)"
    using step
  proof cases
    case (world_send i now t sh)
    let ?t = "w_senders w ! i"
    have "?t \<in> set (w_senders w)" using world_send(2) by simp
    then have "send_running (snd_pc ?t) \<longrightarrow> snd_chan ?t \<noteq> c"
      using inv foreign send_running_not_over by (auto simp: world_inv_def Let_def sender_ok_def foreign_world_def)
    from send_step_touches [OF world_send(3) this] show ?thesis unfolding world_send(1) by simp
  next
    case (world_recv i r sh)
    let ?r = "w_receivers w ! i"
    have "?r \<in> set (w_receivers w)" using world_recv(2) by simp
    then have "recv_running (rcv_pc ?r) \<longrightarrow> rcv_chan ?r \<noteq> c"
      using inv foreign recv_running_not_over by (auto simp: world_inv_def Let_def receiver_ok_def foreign_world_def)
    from recv_step_touches [OF world_recv(3) this] show ?thesis unfolding world_recv(1) by simp
  next
    case (world_trusted ev ok now sh)
    then show ?thesis using trusted_event_touches [OF wf world_trusted(3) _ c] by auto
  qed simp_all
  ultimately show ?thesis by (simp add: channel_rely_def)
qed

section \<open>The ring is stable\<close>

lemma slot_in_buffer:
  assumes "wf_channel ch" and "unat (buf_offset ch) = off" and "nat (num_page ch) = n" and "i < 4096"
  shows "in_buffer (slot off n p + i) ch"
proof -
  have n: "0 < n" using assms(1,3) by (auto simp: wf_channel_def)
  have "slot off n p + 4096 \<le> off + 4096 * n" by (rule slot_bound [OF n order_refl])
  moreover have "unat (buf_size ch) = 4096 * n" using assms(1,3) by (simp add: wf_channel_def)
  ultimately show ?thesis using assms(2,4) by (simp add: in_buffer_def slot_def)
qed

lemma shm_static_stable:
  assumes "shm_static c ks kr sh" and "channel_rely c sh sh'"
  shows "shm_static c ks kr sh'"
proof -
  have s: "wf_ctrl (ctrl sh)" "c < nat (num_active_channels (ctrl sh))" "control_mutex (ctrl sh) = 0"
    "ivshmem_find_channel (ctrl sh) ks = Inr (Some c)" "ivshmem_find_channel (ctrl sh) kr = Inr (Some c)"
    using assms(1) by (simp_all add: shm_static_def)
  have r: "wf_ctrl (ctrl sh')" "grows (ctrl sh) (ctrl sh')" "control_mutex (ctrl sh') = 0"
    using assms(2) s(3) by (simp_all add: channel_rely_def)
  have "c < nat (num_active_channels (ctrl sh'))" using s(2) r(2) by (auto simp: grows_def)
  then show ?thesis
    using r(1,3) find_channel_grows [OF s(1) r(1,2) s(4)] find_channel_grows [OF s(1) r(1,2) s(5)] by (simp add: shm_static_def)
qed

lemma send_at_stable:
  assumes "send_at off n h0 E pr d a B pc" and "\<And>p i. i < 4096 \<Longrightarrow> d' (slot off n p + i) = d (slot off n p + i)"
  shows "send_at off n h0 E pr d' a B pc"
  using assms by (auto simp: send_at_def split: send_pc.splits)

lemma ring_inv_stable:
  assumes inv: "ring_inv_at c off n h0 s0 r0 K B g" and rely: "channel_rely c (rs_shm g) sh'"
  shows "ring_inv_at c off n h0 s0 r0 K B (g\<lparr>rs_shm := sh'\<rparr>)"
proof -
  note i = ring_inv_parts [OF inv]
  let ?ch = "chan_at (rs_shm g) c" and ?d = "shm_data (rs_shm g)"
  have ch: "chan_at sh' c = ?ch" using rely by (simp add: channel_rely_def)
  have v: "unat (buf_offset ?ch) = off" "nat (num_page ?ch) = n" using i(4) by (simp_all add: ring_view_def)
  have d: "shm_data sh' (slot off n p + i) = ?d (slot off n p + i)" if "i < 4096" for p i
    using rely slot_in_buffer [OF shm_static_chan(1) [OF i(1)] v that] by (simp add: channel_rely_def)
  have "send_inv c off n h0 s0 K (rcv_pages r0 (rs_rcv g)) B (shm_data sh') (rs_snd g)"
    using i(2) send_at_stable [where d' = "shm_data sh'" and d = ?d, OF _ d] unfolding send_inv_def by blast
  moreover have "ring_view off n h0 (snd_pages s0 (rs_snd g)) (rcv_pages r0 (rs_rcv g)) B (chan_at sh' c) (shm_data sh')"
    using i(4) d by (simp add: ring_view_def ch)
  ultimately show ?thesis
    using i(3) shm_static_stable [OF i(1) rely] by (simp add: ring_inv_at_def Let_def)
qed

lemma ring_calls_stable:
  assumes "ring_calls_inv N i j B g"
    and "\<And>c. ivshmem_find_channel (ctrl (rs_shm g)) (snd_key (rs_snd g)) = Inr (Some c) \<Longrightarrow>
      c < nat (num_active_channels (ctrl (rs_shm g))) \<Longrightarrow> channel_rely c (rs_shm g) sh'"
  shows "ring_calls_inv N i j B (g\<lparr>rs_shm := sh'\<rparr>)"
proof -
  obtain c off n h0 K where K: "N = 4096 * K" "ring_inv_at c off n h0 (K * i) (K * j) K B g"
    using assms(1) by (auto simp: ring_calls_inv_def)
  then have "channel_rely c (rs_shm g) sh'"
    using assms(2) ring_inv_parts(1) [OF K(2)] by (simp add: shm_static_def)
  from ring_inv_stable [OF K(2) this] K(1) show ?thesis by (auto simp: ring_calls_inv_def)
qed

section \<open>Rebalancing an empty ring\<close>

lemma rebalancing_empty:
  assumes wf: "wf_ctrl cs" and r: "ivshmem_trusted_rebalancing True cs = Inr (ret, cs')" and c: "c < nat (num_active_channels cs)"
  shows "head (channels cs ! c) = tail (channels cs ! c) \<Longrightarrow> head (channels cs' ! c) = tail (channels cs' ! c)"
    and "control_mutex cs' = 0"
proof -
  let ?n = "num_active_channels cs"
  have n: "0 < ?n" using c by simp
  have "(head (channels cs ! c) = tail (channels cs ! c) \<longrightarrow> head (channels cs' ! c) = tail (channels cs' ! c)) \<and> control_mutex cs' = 0"
  proof (cases "rebalance_size ?n = buf_size (channels cs ! 0)")
    case True
    then have "cs' = cs\<lparr>control_mutex := 0\<rparr>" using r n by (simp add: ivshmem_trusted_rebalancing_def Let_def)
    then show ?thesis by simp
  next
    case False
    have len: "length (active cs) = nat ?n" by (rule wf_ctrl_length_active [OF wf])
    let ?chs = "rebalanced (rebalance_num_page ?n) (rebalance_size ?n) 0 (active cs)"
    from rebalancing_eq [OF wf refl n False] r
    have cs': "channels cs' = ?chs @ replicate (IVSHMEM_MAX_CHANNELS - nat ?n) zero_channel" "control_mutex cs' = 0" by auto
    have "channels cs' ! c = ?chs ! c" using c len by (simp add: cs' nth_append length_rebalanced)
    then show ?thesis using rebalanced_nth [of c "active cs"] c len active_nth [of c cs] cs'(2) by simp
  qed
  then show "head (channels cs ! c) = tail (channels cs ! c) \<Longrightarrow> head (channels cs' ! c) = tail (channels cs' ! c)"
    "control_mutex cs' = 0" by blast+
qed

text \<open>
  An empty ring holds no page, so that any place, size and position of head and tail fits the
  same counts of pages, unless one of the two is at work on a page.
\<close>

lemma ring_inv_moved:
  assumes inv: "ring_inv_at c off n h0 s0 r0 K B g"
    and empty: "head (chan_at (rs_shm g) c) = tail (chan_at (rs_shm g) c)"
    and pc: "snd_pc (rs_snd g) \<noteq> Send_head" "\<And>dst j. snd_pc (rs_snd g) \<noteq> Send_copy dst j"
    and st: "shm_static c (snd_key (rs_snd g)) (rcv_key (rs_rcv g)) sh'" and "head (chan_at sh' c) = tail (chan_at sh' c)"
  shows "\<exists>off' n' h0'. ring_inv_at c off' n' h0' s0 r0 K B (g\<lparr>rs_shm := sh'\<rparr>)"
proof -
  note i = ring_inv_parts [OF inv]
  let ?ps = "snd_pages s0 (rs_snd g)" and ?pr = "rcv_pages r0 (rs_rcv g)" and ?ch = "chan_at sh' c"
  have "(h0 + ?ps) mod n = (h0 + ?pr) mod n" "?pr \<le> ?ps" "?ps < ?pr + n" using i(4) empty by (auto simp: ring_view_def)
  then have p: "?ps = ?pr" using mod_neq_window [of "h0 + ?pr" "h0 + ?ps" n] by fastforce
  define n' where "n' = nat (num_page ?ch)"
  define h0' where "h0' = unat (head ?ch) + (n' - 1) * ?pr"
  have ch: "2 \<le> n'" "unat (head ?ch) < n'" using shm_static_chan(1) [OF st] by (auto simp: wf_channel_def n'_def)
  have "h0' + ?pr = unat (head ?ch) + n' * ?pr" using ch(1) by (cases n') (simp_all add: h0'_def)
  then have "(h0' + ?pr) mod n' = unat (head ?ch)" using ch(2) by simp
  then have "ring_view (unat (buf_offset ?ch)) n' h0' ?ps ?pr B ?ch (shm_data sh')"
    using ch assms(6) by (simp add: ring_view_def p n'_def [symmetric]) (intro allI impI, elim conjE, linarith)
  moreover have "send_inv c (unat (buf_offset ?ch)) n' h0' s0 K ?pr B (shm_data sh') (rs_snd g)"
  proof -
    obtain a where a: "s0 \<le> a" "unat (snd_sent (rs_snd g)) = 4096 * (a - s0)" "a \<le> s0 + K"
      "send_at off n h0 (s0 + K) ?pr (shm_data (rs_shm g)) a B (snd_pc (rs_snd g))"
      using i(2) by (auto simp: send_inv_def)
    have "a \<le> ?ps" using a(1,2) by (simp add: snd_pages_def)
    then have "Suc a < ?pr + n'" using p ch(1) by linarith
    then have "send_at (unat (buf_offset ?ch)) n' h0' (s0 + K) ?pr (shm_data sh') a B (snd_pc (rs_snd g))"
      using a(4) pc(1) by (cases "snd_pc (rs_snd g)") (use pc(2) in blast | simp add: send_at_def)+
    then show ?thesis using i(2) a(1-3) unfolding send_inv_def by blast
  qed
  moreover have "recv_inv c (unat (buf_offset ?ch)) n' h0' r0 K ?ps B (rs_rcv g)"
  proof -
    obtain b where b: "r0 \<le> b" "rcv_received (rs_rcv g) = 4096 * int (b - r0)" "b \<le> r0 + K"
      "recv_at off n h0 (r0 + K) ?ps b (rcv_pc (rs_rcv g))"
      using i(3) by (auto simp: recv_inv_def)
    have "rcv_pc (rs_rcv g) \<noteq> Recv_account \<Longrightarrow> ?pr = b" using b(1,2) by (simp add: rcv_pages_def nat_mult_distrib)
    then have "recv_at (unat (buf_offset ?ch)) n' h0' (r0 + K) ?ps b (rcv_pc (rs_rcv g))"
      using b(4) p by (cases "rcv_pc (rs_rcv g)") (simp_all add: recv_at_def)
    then show ?thesis using i(3) b(1-3) unfolding recv_inv_def by blast
  qed
  ultimately show ?thesis using st by (auto simp: ring_inv_at_def Let_def)
qed

section \<open>The pair among the others\<close>

lemma te_simps [simp]:
  "te_pair (te_with s g) = g" "te_pair (s\<lparr>te_world := w\<rparr>) = (te_pair s)\<lparr>rs_shm := w_shm w\<rparr>"
  "rs_shm (te_pair s) = w_shm (te_world s)" "rs_snd (te_pair s) = te_snd s" "rs_rcv (te_pair s) = te_rcv s"
  "w_shm (te_whole s) = w_shm (te_world s)" "w_shm (te_world (te_with s g)) = rs_shm g"
  by (simp_all add: te_pair_def te_with_def te_whole_def)

lemma tenants_pair_world:
  assumes "ring_step (te_pair s) g"
  shows "world_step reb (te_whole s) (te_whole (te_with s g))"
  using assms
proof cases
  case (ring_send now t sh)
  then show ?thesis
    using world_send [where w = "te_whole s" and i = 0 and now = now and t = t and sh = sh and reb = reb]
    by (simp add: te_whole_def te_with_def)
next
  case (ring_recv r sh)
  then show ?thesis
    using world_recv [where w = "te_whole s" and i = 0 and r = r and sh = sh and reb = reb]
    by (simp add: te_whole_def te_with_def)
qed

lemma tenants_others_world:
  assumes "world_step reb (te_world s) w"
  shows "world_step reb (te_whole s) (te_whole (s\<lparr>te_world := w\<rparr>))"
  using assms
proof cases
  case (world_send_call k buf sz)
  then show ?thesis using world_step.world_send_call [where w = "te_whole s" and k = k and buf = buf and sz = sz] by (simp add: te_whole_def)
next
  case (world_recv_call k buf sz)
  then show ?thesis using world_step.world_recv_call [where w = "te_whole s" and k = k and buf = buf and sz = sz] by (simp add: te_whole_def)
next
  case (world_send i now t sh)
  then show ?thesis
    using world_step.world_send [where w = "te_whole s" and i = "Suc i" and now = now and t = t and sh = sh and reb = reb]
    by (simp add: te_whole_def)
next
  case (world_recv i r sh)
  then show ?thesis
    using world_step.world_recv [where w = "te_whole s" and i = "Suc i" and r = r and sh = sh and reb = reb]
    by (simp add: te_whole_def)
next
  case (world_trusted ev ok now sh)
  then show ?thesis
    using world_step.world_trusted [where w = "te_whole s" and ev = ev and ok = ok and now = now and sh = sh and reb = reb]
    by (simp add: te_whole_def)
qed

lemma te_whole_inv:
  assumes "world_inv reb (te_whole s)"
  shows "world_inv reb (te_world s)"
  using assms by (simp add: world_inv_def te_whole_def Let_def)

lemma ring_calls_found:
  assumes "ring_calls_inv N i j B g"
  obtains c where "ivshmem_find_channel (ctrl (rs_shm g)) (snd_key (rs_snd g)) = Inr (Some c)"
    "c < nat (num_active_channels (ctrl (rs_shm g)))" "wf_ctrl (ctrl (rs_shm g))"
  using assms ring_inv_parts(1) by (auto simp: ring_calls_inv_def shm_static_def)

lemma te_foreign_kept:
  assumes f: "te_foreign s" and g: "ring_calls_inv N i j B (te_pair s)" and h: "ring_calls_inv N i j B g"
    and k: "snd_key (rs_snd g) = snd_key (te_snd s)" and grow: "grows (ctrl (w_shm (te_world s))) (ctrl (rs_shm g))"
  shows "te_foreign (te_with s g)"
proof -
  obtain c where c: "ivshmem_find_channel (ctrl (w_shm (te_world s))) (snd_key (te_snd s)) = Inr (Some c)"
    "c < nat (num_active_channels (ctrl (w_shm (te_world s))))" "wf_ctrl (ctrl (w_shm (te_world s)))"
    using ring_calls_found [OF g] by auto
  have "wf_ctrl (ctrl (rs_shm g))" using ring_calls_found [OF h] by blast
  from find_channel_grows [OF c(3) this grow c(1)] show ?thesis
    using f c(1,2) grow k by (simp add: te_foreign_def te_with_def foreign_world_def grows_def)
qed

lemma tenants_inv_pair:
  assumes inv: "tenants_inv N i j B s" and step: "ring_step (te_pair s) g"
  shows "tenants_inv N i j B (te_with s g)"
proof -
  have i: "ring_calls_inv N i j B (te_pair s)" "world_inv False (te_whole s)" "te_foreign s"
    using inv by (simp_all add: tenants_inv_def)
  have h: "ring_calls_inv N i j B g" by (rule ring_calls.inv_step [OF i(1) step])
  have "snd_key (rs_snd g) = snd_key (te_snd s)" using step by cases (simp_all add: send_step_frame(1))
  moreover have "grows (ctrl (w_shm (te_world s))) (ctrl (rs_shm g))"
    using world_step_grows [OF i(2) tenants_pair_world [OF step]] by simp
  ultimately have "te_foreign (te_with s g)" by (rule te_foreign_kept [OF i(3,1) h])
  then show ?thesis
    using h world_inv_step [OF i(2) tenants_pair_world [OF step]] by (simp add: tenants_inv_def)
qed

lemma tenants_inv_others:
  assumes inv: "tenants_inv N i j B s" and step: "world_step False (te_world s) w" and f: "te_foreign (s\<lparr>te_world := w\<rparr>)"
  shows "tenants_inv N i j B (s\<lparr>te_world := w\<rparr>)"
proof -
  have i: "ring_calls_inv N i j B (te_pair s)" "world_inv False (te_whole s)" "te_foreign s"
    using inv by (simp_all add: tenants_inv_def)
  have "channel_rely c (w_shm (te_world s)) (w_shm w)"
    if "ivshmem_find_channel (ctrl (w_shm (te_world s))) (snd_key (te_snd s)) = Inr (Some c)"
      "c < nat (num_active_channels (ctrl (w_shm (te_world s))))" for c
    using others_rely [OF te_whole_inv [OF i(2)] step that(2)] i(3) that(1) by (simp add: te_foreign_def)
  then have "ring_calls_inv N i j B ((te_pair s)\<lparr>rs_shm := w_shm w\<rparr>)"
    by (intro ring_calls_stable [OF i(1)]) simp_all
  then show ?thesis
    using f world_inv_step [OF i(2) tenants_others_world [OF step]] by (simp add: tenants_inv_def)
qed

lemma tenants_inv_rebalance:
  assumes inv: "tenants_inv N i j B s" and calm: "te_calm s \<and> ok \<or> balanced (ctrl (w_shm (te_world s)))"
    and step: "trusted_event_step ok now Rb_timer (w_shm (te_world s)) = Inr sh"
  shows "tenants_inv N i j B (te_with s ((te_pair s)\<lparr>rs_shm := sh\<rparr>))"
proof -
  let ?sh = "w_shm (te_world s)" and ?g = "(te_pair s)\<lparr>rs_shm := sh\<rparr>"
  have i: "ring_calls_inv N i j B (te_pair s)" "world_inv False (te_whole s)" "te_foreign s"
    using inv by (simp_all add: tenants_inv_def)
  obtain c off n h0 K where K: "N = 4096 * K" "ring_inv_at c off n h0 (K * i) (K * j) K B (te_pair s)"
    using i(1) by (auto simp: ring_calls_inv_def)
  have st: "shm_static c (snd_key (te_snd s)) (rcv_key (te_rcv s)) ?sh" using ring_inv_parts(1) [OF K(2)] by simp
  then have wf: "wf_ctrl (ctrl ?sh)" and c: "c < nat (num_active_channels (ctrl ?sh))" "control_mutex (ctrl ?sh) = 0"
    "ivshmem_find_channel (ctrl ?sh) (snd_key (te_snd s)) = Inr (Some c)"
    "ivshmem_find_channel (ctrl ?sh) (rcv_key (te_rcv s)) = Inr (Some c)"
    by (simp_all add: shm_static_def)
  note k = trusted_event_kept [OF wf step]
  obtain ret cs' where r: "ivshmem_trusted_rebalancing ok (ctrl ?sh) = Inr (ret, cs')" "sh = ?sh\<lparr>ctrl := cs'\<rparr>"
    using step by (auto simp: trusted_event_step_def split: sum.splits)
  have "\<exists>off' n' h0'. ring_inv_at c off' n' h0' (K * i) (K * j) K B ?g"
  proof (cases "balanced (ctrl ?sh)")
    case True
    have "cs' = ctrl ?sh \<or> cs' = (ctrl ?sh)\<lparr>control_mutex := 0\<rparr>" by (rule balanced_unmoved [OF wf True r(1)])
    then have "channel_rely c ?sh sh" using wf c(2) r(2) by (elim disjE) (simp_all add: channel_rely_def grows_def)
    then show ?thesis using ring_inv_stable [OF K(2)] by fastforce
  next
    case False
    then have q: "ok" "no_copy (te_whole s)" "snd_pc (te_snd s) \<noteq> Send_head" "head (chan_at ?sh c) = tail (chan_at ?sh c)"
      using calm c(3) by (auto simp: te_calm_def)
    note e = rebalancing_empty [OF wf _ c(1), of ret cs']
    have "\<And>dst j. snd_pc (te_snd s) \<noteq> Send_copy dst j" using q(2) by (simp add: no_copy_def te_whole_def)
    moreover have "shm_static c (snd_key (te_snd s)) (rcv_key (te_rcv s)) sh"
      using k c e(2) r q(1) find_channel_grows [OF wf] by (auto simp: shm_static_def grows_def)
    ultimately show ?thesis
      using ring_inv_moved [OF K(2)] q(1,3,4) e(1) r by simp
  qed
  then have h: "ring_calls_inv N i j B ?g" using K(1) by (auto simp: ring_calls_inv_def)
  have "world_inv False ((te_whole s)\<lparr>w_shm := sh\<rparr>)"
    using calm step by (intro calm_rebalance_inv [OF i(2)]) (auto simp: te_calm_def)
  moreover have "(te_whole s)\<lparr>w_shm := sh\<rparr> = te_whole (te_with s ?g)"
    by (simp add: te_whole_def te_with_def)
  moreover have "te_foreign (te_with s ?g)" using k by (intro te_foreign_kept [OF i(3,1) h]) simp_all
  ultimately show ?thesis using h by (simp add: tenants_inv_def)
qed

lemma tenants_inv_step: "tenants_step s s' \<Longrightarrow> tenants_inv N i j B s \<Longrightarrow> tenants_inv N i j B s'"
  by (induction rule: tenants_step.induct) (simp_all add: tenants_inv_pair tenants_inv_others tenants_inv_rebalance)

lemma fresh_calls_ok:
  "sender_ok cs (send_call k m sz)" "placed cs (send_call k m sz)" "receiver_ok cs (recv_call k buf sz)"
  by (simp_all add: sender_ok_def placed_def receiver_ok_def send_call_def recv_call_def in_request_def)

lemma tenants_call_inv:
  assumes "world_inv False (te_whole s)" and "te_foreign s" and "rs_shm g = w_shm (te_world s)"
    and "rs_snd g = te_snd s \<or> rs_snd g = send_call (snd_key (te_snd s)) m sz"
    and "rs_rcv g = te_rcv s \<or> rs_rcv g = recv_call (rcv_key (te_rcv s)) buf sz'"
  shows "world_inv False (te_whole (te_with s g)) \<and> te_foreign (te_with s g)"
proof -
  have "world_inv False (te_whole (te_with s g))"
    using assms(1,3-5) fresh_calls_ok by (auto simp: world_inv_def te_whole_def te_with_def Let_def)
  moreover have "snd_key (rs_snd g) = snd_key (te_snd s)" using assms(4) by (auto simp: send_call_def)
  then have "te_foreign (te_with s g)"
    using assms(2,3) by (simp add: te_foreign_def te_with_def foreign_world_def)
  ultimately show ?thesis ..
qed

lemma tenants_start_inv:
  assumes s: "tenants_start N m s" and "length m = N" and "\<forall>k < N. m ! k = B k"
  shows "tenants_inv N 0 0 B s"
proof -
  have ring: "ring_start N m (te_pair s)" and reach: "reach world_init calm_step (te_world s)" and f: "te_foreign s"
    using s by (simp_all add: tenants_start_def)
  have "world_inv False (te_world s)" by (rule calm.reach_inv [OF reach])
  moreover have "te_snd s = send_call (snd_key (te_snd s)) (snd_buf (te_snd s)) (snd_size (te_snd s))"
    "te_rcv s = recv_call (rcv_key (te_rcv s)) (rcv_buf (te_rcv s)) (rcv_size (te_rcv s))"
    using ring unfolding ring_start_def ring_init_def Let_def te_simps by blast+
  ultimately have "world_inv False (te_whole s)" using fresh_calls_ok by (simp add: world_inv_def te_whole_def Let_def) metis
  then show ?thesis using ring_calls.start_inv [OF ring assms(2,3)] f by (simp add: tenants_inv_def)
qed

lemma tenants_progress:
  assumes "tenants_inv N i j B s" and "\<not> ring_received (te_pair s)" and "\<not> (ring_sent (te_pair s) \<and> i < j)"
  shows "\<exists>s'. tenants_step s s' \<and> ring_work (te_pair s') < ring_work (te_pair s)"
proof -
  obtain g where "ring_step (te_pair s) g" "ring_work g < ring_work (te_pair s)"
    using ring_calls.progress assms by (metis tenants_inv_def)
  then show ?thesis using tenants_pair [of s g] by (metis te_simps(1))
qed

interpretation tenant_calls: call_transport tenants_step tenants_start tenants_inv "ring_sent \<circ> te_pair"
  "ring_received \<circ> te_pair" tenants_next_send tenants_next_recv "ring_fetch \<circ> te_pair" "ring_delivered \<circ> te_pair"
  "ring_work \<circ> te_pair" "\<lambda>N. N div 4096 * 5000 + 4200"
proof unfold_locales
  show "tenants_inv N 0 0 B s" if "tenants_start N m s" "length m = N" "\<forall>k < N. m ! k = B k" for N m s B
    using that by (rule tenants_start_inv)
  show "tenants_inv N i j B t" if "tenants_inv N i j B s" "tenants_step s t" for N i j B s t
    using that(2,1) by (rule tenants_inv_step)
  show "tenants_inv N (Suc i) j B (tenants_next_send m s)"
    if "tenants_inv N i j B s" "(ring_sent \<circ> te_pair) s" "length m = N" "\<forall>k < N. m ! k = B (N * Suc i + k)" for N i j B s m
    using that ring_calls.send_next [of N i j B "te_pair s" m] tenants_call_inv [of s "ring_next_send m (te_pair s)" m "snd_size (te_snd s)"]
    by (simp add: tenants_inv_def tenants_next_send_def ring_next_send_def)
  show "tenants_inv N i (Suc j) B (tenants_next_recv s)"
    if "tenants_inv N i j B s" "(ring_received \<circ> te_pair) s" for N i j B s
    using that ring_calls.recv_next [of N i j B "te_pair s"] tenants_call_inv [of s "ring_next_recv (te_pair s)" _ _ "rcv_buf (te_rcv s)" "rcv_size (te_rcv s)"]
    by (simp add: tenants_inv_def tenants_next_recv_def ring_next_recv_def)
  fix N i j B s
  assume inv: "tenants_inv N i j B s"
  then have g: "ring_calls_inv N i j B (te_pair s)" by (simp add: tenants_inv_def)
  show "0 < N" using g by (rule ring_calls.positive)
  show "N * j + length ((ring_delivered \<circ> te_pair) s) \<le> N * Suc i" using ring_calls.behind [OF g] by simp
  show "(ring_delivered \<circ> te_pair) s ! k = B (N * j + k)" if "k < length ((ring_delivered \<circ> te_pair) s)" for k
    using ring_calls.current_nth [OF g] that by simp
  show "length ((ring_delivered \<circ> te_pair) s) = N \<and> (ring_fetch \<circ> te_pair) s = (ring_delivered \<circ> te_pair) s"
    if "(ring_received \<circ> te_pair) s"
    using ring_calls.fetched [OF g] that by simp
  show "\<exists>t. tenants_step s t \<and> (ring_work \<circ> te_pair) t < (ring_work \<circ> te_pair) s"
    if "\<not> (ring_received \<circ> te_pair) s" "\<not> ((ring_sent \<circ> te_pair) s \<and> i < j)"
    using tenants_progress [OF inv] that by simp
  show "(ring_work \<circ> te_pair) (tenants_next_send m s) \<le> (ring_work \<circ> te_pair) s + (N div 4096 * 5000 + 4200)"
    if "(ring_sent \<circ> te_pair) s" for m
    using ring_calls.send_work [OF g] that by (simp add: tenants_next_send_def)
  show "(ring_work \<circ> te_pair) (tenants_next_recv s) \<le> (ring_work \<circ> te_pair) s + (N div 4096 * 5000 + 4200)"
    if "(ring_received \<circ> te_pair) s"
    using ring_calls.recv_work [OF g] that by (simp add: tenants_next_recv_def)
qed

lemma tenant_calls_returns:
  assumes "session_inv tenants_inv s"
  shows "snd_pc (te_snd (se_sys s)) = Send_ret v \<Longrightarrow> v = 0" and "rcv_pc (te_rcv (se_sys s)) = Recv_ret v \<Longrightarrow> v = 0"
    and "snd_pc (te_snd (se_sys s)) \<noteq> Send_fault e" and "rcv_pc (te_rcv (se_sys s)) \<noteq> Recv_fault e"
    and "se_got s = take (length (se_got s)) (se_msgs s)"
  using assms
  by (auto simp: session_inv_def tenants_inv_def ring_calls_inv_def ring_inv_at_def Let_def send_inv_def recv_inv_def
      send_at_def recv_at_def)

section \<open>An example\<close>

text \<open>
  A world in which the pair's channel has been requested by a call that is over, and another
  sender with another key is at work.
\<close>

definition tenants_demo :: "world \<Rightarrow> tenants" where
  "tenants_demo w =
     \<lparr>te_snd = send_call key_b (replicate 8192 7) 8192, te_rcv = recv_call key_b (replicate 8192 0) 8192, te_world = w\<rparr>"

definition tenants_session_demo :: "world \<Rightarrow> tenants session" where
  "tenants_session_demo w =
     \<lparr>se_sys = tenants_demo w, se_msgs = [replicate 8192 7, replicate 8192 9], se_next = 1, se_got = []\<rparr>"

lemma call_over_alone:
  assumes "\<not> has_channel_candidate (ctrl sh)" and "control_mutex (ctrl sh) = 0"
    and "ivshmem_find_channel (ctrl sh) k = Inr (Some c)"
  shows "\<exists>t. steps (send_alone 0) ((send_call k [] 0)\<lparr>snd_pc := Send_wait\<rparr>, sh) (t, sh) \<and> snd_pc t = Send_ret 0"
proof -
  let ?t = "\<lambda>pc. (send_call k [] 0)\<lparr>snd_pc := pc, snd_chan := c\<rparr>"
  have "ivshmem_send_step 0 ((send_call k [] 0)\<lparr>snd_pc := Send_wait\<rparr>) sh = ((send_call k [] 0)\<lparr>snd_pc := Send_refind\<rparr>, sh)"
    "ivshmem_send_step 0 ((send_call k [] 0)\<lparr>snd_pc := Send_refind\<rparr>) sh = (?t Send_mutex, sh)"
    "ivshmem_send_step 0 (?t Send_mutex) sh = (?t Send_size, sh)"
    "ivshmem_send_step 0 (?t Send_size) sh = (?t (Send_ret 0), sh)"
    using assms
    by (simp_all add: ivshmem_send_step_def in_request_def request_channel_step_def send_loop_step_def send_call_def)
  then have "send_alone 0 ((send_call k [] 0)\<lparr>snd_pc := Send_wait\<rparr>, sh) ((send_call k [] 0)\<lparr>snd_pc := Send_refind\<rparr>, sh)"
    "send_alone 0 ((send_call k [] 0)\<lparr>snd_pc := Send_refind\<rparr>, sh) (?t Send_mutex, sh)"
    "send_alone 0 (?t Send_mutex, sh) (?t Send_size, sh)" "send_alone 0 (?t Send_size, sh) (?t (Send_ret 0), sh)"
    by (metis send_alone_step)+
  then have "steps (send_alone 0) ((send_call k [] 0)\<lparr>snd_pc := Send_wait\<rparr>, sh) (?t (Send_ret 0), sh)"
    by (blast intro: steps.intros)
  then show ?thesis by (intro exI [of _ "?t (Send_ret 0)"]) simp
qed

lemma single_channel:
  assumes "wf_ctrl cs" and "active cs = [ch]"
  shows "channels cs ! 0 = ch" and "key_matches k (chan_key ch) \<Longrightarrow> ivshmem_find_channel cs k = Inr (Some 0)"
proof -
  have n: "nat (num_active_channels cs) = 1" using wf_ctrl_length_active [OF assms(1)] assms(2) by simp
  then show at: "channels cs ! 0 = ch" using active_nth [of 0 cs] assms(2) by simp
  have "num_active_channels cs \<le> int (length (channels cs))" using assms(1) by (simp add: wf_ctrl_def)
  then show "key_matches k (chan_key ch) \<Longrightarrow> ivshmem_find_channel cs k = Inr (Some 0)"
    using at by (simp add: ivshmem_find_channel_def find_channel_eq_find n)
qed

lemma tenants_world:
  "\<exists>w ch. reach world_init calm_step w \<and> control_mutex (ctrl (w_shm w)) = 0 \<and>
     active (ctrl (w_shm w)) = [ch] \<and> chan_key ch = key_b \<and> head ch = tail ch \<and> foreign_world key_b w \<and>
     send_call key_a (replicate 8192 9) 8192 \<in> set (w_senders w)"
proof -
  have a0: "active (ctrl empty_shm) = []" by (simp add: active_def empty_shm_facts)
  obtain w ch where w: "steps (world_step False) start_world w" "wf_ctrl (ctrl (w_shm w))" "control_mutex (ctrl (w_shm w)) = 0"
    "active (ctrl (w_shm w)) = [ch]" "chan_key ch = key_b" "head ch = 0" "tail ch = 0"
    "\<not> has_channel_candidate (ctrl (w_shm w))" "w_receivers w = []"
    "w_senders w = [] @ [(send_call key_b [] 0)\<lparr>snd_pc := Send_wait\<rparr>]"
    using request_world [of start_world key_b False] empty_shm_facts empty_shm_find a0 by (auto simp: start_world_def)
  have "ivshmem_find_channel (ctrl (w_shm w)) key_b = Inr (Some 0)" using single_channel [OF w(2,4)] w(5) by simp
  from call_over_alone [OF w(8,3) this] obtain t where
    t: "steps (send_alone 0) ((send_call key_b [] 0)\<lparr>snd_pc := Send_wait\<rparr>, w_shm w) (t, w_shm w)" "snd_pc t = Send_ret 0"
    by blast
  have "w\<lparr>w_senders := [] @ [(send_call key_b [] 0)\<lparr>snd_pc := Send_wait\<rparr>], w_shm := w_shm w\<rparr> = w" unfolding w(10) [symmetric] by simp
  then have 1: "steps (world_step False) w (w\<lparr>w_senders := [t]\<rparr>)"
    using alone_world [OF t(1), where reb = False and w = w and ts = "[]"] by simp
  let ?w = "w\<lparr>w_senders := [t, send_call key_a (replicate 8192 9) 8192]\<rparr>"
  have "world_step False (w\<lparr>w_senders := [t]\<rparr>) ?w"
    using world_send_call [of False "w\<lparr>w_senders := [t]\<rparr>"] by simp
  then have "reach world_init (world_step False) ?w"
    using reach_steps [OF 1 reach_steps [OF w(1) start_world_reach]] by (rule reach_step [rotated])
  then have "reach world_init calm_step ?w" by (rule reach_calm)
  moreover have "foreign_world key_b ?w"
    using w(9) t(2) by (simp add: foreign_world_def send_call_def send_over_def key_matches_def key_a_def key_b_def)
  ultimately show ?thesis using w(3-7) by (intro exI [of _ ?w] exI [of _ ch]) simp
qed

lemma tenants_demo_start:
  "\<exists>w. tenants_start 8192 (replicate 8192 7) (tenants_demo w) \<and> send_call key_a (replicate 8192 9) 8192 \<in> set (w_senders w)"
proof -
  obtain w ch where w: "reach world_init calm_step w" "control_mutex (ctrl (w_shm w)) = 0"
     "active (ctrl (w_shm w)) = [ch]" "chan_key ch = key_b" "head ch = tail ch" "foreign_world key_b w"
     "send_call key_a (replicate 8192 9) 8192 \<in> set (w_senders w)"
    using tenants_world by blast
  have wf: "wf_ctrl (ctrl (w_shm w))" using calm.reach_inv [OF w(1)] by (simp add: world_inv_def Let_def)
  have f: "ivshmem_find_channel (ctrl (w_shm w)) key_b = Inr (Some 0)" "chan_at (w_shm w) 0 = ch"
    using single_channel [OF wf w(3)] w(4) by simp_all
  have "te_foreign (tenants_demo w)" using f w(4,6) by (simp add: te_foreign_def tenants_demo_def send_call_def)
  moreover have "ring_start 8192 (replicate 8192 7) (te_pair (tenants_demo w))"
    using f wf w(2,5) by (simp add: ring_start_def ring_init_def tenants_demo_def te_pair_def send_call_def recv_call_def)
  ultimately show ?thesis using w(1,7) by (intro exI [of _ w]) (simp add: tenants_start_def, simp add: tenants_demo_def)
qed

lemma tenants_session_demo_init:
  assumes "tenants_start 8192 (replicate 8192 7) (tenants_demo w)"
  shows "session_init tenants_start (tenants_session_demo w)"
  using assms by (simp add: session_init_def tenants_session_demo_def)

section \<open>Properties\<close>





end
