(* ===== verification/Ivshmem_Handlers.thy ===== *)
theory Ivshmem_Handlers
  imports Ivshmem_World
begin

text \<open>
  The handlers of the trusted host one statement at a time.  \<open>Ivshmem_World\<close> takes a handler
  for one step; here each assignment to the shared control section is a step of its own, in
  the order of \<^verbatim>\<open>secure_ivshmem/src/ivshmem_trusted.c\<close>, so that others can see, and
  change, what lies between two of them.  Left alone, the machine computes what the functions
  of \<open>Ivshmem_Trusted\<close> compute (\<open>handlers_alone\<close>); \<open>Ivshmem_Fine\<close> interleaves it with
  senders and receivers.
\<close>

section \<open>The host\<close>

text \<open>
  The program counter follows \<^verbatim>\<open>ivshmem_check_is_control_requested\<close>,
  \<^verbatim>\<open>ivshmem_trusted_control\<close>, \<^verbatim>\<open>ivshmem_create_channel\<close> and
  \<^verbatim>\<open>ivshmem_init_channel\<close> (\<open>Init_write k\<close> is its assignment number \<open>k\<close>), then
  \<^verbatim>\<open>ivshmem_trusted_rebalancing\<close>.  \<open>Rb_move i k\<close> is the assignment number \<open>k\<close> of the
  pass of its loop over channel \<open>i\<close>; the counters \<^verbatim>\<open>i\<close> and \<^verbatim>\<open>cnt\<close> are always
  equal.  The \<^verbatim>\<open>memcpy\<close> to the temporary array, the structure assignment and the final
  \<^verbatim>\<open>memset\<close> take one step per channel.
\<close>

datatype host_pc =
  Host_idle
| Ctl_check | Ctl_test | Ctl_lock | Ctl_full | Ctl_space | Init_write nat
| Create_id | Create_free | Create_count | Ctl_clear | Ctl_unlock
| Rb_test | Rb_lock | Rb_size | Rb_malloc | Rb_save nat | Rb_restart | Rb_loop nat | Rb_move nat nat
| Rb_count nat | Rb_wipe nat | Rb_unlock
| Host_fault c_fault

record host =
  h_pc :: host_pc
  h_malloc :: bool
  h_now :: time_t
  h_chan :: nat
  h_ret :: c_int
  h_pages :: c_int
  h_size :: size_t
  h_tmp :: "ivshmem_channel list"

definition host_start :: "bool \<Rightarrow> time_t \<Rightarrow> trusted_event \<Rightarrow> host \<Rightarrow> host" where
  "host_start ok now ev h =
     h\<lparr>h_malloc := ok, h_now := now,
       h_pc := (case ev of Rb_timer \<Rightarrow> Rb_test | Ctl_timer \<Rightarrow> Ctl_check | _ \<Rightarrow> Host_idle)\<rparr>"

text \<open>The assignments of \<^verbatim>\<open>ivshmem_init_channel\<close>, whose key is the shared candidate.\<close>

definition init_writes :: "time_t \<Rightarrow> control_section \<Rightarrow> (ivshmem_channel \<Rightarrow> ivshmem_channel) list" where
  "init_writes now cs =
     (let key = channel_candidate cs in
      [\<lambda>ch. ch\<lparr>chan_id := last_channel_id cs\<rparr>,
       \<lambda>ch. ch\<lparr>chan_key := (chan_key ch)\<lparr>sender_vm := sender_vm key\<rparr>\<rparr>,
       \<lambda>ch. ch\<lparr>chan_key := (chan_key ch)\<lparr>sender_pid := sender_pid key\<rparr>\<rparr>,
       \<lambda>ch. ch\<lparr>chan_key := (chan_key ch)\<lparr>receiver_vm := receiver_vm key\<rparr>\<rparr>,
       \<lambda>ch. ch\<lparr>buf_offset := free_start_offset cs\<rparr>,
       \<lambda>ch. ch\<lparr>buf_size := size_of_int IVSHMEM_CHANNEL_INIT_SIZE\<rparr>,
       \<lambda>ch. ch\<lparr>data_size := 0\<rparr>,
       \<lambda>ch. ch\<lparr>last_sent_at := now\<rparr>,
       \<lambda>ch. ch\<lparr>tail := 0\<rparr>,
       \<lambda>ch. ch\<lparr>head := 0\<rparr>,
       \<lambda>ch. ch\<lparr>num_page := IVSHMEM_CHANNEL_INIT_SIZE div IVSHMEM_PAGE_SIZE\<rparr>,
       \<lambda>ch. ch\<lparr>head_touch := 0\<rparr>,
       \<lambda>ch. ch\<lparr>last_sent_at := 0\<rparr>])"

text \<open>A step of \<^verbatim>\<open>ivshmem_trusted_control\<close> and what it calls.\<close>

definition control_step :: "host \<Rightarrow> shm \<Rightarrow> host \<times> shm" where
  "control_step h sh =
     (let cs = ctrl sh in
      case h_pc h of
        Ctl_check \<Rightarrow>
          (h\<lparr>h_pc := (if ivshmem_check_is_control_requested cs \<noteq> 0 then Ctl_test else Host_idle)\<rparr>, sh)
      | Ctl_test \<Rightarrow> (h\<lparr>h_pc := (if has_channel_candidate cs then Ctl_lock else Host_idle)\<rparr>, sh)
      | Ctl_lock \<Rightarrow> (h\<lparr>h_pc := Ctl_full\<rparr>, sh\<lparr>ctrl := cs\<lparr>control_mutex := 1\<rparr>\<rparr>)
      | Ctl_full \<Rightarrow>
          (if int IVSHMEM_MAX_CHANNELS \<le> num_active_channels cs
           then (h\<lparr>h_pc := Ctl_clear, h_ret := - 1\<rparr>, sh) else (h\<lparr>h_pc := Ctl_space\<rparr>, sh))
      | Ctl_space \<Rightarrow>
          (if DATA_SECTION_SIZE < free_start_offset cs + size_of_int IVSHMEM_CHANNEL_INIT_SIZE
           then (h\<lparr>h_pc := Ctl_clear, h_ret := - 1\<rparr>, sh)
           else if num_active_channels cs < 0 then (h\<lparr>h_pc := Host_fault OutOfBounds\<rparr>, sh)
           else (h\<lparr>h_pc := Init_write 0, h_chan := nat (num_active_channels cs)\<rparr>, sh))
      | Init_write k \<Rightarrow>
          (h\<lparr>h_pc := (if k < 12 then Init_write (Suc k) else Create_id)\<rparr>,
           upd_channel (h_chan h) (init_writes (h_now h) cs ! k) sh)
      | Create_id \<Rightarrow>
          (h\<lparr>h_pc := Create_free\<rparr>, sh\<lparr>ctrl := cs\<lparr>last_channel_id := last_channel_id cs + 1\<rparr>\<rparr>)
      | Create_free \<Rightarrow>
          (h\<lparr>h_pc := Create_count\<rparr>,
           sh\<lparr>ctrl := cs\<lparr>free_start_offset :=
                            free_start_offset cs + size_of_int IVSHMEM_CHANNEL_INIT_SIZE\<rparr>\<rparr>)
      | Create_count \<Rightarrow>
          (h\<lparr>h_pc := Ctl_clear, h_ret := 0\<rparr>,
           sh\<lparr>ctrl := cs\<lparr>num_active_channels := num_active_channels cs + 1\<rparr>\<rparr>)
      | Ctl_clear \<Rightarrow> (h\<lparr>h_pc := Ctl_unlock\<rparr>, sh\<lparr>ctrl := cs\<lparr>has_channel_candidate := False\<rparr>\<rparr>)
      | Ctl_unlock \<Rightarrow> (h\<lparr>h_pc := Host_idle\<rparr>, sh\<lparr>ctrl := cs\<lparr>control_mutex := 0\<rparr>\<rparr>)
      | _ \<Rightarrow> (h, sh))"

text \<open>The assignments of a pass of the rebalancing loop, from the saved channel \<open>old\<close>.\<close>

definition move_writes ::
  "host \<Rightarrow> control_section \<Rightarrow> ivshmem_channel \<Rightarrow> (ivshmem_channel \<Rightarrow> ivshmem_channel) list" where
  "move_writes h cs old =
     [\<lambda>ch. old,
      \<lambda>ch. ch\<lparr>buf_offset := free_start_offset cs\<rparr>,
      \<lambda>ch. ch\<lparr>buf_size := h_size h\<rparr>,
      id,
      \<lambda>ch. ch\<lparr>tail := tail old mod u32_of_int (h_pages h)\<rparr>,
      \<lambda>ch. ch\<lparr>head := head old mod u32_of_int (h_pages h)\<rparr>,
      \<lambda>ch. ch\<lparr>num_page := h_pages h\<rparr>,
      \<lambda>ch. ch\<lparr>head_touch := 0\<rparr>]"

text \<open>A step of \<^verbatim>\<open>ivshmem_trusted_rebalancing\<close>.\<close>

definition rebalancing_step :: "host \<Rightarrow> shm \<Rightarrow> host \<times> shm" where
  "rebalancing_step h sh =
     (let cs = ctrl sh; n = num_active_channels cs in
      case h_pc h of
        Rb_test \<Rightarrow>
          (if n \<le> 0 then (h\<lparr>h_pc := Host_idle, h_ret := 0\<rparr>, sh) else (h\<lparr>h_pc := Rb_lock\<rparr>, sh))
      | Rb_lock \<Rightarrow> (h\<lparr>h_pc := Rb_size\<rparr>, sh\<lparr>ctrl := cs\<lparr>control_mutex := 1\<rparr>\<rparr>)
      | Rb_size \<Rightarrow>
          (h\<lparr>h_pages := rebalance_num_page n, h_size := rebalance_size n, h_ret := 0,
             h_pc := (if rebalance_size n = buf_size (channels cs ! 0) then Rb_unlock else Rb_malloc)\<rparr>, sh)
      | Rb_malloc \<Rightarrow>
          (if h_malloc h then (h\<lparr>h_pc := Rb_save 0, h_tmp := []\<rparr>, sh)
           else (h\<lparr>h_pc := Host_idle, h_ret := - 1\<rparr>, sh))
      | Rb_save i \<Rightarrow>
          (if int i < n then
             if length (channels cs) \<le> i then (h\<lparr>h_pc := Host_fault OutOfBounds\<rparr>, sh)
             else (h\<lparr>h_pc := Rb_save (Suc i), h_tmp := h_tmp h @ [channels cs ! i]\<rparr>, sh)
           else (h\<lparr>h_pc := Rb_restart\<rparr>, sh))
      | Rb_restart \<Rightarrow> (h\<lparr>h_pc := Rb_loop 0\<rparr>, sh\<lparr>ctrl := cs\<lparr>free_start_offset := 0\<rparr>\<rparr>)
      | Rb_loop i \<Rightarrow> (h\<lparr>h_pc := (if int i < n then Rb_move i 0 else Rb_count i)\<rparr>, sh)
      | Rb_move i k \<Rightarrow>
          (if k = 4 \<and> u32_of_int (h_pages h) = 0 then (h\<lparr>h_pc := Host_fault DivideByZero\<rparr>, sh)
           else if k = 3
           then (h\<lparr>h_pc := Rb_move i 4\<rparr>,
                 sh\<lparr>ctrl := cs\<lparr>free_start_offset := free_start_offset cs + h_size h\<rparr>\<rparr>)
           else (h\<lparr>h_pc := (if k < 7 then Rb_move i (Suc k) else Rb_loop (Suc i))\<rparr>,
                 upd_channel i (move_writes h cs (h_tmp h ! i) ! k) sh))
      | Rb_count i \<Rightarrow>
          (h\<lparr>h_pc := Rb_wipe i\<rparr>, sh\<lparr>ctrl := cs\<lparr>num_active_channels := int i\<rparr>\<rparr>)
      | Rb_wipe i \<Rightarrow>
          (if i < IVSHMEM_MAX_CHANNELS
           then (h\<lparr>h_pc := Rb_wipe (Suc i)\<rparr>, upd_channel i (\<lambda>ch. zero_channel) sh)
           else (h\<lparr>h_pc := Rb_unlock\<rparr>, sh))
      | Rb_unlock \<Rightarrow> (h\<lparr>h_pc := Host_idle\<rparr>, sh\<lparr>ctrl := cs\<lparr>control_mutex := 0\<rparr>\<rparr>)
      | _ \<Rightarrow> (h, sh))"

definition in_rebalancing :: "host_pc \<Rightarrow> bool" where
  "in_rebalancing pc \<longleftrightarrow>
     (case pc of
        Rb_test \<Rightarrow> True | Rb_lock \<Rightarrow> True | Rb_size \<Rightarrow> True | Rb_malloc \<Rightarrow> True | Rb_save i \<Rightarrow> True
      | Rb_restart \<Rightarrow> True | Rb_loop i \<Rightarrow> True | Rb_move i k \<Rightarrow> True | Rb_count i \<Rightarrow> True | Rb_wipe i \<Rightarrow> True
      | Rb_unlock \<Rightarrow> True | _ \<Rightarrow> False)"

definition host_step :: "host \<Rightarrow> shm \<Rightarrow> host \<times> shm" where
  "host_step h sh = (if in_rebalancing (h_pc h) then rebalancing_step h sh else control_step h sh)"

definition idle_host :: host where
  "idle_host =
     \<lparr>h_pc = Host_idle, h_malloc = True, h_now = 0, h_chan = 0, h_ret = 0, h_pages = 0, h_size = 0, h_tmp = []\<rparr>"

text \<open>The host on its own, and what \<open>m\<close> assignments from number \<open>j\<close> on make of a channel.\<close>

definition host_alone :: "host \<times> shm \<Rightarrow> host \<times> shm \<Rightarrow> bool" where
  "host_alone p q \<longleftrightarrow> q = host_step (fst p) (snd p)"

definition written_channel :: "time_t \<Rightarrow> control_section \<Rightarrow> nat \<Rightarrow> nat \<Rightarrow> ivshmem_channel \<Rightarrow> ivshmem_channel" where
  "written_channel now cs j m ch = fold (\<lambda>f x. f x) (take m (drop j (init_writes now cs))) ch"

definition init_pc :: "nat \<Rightarrow> host_pc" where
  "init_pc k = (if k < 13 then Init_write k else Create_id)"

section \<open>Runs of the host alone\<close>

lemma alone_one: "host_step h sh = q \<Longrightarrow> steps host_alone (h, sh) q"
  by (rule steps_one) (simp add: host_alone_def)

lemma alone_funpow: "((\<lambda>p. host_step (fst p) (snd p)) ^^ n) p = q \<Longrightarrow> steps host_alone p q"
proof (induction n arbitrary: p)
  case (Suc n)
  then have "steps host_alone (host_step (fst p) (snd p)) q" by (simp only: funpow_Suc_right comp_def)
  then show ?case by (rule steps_step [rotated]) (simp add: host_alone_def)
qed (simp add: steps_refl)

lemma alone_snoc: "steps host_alone p (h, sh) \<Longrightarrow> host_step h sh = q \<Longrightarrow> steps host_alone p q"
  by (rule steps_trans [OF _ alone_one])

lemmas host_step_defs = host_step_def in_rebalancing_def control_step_def rebalancing_step_def Let_def

lemma upd_channel_twice:
  "upd_channel c f (upd_channel c g sh) =
    (if c < length (channels (ctrl sh)) then upd_channel c (\<lambda>ch. f (g ch)) sh else sh)"
  by (simp add: upd_channel_def list_update_beyond)

lemma init_writes_upd: "init_writes now (ctrl (upd_channel c f sh)) = init_writes now (ctrl sh)"
  by (simp add: init_writes_def Let_def upd_channel_def)

lemma length_init_writes [simp]: "length (init_writes now cs) = 13"
  by (simp add: init_writes_def Let_def)

lemma written_channel_Suc:
  "j + m < 13 \<Longrightarrow> written_channel now cs j (Suc m) = (\<lambda>ch. (init_writes now cs ! (j + m)) (written_channel now cs j m ch))"
  by (rule ext) (simp add: written_channel_def take_Suc_conv_app_nth)

lemma init_writes_alone:
  assumes "c < length (channels (ctrl sh))" and "h_chan h = c" and "j + m \<le> 13"
  shows "steps host_alone (h\<lparr>h_pc := init_pc j\<rparr>, sh)
    (h\<lparr>h_pc := init_pc (j + m)\<rparr>, upd_channel c (written_channel (h_now h) (ctrl sh) j m) sh)"
  using assms(3)
proof (induction m)
  case 0
  have "upd_channel c (written_channel (h_now h) (ctrl sh) j 0) sh = sh"
    by (simp add: upd_channel_def written_channel_def)
  then show ?case by (simp add: steps_refl)
next
  case (Suc m)
  have "host_step (h\<lparr>h_pc := init_pc (j + m)\<rparr>) (upd_channel c (written_channel (h_now h) (ctrl sh) j m) sh) =
    (h\<lparr>h_pc := init_pc (j + Suc m)\<rparr>, upd_channel c (written_channel (h_now h) (ctrl sh) j (Suc m)) sh)"
    using assms(1,2) Suc.prems
    by (simp add: host_step_defs init_writes_upd upd_channel_twice written_channel_Suc init_pc_def)
  then show ?case using Suc by (auto intro: alone_snoc)
qed

lemma written_channel_all:
  "written_channel now cs 0 13 = (\<lambda>ch. ivshmem_init_channel now cs ch (channel_candidate cs))"
  by (rule ext) (simp add: written_channel_def init_writes_def ivshmem_init_channel_def Let_def)

lemma create_alone:
  assumes wf: "wf_ctrl (ctrl sh)"
    and c: "ivshmem_create_channel (h_now h) (ctrl sh) (channel_candidate (ctrl sh)) = Inr (ret, cs)"
  shows "\<exists>h'. steps host_alone (h\<lparr>h_pc := Ctl_full\<rparr>, sh) (h'\<lparr>h_pc := Ctl_clear\<rparr>, sh\<lparr>ctrl := cs\<rparr>) \<and> h_ret h' = ret"
proof (cases "ret = 0")
  case True
  let ?n = "nat (num_active_channels (ctrl sh))" and ?h = "h\<lparr>h_chan := nat (num_active_channels (ctrl sh))\<rparr>"
  let ?k = "channel_candidate (ctrl sh)" and ?sh = "upd_channel (nat (num_active_channels (ctrl sh)))
    (\<lambda>ch. ivshmem_init_channel (h_now h) (ctrl sh) ch (channel_candidate (ctrl sh))) sh"
  have g: "num_active_channels (ctrl sh) < 32" "0 \<le> num_active_channels (ctrl sh)"
    "\<not> DATA_SECTION_SIZE < free_start_offset (ctrl sh) + size_of_int IVSHMEM_CHANNEL_INIT_SIZE"
    and cs: "cs = (ctrl sh)\<lparr>channels := (channels (ctrl sh))[?n := ivshmem_init_channel (h_now h) (ctrl sh) (chan_at sh ?n) ?k],
                   last_channel_id := last_channel_id (ctrl sh) + 1,
                   free_start_offset := free_start_offset (ctrl sh) + size_of_int IVSHMEM_CHANNEL_INIT_SIZE,
                   num_active_channels := num_active_channels (ctrl sh) + 1\<rparr>"
    using c True by (auto simp: ivshmem_create_channel_def Let_def IVSHMEM_MAX_CHANNELS_def split: if_splits)
  have len: "?n < length (channels (ctrl sh))" using wf g by (simp add: wf_ctrl_def IVSHMEM_MAX_CHANNELS_def)
  have s1: "steps host_alone (h\<lparr>h_pc := Ctl_full\<rparr>, sh) (?h\<lparr>h_pc := Init_write 0\<rparr>, sh)"
    using g by (intro alone_funpow [of "Suc (Suc 0)"]) (simp add: host_step_defs IVSHMEM_MAX_CHANNELS_def)
  have s2: "steps host_alone (?h\<lparr>h_pc := Init_write 0\<rparr>, sh) (?h\<lparr>h_pc := Create_id\<rparr>, ?sh)"
    using init_writes_alone [OF len, of ?h 0 13] by (simp add: written_channel_all init_pc_def)
  have s3: "steps host_alone (?h\<lparr>h_pc := Create_id\<rparr>, ?sh) (?h\<lparr>h_ret := 0, h_pc := Ctl_clear\<rparr>, sh\<lparr>ctrl := cs\<rparr>)"
    by (rule alone_funpow [of "Suc (Suc (Suc 0))"]) (cases h, simp add: host_step_defs cs upd_channel_def)
  show ?thesis
    using steps_trans [OF s1 steps_trans [OF s2 s3]] True by (intro exI [of _ "?h\<lparr>h_ret := 0\<rparr>"]) simp
next
  case False
  then have r: "ret = - 1" "cs = ctrl sh" using c by (auto simp: ivshmem_create_channel_def Let_def split: if_splits)
  show ?thesis
  proof (cases "int IVSHMEM_MAX_CHANNELS \<le> num_active_channels (ctrl sh)")
    case True
    then have "steps host_alone (h\<lparr>h_pc := Ctl_full\<rparr>, sh) (h\<lparr>h_ret := - 1, h_pc := Ctl_clear\<rparr>, sh)"
      by (intro alone_one) (cases h, simp add: host_step_defs)
    then show ?thesis using r by (intro exI [of _ "h\<lparr>h_ret := - 1\<rparr>"]) simp
  next
    case full: False
    then have "DATA_SECTION_SIZE < free_start_offset (ctrl sh) + size_of_int IVSHMEM_CHANNEL_INIT_SIZE"
      using c r by (auto simp: ivshmem_create_channel_def Let_def split: if_splits)
    with full have "steps host_alone (h\<lparr>h_pc := Ctl_full\<rparr>, sh) (h\<lparr>h_ret := - 1, h_pc := Ctl_clear\<rparr>, sh)"
      by (intro alone_funpow [of "Suc (Suc 0)"]) (cases h, simp add: host_step_defs)
    then show ?thesis using r by (intro exI [of _ "h\<lparr>h_ret := - 1\<rparr>"]) simp
  qed
qed

lemma control_alone:
  assumes wf: "wf_ctrl (ctrl sh)" and r: "has_channel_candidate (ctrl sh)"
    and c: "ivshmem_trusted_control (h_now h) (ctrl sh) = Inr (ret, cs)"
  shows "\<exists>h'. steps host_alone (h\<lparr>h_pc := Ctl_check\<rparr>, sh) (h', sh\<lparr>ctrl := cs\<rparr>) \<and> h_pc h' = Host_idle \<and> h_ret h' = ret"
proof -
  let ?cs = "(ctrl sh)\<lparr>control_mutex := 1\<rparr>" and ?sh = "sh\<lparr>ctrl := (ctrl sh)\<lparr>control_mutex := 1\<rparr>\<rparr>"
  let ?k = "channel_candidate (ctrl sh)"
  have lock: "steps host_alone (h\<lparr>h_pc := Ctl_check\<rparr>, sh) (h\<lparr>h_pc := Ctl_full\<rparr>, ?sh)"
    by (rule alone_funpow [of "Suc (Suc (Suc 0))"])
      (simp add: host_step_defs ivshmem_check_is_control_requested_def r)
  have unlock: "steps host_alone (h'\<lparr>h_pc := Ctl_clear\<rparr>, s)
      (h'\<lparr>h_pc := Host_idle\<rparr>, s\<lparr>ctrl := (ctrl s)\<lparr>has_channel_candidate := False, control_mutex := 0\<rparr>\<rparr>)" for h' s
    by (rule alone_funpow [of "Suc (Suc 0)"]) (simp add: host_step_defs)
  obtain cs1 where c1: "ivshmem_create_channel (h_now h) ?cs ?k = Inr (ret, cs1)"
    "cs = cs1\<lparr>has_channel_candidate := False, control_mutex := 0\<rparr>"
    using c r by (auto simp: ivshmem_trusted_control_def split: sum.splits)
  obtain h' where h': "steps host_alone (h\<lparr>h_pc := Ctl_full\<rparr>, ?sh) (h'\<lparr>h_pc := Ctl_clear\<rparr>, sh\<lparr>ctrl := cs1\<rparr>)" "h_ret h' = ret"
    using create_alone [of ?sh h ret cs1] wf c1(1) by auto
  have "steps host_alone (h\<lparr>h_pc := Ctl_check\<rparr>, sh) (h'\<lparr>h_pc := Host_idle\<rparr>, sh\<lparr>ctrl := cs\<rparr>)"
    using steps_trans [OF lock steps_trans [OF h'(1) unlock]] c1(2) by simp
  then show ?thesis using h'(2) by (intro exI [of _ "h'\<lparr>h_pc := Host_idle\<rparr>"]) simp
qed

section \<open>Rebalancing\<close>

lemma save_alone:
  assumes "j \<le> nat (num_active_channels (ctrl sh))" and "nat (num_active_channels (ctrl sh)) \<le> length (channels (ctrl sh))"
  shows "steps host_alone (h\<lparr>h_tmp := [], h_pc := Rb_save 0\<rparr>, sh)
    (h\<lparr>h_tmp := take j (channels (ctrl sh)), h_pc := Rb_save j\<rparr>, sh)"
  using assms(1)
proof (induction j)
  case (Suc j)
  have "host_step (h\<lparr>h_tmp := take j (channels (ctrl sh)), h_pc := Rb_save j\<rparr>) sh =
    (h\<lparr>h_tmp := take (Suc j) (channels (ctrl sh)), h_pc := Rb_save (Suc j)\<rparr>, sh)"
    using Suc.prems assms(2) by (cases h) (auto simp: host_step_defs take_Suc_conv_app_nth)
  then show ?case using Suc by (auto intro: alone_snoc)
qed (simp add: steps_refl)

lemma move_alone:
  assumes "int i < num_active_channels (ctrl sh)" and "i < length (channels (ctrl sh))" and "u32_of_int (h_pages h) \<noteq> 0"
  shows "steps host_alone (h\<lparr>h_pc := Rb_loop i\<rparr>, sh)
    (h\<lparr>h_pc := Rb_loop (Suc i)\<rparr>,
     sh\<lparr>ctrl := (ctrl sh)\<lparr>channels := (channels (ctrl sh))[i := (h_tmp h ! i)
          \<lparr>buf_offset := free_start_offset (ctrl sh), buf_size := h_size h,
           tail := tail (h_tmp h ! i) mod u32_of_int (h_pages h), head := head (h_tmp h ! i) mod u32_of_int (h_pages h),
           num_page := h_pages h, head_touch := 0\<rparr>],
        free_start_offset := free_start_offset (ctrl sh) + h_size h\<rparr>\<rparr>)"
proof -
  let ?u = "\<lambda>k f sh. (h\<lparr>h_pc := Rb_move i k\<rparr>, upd_channel i f sh)"
  let ?old = "h_tmp h ! i" and ?sh = "sh\<lparr>ctrl := (ctrl sh)\<lparr>free_start_offset := free_start_offset (ctrl sh) + h_size h\<rparr>\<rparr>"
  let ?f = "\<lambda>ch. ?old\<lparr>buf_offset := free_start_offset (ctrl sh), buf_size := h_size h\<rparr>"
  have a: "steps host_alone (h\<lparr>h_pc := Rb_loop i\<rparr>, sh) (?u 3 ?f sh)"
    using assms by (intro alone_funpow [of "Suc (Suc (Suc (Suc 0)))"])
      (simp add: host_step_defs move_writes_def upd_channel_twice numeral_3_eq_3)
  have b: "steps host_alone (?u 3 ?f sh) (?u 4 ?f ?sh)"
    by (rule alone_one) (simp add: host_step_defs upd_channel_def)
  have c: "steps host_alone (?u 4 ?f ?sh) (h\<lparr>h_pc := Rb_loop (Suc i)\<rparr>, upd_channel i (\<lambda>ch. (?f ch)\<lparr>
      tail := tail ?old mod u32_of_int (h_pages h), head := head ?old mod u32_of_int (h_pages h),
      num_page := h_pages h, head_touch := 0\<rparr>) ?sh)"
    using assms by (intro alone_funpow [of "Suc (Suc (Suc (Suc 0)))"])
      (simp add: host_step_defs move_writes_def upd_channel_twice)
  have "upd_channel i f (sh\<lparr>ctrl := (ctrl sh)\<lparr>free_start_offset := x\<rparr>\<rparr>) =
      sh\<lparr>ctrl := (ctrl sh)\<lparr>channels := (channels (ctrl sh))[i := f (chan_at sh i)], free_start_offset := x\<rparr>\<rparr>" for f x
    by (cases "ctrl sh") (simp add: upd_channel_def)
  then show ?thesis
    using steps_trans [OF a steps_trans [OF b c]] by simp
qed

lemma loop_alone:
  assumes "h_tmp h = pre @ rest" and "num_active_channels (ctrl sh) = int (length (h_tmp h))"
    and "length (h_tmp h) \<le> length (channels (ctrl sh))" and "u32_of_int (h_pages h) \<noteq> 0"
  shows "steps host_alone (h\<lparr>h_pc := Rb_loop (length pre)\<rparr>, sh)
    (h\<lparr>h_pc := Rb_loop (length (h_tmp h))\<rparr>,
     sh\<lparr>ctrl := snd (rebalance_loop (h_pages h) (h_size h) rest (length pre) (ctrl sh))\<rparr>)"
  using assms
proof (induction rest arbitrary: pre sh)
  case Nil
  then show ?case by (simp add: steps_refl)
next
  case (Cons ch rest)
  have i: "int (length pre) < num_active_channels (ctrl sh)" "length pre < length (channels (ctrl sh))"
    "h_tmp h ! length pre = ch" using Cons.prems by (simp_all add: nth_append)
  let ?sh = "sh\<lparr>ctrl := (ctrl sh)\<lparr>channels := (channels (ctrl sh))[length pre := ch
          \<lparr>buf_offset := free_start_offset (ctrl sh), buf_size := h_size h,
           tail := tail ch mod u32_of_int (h_pages h), head := head ch mod u32_of_int (h_pages h),
           num_page := h_pages h, head_touch := 0\<rparr>],
        free_start_offset := free_start_offset (ctrl sh) + h_size h\<rparr>\<rparr>"
  have "steps host_alone (h\<lparr>h_pc := Rb_loop (length pre)\<rparr>, sh) (h\<lparr>h_pc := Rb_loop (Suc (length pre))\<rparr>, ?sh)"
    using move_alone [OF i(1,2) Cons.prems(4)] unfolding i(3) .
  then show ?case
    using Cons.IH [of "pre @ [ch]" ?sh] Cons.prems by (auto intro: steps_trans)
qed

lemma wipe_alone:
  assumes "length (channels (ctrl sh)) = IVSHMEM_MAX_CHANNELS" and "i + m = IVSHMEM_MAX_CHANNELS"
  shows "steps host_alone (h\<lparr>h_pc := Rb_wipe i\<rparr>, sh)
    (h\<lparr>h_pc := Rb_unlock\<rparr>, sh\<lparr>ctrl := (ctrl sh)\<lparr>channels := take i (channels (ctrl sh)) @ replicate m zero_channel\<rparr>\<rparr>)"
  using assms
proof (induction m arbitrary: i sh)
  case 0
  then show ?case by (intro alone_one) (simp add: host_step_defs)
next
  case (Suc m)
  let ?sh = "upd_channel i (\<lambda>ch. zero_channel) sh"
  have "host_step (h\<lparr>h_pc := Rb_wipe i\<rparr>) sh = (h\<lparr>h_pc := Rb_wipe (Suc i)\<rparr>, ?sh)"
    using Suc.prems by (simp add: host_step_defs)
  then have "steps host_alone (h\<lparr>h_pc := Rb_wipe i\<rparr>, sh) (h\<lparr>h_pc := Rb_wipe (Suc i)\<rparr>, ?sh)" by (rule alone_one)
  moreover have "take (Suc i) (channels (ctrl ?sh)) = take i (channels (ctrl sh)) @ [zero_channel]"
    using Suc.prems by (simp add: upd_channel_def take_Suc_conv_app_nth)
  moreover have "(?sh\<lparr>ctrl := (ctrl ?sh)\<lparr>channels := xs\<rparr>\<rparr>) = sh\<lparr>ctrl := (ctrl sh)\<lparr>channels := xs\<rparr>\<rparr>" for xs
    by (simp add: upd_channel_def)
  ultimately show ?case
    using Suc.IH [of ?sh "Suc i"] Suc.prems by (auto intro: steps_trans)
qed

text \<open>The two halves of a rebalancing that moves the channels: up to the copy, and from it.\<close>

lemma restore_alone:
  assumes "h_pc h = Rb_restart" and "num_active_channels (ctrl s) = int (length (h_tmp h))"
    and "length (channels (ctrl s)) = IVSHMEM_MAX_CHANNELS" and "length (h_tmp h) \<le> IVSHMEM_MAX_CHANNELS"
    and "u32_of_int (h_pages h) \<noteq> 0"
  shows "steps host_alone (h, s)
    (h\<lparr>h_pc := Host_idle\<rparr>,
     s\<lparr>ctrl := (ctrl s)\<lparr>channels := rebalanced (h_pages h) (h_size h) 0 (h_tmp h)
           @ replicate (IVSHMEM_MAX_CHANNELS - length (h_tmp h)) zero_channel,
         free_start_offset := word_of_nat (length (h_tmp h)) * h_size h, control_mutex := 0\<rparr>\<rparr>)"
proof -
  let ?s0 = "s\<lparr>ctrl := (ctrl s)\<lparr>free_start_offset := 0\<rparr>\<rparr>" and ?n = "length (h_tmp h)"
  let ?s1 = "s\<lparr>ctrl := (ctrl s)\<lparr>channels := rebalanced (h_pages h) (h_size h) 0 (h_tmp h) @ drop ?n (channels (ctrl s)),
      free_start_offset := word_of_nat ?n * h_size h\<rparr>\<rparr>"
  have "(h\<lparr>h_pc := Rb_restart\<rparr>) = h" using assms(1) by (cases h) simp
  then have a: "steps host_alone (h, s) (h\<lparr>h_pc := Rb_loop 0\<rparr>, ?s0)"
    using assms(1) by (intro alone_one) (simp add: host_step_defs)
  have b: "steps host_alone (h\<lparr>h_pc := Rb_loop 0\<rparr>, ?s0) (h\<lparr>h_pc := Rb_loop ?n\<rparr>, ?s1)"
    using loop_alone [of h "[]" "h_tmp h" ?s0] assms by (simp add: rebalance_loop_eq)
  have c: "steps host_alone (h\<lparr>h_pc := Rb_loop ?n\<rparr>, ?s1) (h\<lparr>h_pc := Rb_wipe ?n\<rparr>, ?s1)"
    using assms(2) by (intro alone_funpow [of "Suc (Suc 0)"]) (cases "ctrl s", simp add: host_step_defs)
  have "?n + (IVSHMEM_MAX_CHANNELS - ?n) = IVSHMEM_MAX_CHANNELS" using assms(4) by simp
  note w = wipe_alone [of ?s1, OF _ this, of h]
  have d: "steps host_alone (h\<lparr>h_pc := Rb_wipe ?n\<rparr>, ?s1) (h\<lparr>h_pc := Rb_unlock\<rparr>,
      s\<lparr>ctrl := (ctrl s)\<lparr>channels := rebalanced (h_pages h) (h_size h) 0 (h_tmp h) @ replicate (IVSHMEM_MAX_CHANNELS - ?n) zero_channel,
        free_start_offset := word_of_nat ?n * h_size h\<rparr>\<rparr>)" (is "steps _ _ (_, ?s2)")
    using w assms(3,4) by (cases "ctrl s") simp
  have e: "steps host_alone (h\<lparr>h_pc := Rb_unlock\<rparr>, ?s2) (h\<lparr>h_pc := Host_idle\<rparr>, ?s2\<lparr>ctrl := (ctrl ?s2)\<lparr>control_mutex := 0\<rparr>\<rparr>)"
    by (rule alone_one) (simp add: host_step_defs)
  show ?thesis
    using steps_trans [OF a steps_trans [OF b steps_trans [OF c steps_trans [OF d e]]]] by simp
qed

lemma save_half:
  assumes wf: "wf_ctrl (ctrl sh)" and n: "n = num_active_channels (ctrl sh)" "0 < n"
    and ne: "rebalance_size n \<noteq> buf_size (channels (ctrl sh) ! 0)" and ok: "h_malloc h"
  shows "steps host_alone (h\<lparr>h_pc := Rb_test\<rparr>, sh)
    (h\<lparr>h_pages := rebalance_num_page n, h_size := rebalance_size n, h_ret := 0, h_tmp := active (ctrl sh), h_pc := Rb_restart\<rparr>,
     sh\<lparr>ctrl := (ctrl sh)\<lparr>control_mutex := 1\<rparr>\<rparr>)"
proof -
  let ?sh = "sh\<lparr>ctrl := (ctrl sh)\<lparr>control_mutex := 1\<rparr>\<rparr>"
  let ?h = "h\<lparr>h_pages := rebalance_num_page n, h_size := rebalance_size n, h_ret := 0\<rparr>"
  have len: "nat n \<le> length (channels (ctrl sh))" using wf n by (auto simp: wf_ctrl_def)
  have a: "steps host_alone (h\<lparr>h_pc := Rb_test\<rparr>, sh) (?h\<lparr>h_tmp := [], h_pc := Rb_save 0\<rparr>, ?sh)"
    using n ne ok by (intro alone_funpow [of "Suc (Suc (Suc (Suc 0)))"]) (cases h, simp add: host_step_defs)
  have b: "steps host_alone (?h\<lparr>h_tmp := active (ctrl sh), h_pc := Rb_save (nat n)\<rparr>, ?sh)
      (?h\<lparr>h_tmp := active (ctrl sh), h_pc := Rb_restart\<rparr>, ?sh)"
    using n by (intro alone_one) (simp add: host_step_defs)
  have "steps host_alone (?h\<lparr>h_tmp := [], h_pc := Rb_save 0\<rparr>, ?sh)
      (?h\<lparr>h_tmp := active (ctrl sh), h_pc := Rb_save (nat n)\<rparr>, ?sh)"
    using save_alone [of "nat n" ?sh ?h] len n by (simp add: active_def)
  then show ?thesis using steps_trans [OF a steps_trans [OF _ b]] by blast
qed

lemma rebalancing_alone:
  assumes wf: "wf_ctrl (ctrl sh)" and r: "ivshmem_trusted_rebalancing (h_malloc h) (ctrl sh) = Inr (ret, cs)"
  shows "\<exists>h'. steps host_alone (h\<lparr>h_pc := Rb_test\<rparr>, sh) (h', sh\<lparr>ctrl := cs\<rparr>) \<and> h_pc h' = Host_idle \<and> h_ret h' = ret"
proof (cases "num_active_channels (ctrl sh) \<le> 0")
  case True
  then have "steps host_alone (h\<lparr>h_pc := Rb_test\<rparr>, sh) (h\<lparr>h_pc := Host_idle, h_ret := 0\<rparr>, sh)"
    by (intro alone_one) (simp add: host_step_defs)
  moreover have "ret = 0" "cs = ctrl sh" using r True by (auto simp: ivshmem_trusted_rebalancing_def)
  ultimately show ?thesis by (intro exI [of _ "h\<lparr>h_pc := Host_idle, h_ret := 0\<rparr>"]) simp
next
  case False
  let ?n = "num_active_channels (ctrl sh)" and ?sh = "sh\<lparr>ctrl := (ctrl sh)\<lparr>control_mutex := 1\<rparr>\<rparr>"
  let ?h = "h\<lparr>h_pages := rebalance_num_page ?n, h_size := rebalance_size ?n\<rparr>"
  show ?thesis
  proof (cases "rebalance_size ?n = buf_size (channels (ctrl sh) ! 0)")
    case True
    then have c: "ret = 0" "cs = (ctrl sh)\<lparr>control_mutex := 0\<rparr>"
      using r False by (simp_all add: ivshmem_trusted_rebalancing_def Let_def)
    have "steps host_alone (h\<lparr>h_pc := Rb_test\<rparr>, sh) (?h\<lparr>h_ret := 0, h_pc := Host_idle\<rparr>, sh\<lparr>ctrl := cs\<rparr>)"
      using False True c by (intro alone_funpow [of "Suc (Suc (Suc (Suc 0)))"]) (cases h, simp add: host_step_defs)
    then show ?thesis using c(1) by (intro exI [of _ "?h\<lparr>h_ret := 0, h_pc := Host_idle\<rparr>"]) simp
  next
    case ne: False
    show ?thesis
    proof (cases "h_malloc h")
      case False
      then have c: "ret = - 1" "cs = (ctrl sh)\<lparr>control_mutex := 1\<rparr>"
        using r ne \<open>\<not> ?n \<le> 0\<close> by (simp_all add: ivshmem_trusted_rebalancing_def Let_def)
      have "steps host_alone (h\<lparr>h_pc := Rb_test\<rparr>, sh) (?h\<lparr>h_ret := - 1, h_pc := Host_idle\<rparr>, sh\<lparr>ctrl := cs\<rparr>)"
        using False ne \<open>\<not> ?n \<le> 0\<close> c by (intro alone_funpow [of "Suc (Suc (Suc (Suc 0)))"]) (cases h, simp add: host_step_defs)
      then show ?thesis using c(1) by (intro exI [of _ "?h\<lparr>h_ret := - 1, h_pc := Host_idle\<rparr>"]) simp
    next
      case True
      let ?t = "?h\<lparr>h_ret := 0, h_tmp := active (ctrl sh)\<rparr>"
      have n: "0 < ?n" "?n \<le> 32" using \<open>\<not> ?n \<le> 0\<close> wf by (auto simp: wf_ctrl_def IVSHMEM_MAX_CHANNELS_def)
      have np: "u32_of_int (rebalance_num_page ?n) \<noteq> 0"
        using rebalance_num_page_bounds [OF n] unat_u32_of_int [of "rebalance_num_page ?n"] by auto
      have la: "length (active (ctrl sh)) = nat ?n" by (rule wf_ctrl_length_active [OF wf])
      have c: "ret = 0" "cs = (ctrl sh)\<lparr>channels := rebalanced (rebalance_num_page ?n) (rebalance_size ?n) 0 (active (ctrl sh))
                 @ replicate (IVSHMEM_MAX_CHANNELS - nat ?n) zero_channel,
               free_start_offset := word_of_nat (nat ?n) * rebalance_size ?n, control_mutex := 0\<rparr>"
        using r True rebalancing_eq [OF wf refl n(1) ne] by simp_all
      have "steps host_alone (?t\<lparr>h_pc := Rb_restart\<rparr>, ?sh) (?t\<lparr>h_pc := Host_idle\<rparr>, sh\<lparr>ctrl := cs\<rparr>)"
        using restore_alone [of "?t\<lparr>h_pc := Rb_restart\<rparr>" ?sh] np la n wf c(2)
        by (cases "ctrl sh") (simp add: wf_ctrl_def IVSHMEM_MAX_CHANNELS_def)
      with save_half [OF wf refl n(1) ne True] show ?thesis
        using c(1) by (intro exI [of _ "?t\<lparr>h_pc := Host_idle\<rparr>"]) (auto intro: steps_trans)
    qed
  qed
qed

section \<open>Properties\<close>

text \<open>
  C7.  Every handler of the trusted host, run alone statement by statement on a well-formed
  control section, ends, and leaves the shared memory as its one-step model does.
\<close>

theorem handlers_alone:
  assumes "wf_ctrl (ctrl sh)"
  shows "\<exists>h' sh'. trusted_event_step ok now ev sh = Inr sh' \<and>
    steps host_alone (host_start ok now ev h, sh) (h', sh') \<and> h_pc h' = Host_idle"
proof (cases ev)
  case Rb_timer
  let ?h = "h\<lparr>h_malloc := ok, h_now := now\<rparr>"
  obtain ret cs where r: "ivshmem_trusted_rebalancing ok (ctrl sh) = Inr (ret, cs)"
    using rebalancing_wf [OF assms, of ok] by blast
  have h: "host_start ok now Rb_timer h = ?h\<lparr>h_pc := Rb_test\<rparr>" by (simp add: host_start_def)
  show ?thesis
    using rebalancing_alone [OF assms, of ?h ret cs] r unfolding Rb_timer h by (auto simp: trusted_event_step_def)
next
  case Ctl_timer
  let ?h = "h\<lparr>h_malloc := ok, h_now := now\<rparr>"
  have h: "host_start ok now Ctl_timer h = ?h\<lparr>h_pc := Ctl_check\<rparr>" by (simp add: host_start_def)
  show ?thesis
  proof (cases "has_channel_candidate (ctrl sh)")
    case True
    obtain ret cs where r: "ivshmem_trusted_control now (ctrl sh) = Inr (ret, cs)"
      using trusted_control_wf [OF assms, of now] by blast
    show ?thesis
      using control_alone [OF assms True, of ?h ret cs] r True unfolding Ctl_timer h
      by (auto simp: trusted_event_step_def ivshmem_check_is_control_requested_def)
  next
    case False
    then have "steps host_alone (?h\<lparr>h_pc := Ctl_check\<rparr>, sh) (?h\<lparr>h_pc := Host_idle\<rparr>, sh)"
      by (intro alone_one) (simp add: host_step_defs ivshmem_check_is_control_requested_def)
    moreover have "trusted_event_step ok now Ctl_timer sh = Inr sh"
      using False by (simp add: trusted_event_step_def ivshmem_check_is_control_requested_def)
    ultimately show ?thesis
      unfolding Ctl_timer h by (intro exI [of _ "?h\<lparr>h_pc := Host_idle\<rparr>"] exI [of _ sh]) simp
  qed
qed (auto simp: trusted_event_step_def host_start_def intro: steps_refl)

theorem handlers_alone_witness:
  "\<exists>h' sh'. trusted_event_step True 7 Rb_timer demo_shm = Inr sh' \<and>
     steps host_alone (host_start True 7 Rb_timer idle_host, demo_shm) (h', sh') \<and> h_pc h' = Host_idle"
  using handlers_alone [of demo_shm True 7 Rb_timer idle_host] demo_wf by (simp add: demo_shm_def)



end
