(* ===== verification/Ivshmem_Fine.thy ===== *)
theory Ivshmem_Fine
  imports Ivshmem_Handlers Ivshmem_Calm
begin

text \<open>
  The handlers of \<open>Ivshmem_Handlers\<close> interleaved with senders and receivers.  The control
  mutex does not keep them apart: a sender looks at it once per page, and a request for a
  channel never does.

  Every run of the coarser system is a run of this one, and this one implements an abstract
  system in which a creation is a single step again, but of a channel with any key: its three
  fields are read one by one from a candidate that may change in between.  Isolation of
  channels survives, the delivery of requests does not.
\<close>

section \<open>The system\<close>

text \<open>
  The parameter \<open>reb\<close> says whether the rebalancing timer may fire whatever the state is;
  otherwise it fires only when the channels already have their sizes.
\<close>

record fine_world =
  fw_world :: world
  fw_host :: host

inductive fine_step :: "bool \<Rightarrow> fine_world \<Rightarrow> fine_world \<Rightarrow> bool" for reb where
  fine_send_call:
    "fine_step reb \<lparr>fw_world = w, fw_host = h\<rparr>
       \<lparr>fw_world = w\<lparr>w_senders := w_senders w @ [send_call k buf sz]\<rparr>, fw_host = h\<rparr>"
| fine_recv_call:
    "fine_step reb \<lparr>fw_world = w, fw_host = h\<rparr>
       \<lparr>fw_world = w\<lparr>w_receivers := w_receivers w @ [recv_call k buf sz]\<rparr>, fw_host = h\<rparr>"
| fine_send:
    "i < length (w_senders w) \<Longrightarrow> ivshmem_send_step now (w_senders w ! i) (w_shm w) = (t, sh) \<Longrightarrow>
     fine_step reb \<lparr>fw_world = w, fw_host = h\<rparr>
       \<lparr>fw_world = w\<lparr>w_senders := (w_senders w)[i := t], w_shm := sh\<rparr>, fw_host = h\<rparr>"
| fine_recv:
    "i < length (w_receivers w) \<Longrightarrow> ivshmem_recv_step (w_receivers w ! i) (w_shm w) = (r, sh) \<Longrightarrow>
     fine_step reb \<lparr>fw_world = w, fw_host = h\<rparr>
       \<lparr>fw_world = w\<lparr>w_receivers := (w_receivers w)[i := r], w_shm := sh\<rparr>, fw_host = h\<rparr>"
| fine_event:
    "h_pc h = Host_idle \<Longrightarrow> (ev = Rb_timer \<Longrightarrow> reb \<or> balanced (ctrl (w_shm w))) \<Longrightarrow>
     fine_step reb \<lparr>fw_world = w, fw_host = h\<rparr> \<lparr>fw_world = w, fw_host = host_start ok now ev h\<rparr>"
| fine_host:
    "host_step h (w_shm w) = (h', sh) \<Longrightarrow>
     fine_step reb \<lparr>fw_world = w, fw_host = h\<rparr> \<lparr>fw_world = w\<lparr>w_shm := sh\<rparr>, fw_host = h'\<rparr>"

definition fine_init :: "fine_world \<Rightarrow> bool" where
  "fine_init f \<longleftrightarrow> world_init (fw_world f) \<and> fw_host f = idle_host"

section \<open>The abstract host\<close>

text \<open>
  Creation is one step, with any key; the mutex and the flag change at any time.
\<close>

inductive lax_step :: "world \<Rightarrow> world \<Rightarrow> bool" where
  lax_world: "world_step False w w' \<Longrightarrow> lax_step w w'"
| lax_create: "ivshmem_create_channel now (ctrl (w_shm w)) k = Inr (0, cs) \<Longrightarrow>
    lax_step w (w\<lparr>w_shm := (w_shm w)\<lparr>ctrl := cs\<rparr>\<rparr>)"
| lax_mutex: "lax_step w (w\<lparr>w_shm := (w_shm w)\<lparr>ctrl := (ctrl (w_shm w))\<lparr>control_mutex := m\<rparr>\<rparr>\<rparr>)"
| lax_clear: "lax_step w (w\<lparr>w_shm := (w_shm w)\<lparr>ctrl := (ctrl (w_shm w))\<lparr>has_channel_candidate := False\<rparr>\<rparr>\<rparr>)"

text \<open>
  The abstract state behind a state of the host: until \<^verbatim>\<open>num_active_channels\<close> is
  incremented the channel does not exist, so its slot counts as unused, and a counter that
  has been incremented already is one creation ahead.
\<close>

definition hide_slot :: "nat \<Rightarrow> u32 \<Rightarrow> size_t \<Rightarrow> shm \<Rightarrow> shm" where
  "hide_slot n l f sh =
     sh\<lparr>ctrl := (ctrl sh)\<lparr>channels := (channels (ctrl sh))[n := zero_channel],
                         last_channel_id := last_channel_id (ctrl sh) - l,
                         free_start_offset := free_start_offset (ctrl sh) - f\<rparr>\<rparr>"

definition committed_shm :: "host \<Rightarrow> shm \<Rightarrow> shm" where
  "committed_shm h sh =
     (case h_pc h of
        Init_write k \<Rightarrow> hide_slot (h_chan h) 0 0 sh
      | Create_id \<Rightarrow> hide_slot (h_chan h) 0 0 sh
      | Create_free \<Rightarrow> hide_slot (h_chan h) 1 0 sh
      | Create_count \<Rightarrow> hide_slot (h_chan h) 1 (size_of_int IVSHMEM_CHANNEL_INIT_SIZE) sh
      | _ \<Rightarrow> sh)"

definition committed :: "fine_world \<Rightarrow> world" where
  "committed f = (fw_world f)\<lparr>w_shm := committed_shm (fw_host f) (w_shm (fw_world f))\<rparr>"

section \<open>The invariant\<close>

text \<open>What the first \<open>k\<close> assignments of the initialisation have left in the slot.\<close>

definition slot_written :: "nat \<Rightarrow> control_section \<Rightarrow> ivshmem_channel \<Rightarrow> bool" where
  "slot_written k cs ch \<longleftrightarrow>
     (0 < k \<longrightarrow> chan_id ch = last_channel_id cs) \<and> (4 < k \<longrightarrow> buf_offset ch = free_start_offset cs) \<and>
     (5 < k \<longrightarrow> buf_size ch = size_of_int IVSHMEM_CHANNEL_INIT_SIZE) \<and> (6 < k \<longrightarrow> data_size ch = 0) \<and>
     (8 < k \<longrightarrow> tail ch = 0) \<and> (9 < k \<longrightarrow> head ch = 0) \<and>
     (10 < k \<longrightarrow> num_page ch = IVSHMEM_CHANNEL_INIT_SIZE div IVSHMEM_PAGE_SIZE) \<and>
     (11 < k \<longrightarrow> head_touch ch = 0) \<and> (12 < k \<longrightarrow> last_sent_at ch = 0)"

definition creating :: "host \<Rightarrow> nat \<Rightarrow> shm \<Rightarrow> bool" where
  "creating h k sh \<longleftrightarrow>
     (let cs = ctrl (committed_shm h sh) in
      h_chan h = nat (num_active_channels cs) \<and> num_active_channels cs < 32 \<and>
      unat (free_start_offset cs) + 16384 \<le> 4192224 \<and> slot_written k cs (chan_at sh (h_chan h)))"

definition host_ok :: "host \<Rightarrow> shm \<Rightarrow> bool" where
  "host_ok h sh \<longleftrightarrow>
     (case h_pc h of
        Ctl_space \<Rightarrow> num_active_channels (ctrl sh) < 32
      | Init_write k \<Rightarrow> k \<le> 12 \<and> creating h k sh
      | Create_id \<Rightarrow> creating h 13 sh
      | Create_free \<Rightarrow> creating h 13 sh
      | Create_count \<Rightarrow> creating h 13 sh
      | Rb_test \<Rightarrow> balanced (ctrl sh)
      | Rb_lock \<Rightarrow> balanced (ctrl sh) \<and> 0 < num_active_channels (ctrl sh)
      | Rb_size \<Rightarrow> balanced (ctrl sh) \<and> 0 < num_active_channels (ctrl sh)
      | Rb_malloc \<Rightarrow> False | Rb_save i \<Rightarrow> False | Rb_restart \<Rightarrow> False | Rb_loop i \<Rightarrow> False
      | Rb_move i k \<Rightarrow> False | Rb_count i \<Rightarrow> False | Rb_wipe i \<Rightarrow> False | Host_fault e \<Rightarrow> False
      | _ \<Rightarrow> True)"

definition unused_zero :: "control_section \<Rightarrow> bool" where
  "unused_zero cs \<longleftrightarrow>
     (\<forall>c. nat (num_active_channels cs) \<le> c \<and> c < 32 \<longrightarrow> channels cs ! c = zero_channel)"

definition fine_inv :: "fine_world \<Rightarrow> bool" where
  "fine_inv f \<longleftrightarrow>
     world_inv False (committed f) \<and> unused_zero (ctrl (w_shm (committed f))) \<and>
     host_ok (fw_host f) (w_shm (fw_world f))"

text \<open>What a step of a sender or a receiver leaves alone in the control section.\<close>

definition layout_kept :: "shm \<Rightarrow> shm \<Rightarrow> bool" where
  "layout_kept sh sh' \<longleftrightarrow>
     num_active_channels (ctrl sh') = num_active_channels (ctrl sh) \<and>
     last_channel_id (ctrl sh') = last_channel_id (ctrl sh) \<and>
     free_start_offset (ctrl sh') = free_start_offset (ctrl sh) \<and>
     map buf_size (channels (ctrl sh')) = map buf_size (channels (ctrl sh)) \<and>
     (\<forall>c. nat (num_active_channels (ctrl sh)) \<le> c \<longrightarrow> chan_at sh' c = chan_at sh c)"

text \<open>A step of the host, seen on the abstract memory.\<close>

definition host_commit :: "shm \<Rightarrow> shm \<Rightarrow> bool" where
  "host_commit s s' \<longleftrightarrow>
     s' = s \<or> (\<exists>m. s' = s\<lparr>ctrl := (ctrl s)\<lparr>control_mutex := m\<rparr>\<rparr>) \<or>
     s' = s\<lparr>ctrl := (ctrl s)\<lparr>has_channel_candidate := False\<rparr>\<rparr> \<or>
     (\<exists>k cs. ivshmem_create_channel 0 (ctrl s) k = Inr (0, cs) \<and> s' = s\<lparr>ctrl := cs\<rparr>)"

text \<open>A world of two senders and no receiver.\<close>

definition duo :: "sender \<Rightarrow> sender \<Rightarrow> host \<Rightarrow> shm \<Rightarrow> fine_world" where
  "duo s t h sh = \<lparr>fw_world = \<lparr>w_shm = sh, w_senders = [s, t], w_receivers = []\<rparr>, fw_host = h\<rparr>"

text \<open>The three steps that raise a request, and the two that find it was not served.\<close>

definition requested :: "channel_key \<Rightarrow> shm \<Rightarrow> shm" where
  "requested k sh = sh\<lparr>ctrl := (ctrl sh)\<lparr>has_channel_candidate := True, channel_candidate := k\<rparr>\<rparr>"

section \<open>Senders and receivers do not see the hidden slot\<close>

lemma hide_slot_simps [simp]:
  "num_active_channels (ctrl (hide_slot n l f sh)) = num_active_channels (ctrl sh)"
  "control_mutex (ctrl (hide_slot n l f sh)) = control_mutex (ctrl sh)"
  "has_channel_candidate (ctrl (hide_slot n l f sh)) = has_channel_candidate (ctrl sh)"
  "channel_candidate (ctrl (hide_slot n l f sh)) = channel_candidate (ctrl sh)"
  "channels (ctrl (hide_slot n l f sh)) = (channels (ctrl sh))[n := zero_channel]"
  "last_channel_id (ctrl (hide_slot n l f sh)) = last_channel_id (ctrl sh) - l"
  "free_start_offset (ctrl (hide_slot n l f sh)) = free_start_offset (ctrl sh) - f"
  "shm_data (hide_slot n l f sh) = shm_data sh"
  by (simp_all add: hide_slot_def)

lemma hide_slot_updates:
  "(hide_slot n l f sh)\<lparr>ctrl := (ctrl (hide_slot n l f sh))\<lparr>control_mutex := m\<rparr>\<rparr> =
    hide_slot n l f (sh\<lparr>ctrl := (ctrl sh)\<lparr>control_mutex := m\<rparr>\<rparr>)"
  "(hide_slot n l f sh)\<lparr>ctrl := (ctrl (hide_slot n l f sh))\<lparr>has_channel_candidate := b\<rparr>\<rparr> =
    hide_slot n l f (sh\<lparr>ctrl := (ctrl sh)\<lparr>has_channel_candidate := b\<rparr>\<rparr>)"
  "(hide_slot n l f sh)\<lparr>ctrl := (ctrl (hide_slot n l f sh))\<lparr>channel_candidate := k\<rparr>\<rparr> =
    hide_slot n l f (sh\<lparr>ctrl := (ctrl sh)\<lparr>channel_candidate := k\<rparr>\<rparr>)"
  "(hide_slot n l f sh)\<lparr>shm_data := d\<rparr> = hide_slot n l f (sh\<lparr>shm_data := d\<rparr>)"
  "c \<noteq> n \<Longrightarrow> upd_channel c g (hide_slot n l f sh) = hide_slot n l f (upd_channel c g sh)"
  by (simp_all add: hide_slot_def upd_channel_def list_update_swap)

lemma hide_slot_find:
  assumes "num_active_channels (ctrl sh) \<le> int n" and "num_active_channels (ctrl sh) \<le> int (length (channels (ctrl sh)))"
  shows "ivshmem_find_channel (ctrl (hide_slot n l f sh)) k = ivshmem_find_channel (ctrl sh) k"
proof -
  have "map (\<lambda>j. key_matches k (chan_key ((channels (ctrl sh))[n := zero_channel] ! j))) [0..<nat (num_active_channels (ctrl sh))] =
        map (\<lambda>j. key_matches k (chan_key (channels (ctrl sh) ! j))) [0..<nat (num_active_channels (ctrl sh))]"
    using assms(1) by (intro map_cong) auto
  then have "List.find (\<lambda>j. key_matches k (chan_key ((channels (ctrl sh))[n := zero_channel] ! j))) [0..<nat (num_active_channels (ctrl sh))] =
        List.find (\<lambda>j. key_matches k (chan_key (channels (ctrl sh) ! j))) [0..<nat (num_active_channels (ctrl sh))]"
    using assms(1) by (intro find_cong) auto
  then show ?thesis
    using assms(2) by (simp add: ivshmem_find_channel_def find_channel_eq_find)
qed

lemma hide_slot_chan: "c \<noteq> n \<Longrightarrow> chan_at (hide_slot n l f sh) c = chan_at sh c"
  by simp

lemma send_step_hidden:
  assumes ok: "sender_ok (ctrl sh) t" and step: "ivshmem_send_step now t sh = (t', sh')"
    and n: "num_active_channels (ctrl sh) \<le> int n" "num_active_channels (ctrl sh) \<le> int (length (channels (ctrl sh)))"
  shows "ivshmem_send_step now t (hide_slot n l f sh) = (t', hide_slot n l f sh')"
proof -
  have c: "send_running (snd_pc t) \<Longrightarrow> snd_chan t \<noteq> n" using ok n(1) by (auto simp: sender_ok_def)
  note eqs = ivshmem_send_step_def in_request_def request_channel_step_def send_loop_step_def send_copy_step_def Let_def
    hide_slot_find [OF n] hide_slot_updates hide_slot_chan
  show ?thesis
    using c step
    by (cases "snd_pc t") (auto simp: eqs simp del: hide_slot_simps(5) split: if_splits sum.splits option.splits)
qed

lemma recv_step_hidden:
  assumes ok: "receiver_ok (ctrl sh) r" and step: "ivshmem_recv_step r sh = (r', sh')"
    and n: "num_active_channels (ctrl sh) \<le> int n" "num_active_channels (ctrl sh) \<le> int (length (channels (ctrl sh)))"
  shows "ivshmem_recv_step r (hide_slot n l f sh) = (r', hide_slot n l f sh')"
proof -
  have c: "recv_running (rcv_pc r) \<Longrightarrow> rcv_chan r \<noteq> n" using ok n(1) by (auto simp: receiver_ok_def)
  note eqs = ivshmem_recv_step_def recv_loop_step_def recv_copy_step_def Let_def
    hide_slot_find [OF n] hide_slot_updates hide_slot_chan
  show ?thesis
    using c step
    by (cases "rcv_pc r") (auto simp: eqs simp del: hide_slot_simps(5) split: if_splits sum.splits option.splits)
qed

lemma layout_kept_intros:
  "layout_kept sh sh"
  "layout_kept sh (sh\<lparr>shm_data := d\<rparr>)"
  "layout_kept sh (sh\<lparr>ctrl := (ctrl sh)\<lparr>has_channel_candidate := b\<rparr>\<rparr>)"
  "layout_kept sh (sh\<lparr>ctrl := (ctrl sh)\<lparr>channel_candidate := k\<rparr>\<rparr>)"
  "c < nat (num_active_channels (ctrl sh)) \<Longrightarrow> keeps_layout g \<Longrightarrow> layout_kept sh (upd_channel c g sh)"
  by (auto simp: layout_kept_def upd_channel_def keeps_layout_def intro: map_update_same)

lemma send_step_layout:
  assumes "sender_ok (ctrl sh) t" and "ivshmem_send_step now t sh = (t', sh')"
  shows "layout_kept sh sh'"
proof -
  have c: "send_running (snd_pc t) \<Longrightarrow> snd_chan t < nat (num_active_channels (ctrl sh))"
    using assms(1) by (auto simp: sender_ok_def)
  show ?thesis
    using c assms(2)
    by (cases "snd_pc t") (auto simp: ivshmem_send_step_def in_request_def request_channel_step_def send_loop_step_def
        send_copy_step_def Let_def layout_kept_intros split: if_splits sum.splits option.splits)
qed

lemma recv_step_layout:
  assumes "receiver_ok (ctrl sh) r" and "ivshmem_recv_step r sh = (r', sh')"
  shows "layout_kept sh sh'"
proof -
  have c: "recv_running (rcv_pc r) \<Longrightarrow> rcv_chan r < nat (num_active_channels (ctrl sh))"
    using assms(1) by (auto simp: receiver_ok_def)
  show ?thesis
    using c assms(2)
    by (cases "rcv_pc r") (auto simp: ivshmem_recv_step_def recv_loop_step_def
        recv_copy_step_def Let_def layout_kept_intros split: if_splits sum.splits option.splits)
qed

section \<open>Steps of the host\<close>

lemma init_writes_written:
  assumes "k \<le> 12" and "last_channel_id cs' = last_channel_id cs" and "free_start_offset cs' = free_start_offset cs"
    and "slot_written k cs ch"
  shows "slot_written (Suc k) cs ((init_writes now cs' ! k) ch)"
proof -
  have "k \<in> {0, 1, 2, 3, 4, 5, 6, 7, 8, 9, 10, 11, 12}" using assms(1) by simp presburger
  then show ?thesis
    using assms(2-4) by (elim insertE emptyE) (simp_all add: slot_written_def init_writes_def Let_def)
qed

lemma slot_written_all:
  assumes "slot_written 13 cs ch"
  shows "ch = ivshmem_init_channel now cs ch' (chan_key ch)"
  using assms by (simp add: slot_written_def ivshmem_init_channel_def Let_def)

lemma hide_slot_upd: "hide_slot n l f (upd_channel n g sh) = hide_slot n l f sh"
  by (simp add: hide_slot_def upd_channel_def)

lemma hide_slot_counters:
  "hide_slot n 1 f (sh\<lparr>ctrl := (ctrl sh)\<lparr>last_channel_id := last_channel_id (ctrl sh) + 1\<rparr>\<rparr>) = hide_slot n 0 f sh"
  "hide_slot n l g (sh\<lparr>ctrl := (ctrl sh)\<lparr>free_start_offset := free_start_offset (ctrl sh) + g\<rparr>\<rparr>) = hide_slot n l 0 sh"
  by (simp_all add: hide_slot_def)

lemma hide_slot_unused:
  assumes "channels (ctrl sh) ! n = zero_channel"
  shows "hide_slot n 0 0 sh = sh"
proof -
  have "(channels (ctrl sh))[n := zero_channel] = channels (ctrl sh)" using assms list_update_id by metis
  then show ?thesis by (simp add: hide_slot_def)
qed

lemma creation_commits:
  assumes wf: "wf_ctrl (ctrl (committed_shm h sh))" and pc: "h_pc h = Create_count" and cr: "creating h 13 sh"
  shows "\<exists>k. ivshmem_create_channel now (ctrl (committed_shm h sh)) k =
     Inr (0, (ctrl sh)\<lparr>num_active_channels := num_active_channels (ctrl sh) + 1\<rparr>)"
proof -
  let ?s = "committed_shm h sh" and ?ch = "chan_at sh (h_chan h)"
  have s: "?s = hide_slot (h_chan h) 1 (size_of_int IVSHMEM_CHANNEL_INIT_SIZE) sh" using pc by (simp add: committed_shm_def)
  have c: "h_chan h = nat (num_active_channels (ctrl ?s))" "num_active_channels (ctrl ?s) < 32"
    "unat (free_start_offset (ctrl ?s)) + 16384 \<le> 4192224" "slot_written 13 (ctrl ?s) ?ch"
    using cr unfolding creating_def Let_def by blast+
  have ch: "ivshmem_init_channel now (ctrl ?s) x (chan_key ?ch) = ?ch" for x
    using slot_written_all [OF c(4)] by simp
  show ?thesis
    using wf
  proof (cases rule: create_channel_cases [where now = now and k = "chan_key ?ch"])
    case (created n cs')
    then have "cs' = (ctrl ?s)\<lparr>channels := (channels (ctrl ?s))[h_chan h := ?ch], last_channel_id := last_channel_id (ctrl ?s) + 1,
        free_start_offset := free_start_offset (ctrl ?s) + size_of_int IVSHMEM_CHANNEL_INIT_SIZE,
        num_active_channels := num_active_channels (ctrl ?s) + 1\<rparr>"
      using c(1) unfolding ch by simp
    then have "cs' = (ctrl sh)\<lparr>num_active_channels := num_active_channels (ctrl sh) + 1\<rparr>"
      unfolding s by (simp add: hide_slot_def)
    then show ?thesis using created(5) by blast
  qed (use c in auto)
qed

lemma space_commits:
  assumes wf: "wf_ctrl (ctrl (committed_shm h sh))" and z: "unused_zero (ctrl (committed_shm h sh))"
    and ok: "host_ok h sh" and step: "control_step h sh = (h', sh')" and Ctl_space: "h_pc h = Ctl_space"
  shows "host_commit (committed_shm h sh) (committed_shm h' sh') \<and> host_ok h' sh'"
proof -
  have s: "committed_shm h sh = sh" using Ctl_space by (simp add: committed_shm_def)
  let ?n = "nat (num_active_channels (ctrl sh))"
  have n: "0 \<le> num_active_channels (ctrl sh)" "num_active_channels (ctrl sh) < 32"
    using wf ok Ctl_space unfolding s by (auto simp: wf_ctrl_def host_ok_def)
  then have zn: "hide_slot ?n 0 0 sh = sh"
    using z unfolding s by (intro hide_slot_unused) (auto simp: unused_zero_def)
  show ?thesis
  proof (cases "DATA_SECTION_SIZE < free_start_offset (ctrl sh) + size_of_int IVSHMEM_CHANNEL_INIT_SIZE")
    case True
    then show ?thesis using step Ctl_space
      by (auto simp: control_step_def Let_def committed_shm_def host_ok_def host_commit_def)
  next
    case False
    have h': "h' = h\<lparr>h_pc := Init_write 0, h_chan := ?n\<rparr>" "sh' = sh"
      using step Ctl_space n False by (auto simp: control_step_def Let_def)
    have "unat (free_start_offset (ctrl sh)) + 16384 \<le> 4192224"
      using wf unfolding s
    proof (cases rule: create_channel_cases [where now = 0 and k = zero_key])
      case no_space
      then show ?thesis using False n by (auto simp: ivshmem_create_channel_def ivshmem_consts Let_def split: if_splits)
    qed (use n in auto)
    then show ?thesis
      using n zn unfolding h' s by (simp add: committed_shm_def host_ok_def host_commit_def creating_def slot_written_def)
  qed
qed

lemma init_commits:
  assumes wf: "wf_ctrl (ctrl (committed_shm h sh))" and ok: "host_ok h sh"
    and step: "control_step h sh = (h', sh')" and Init_write: "h_pc h = Init_write k"
  shows "host_commit (committed_shm h sh) (committed_shm h' sh') \<and> host_ok h' sh'"
proof -
  have k: "k \<le> 12" and cr: "creating h k sh" using ok Init_write by (simp_all add: host_ok_def)
  have h': "h' = h\<lparr>h_pc := (if k < 12 then Init_write (Suc k) else Create_id)\<rparr>"
    "sh' = upd_channel (h_chan h) (init_writes (h_now h) (ctrl sh) ! k) sh"
    using step Init_write by (simp_all add: control_step_def Let_def)
  have s: "committed_shm h sh = hide_slot (h_chan h) 0 0 sh" using Init_write by (simp add: committed_shm_def)
  have s': "committed_shm h' sh' = committed_shm h sh"
    unfolding s using h' by (simp add: committed_shm_def hide_slot_upd)
  have len: "h_chan h < length (channels (ctrl sh))"
    using cr wf unfolding s by (auto simp: creating_def s Let_def wf_ctrl_def ivshmem_consts)
  have "slot_written k (ctrl (committed_shm h sh)) (chan_at sh (h_chan h))"
    using cr unfolding creating_def Let_def by blast
  from init_writes_written [OF k _ _ this, of "ctrl sh" "h_now h"]
  have "slot_written (Suc k) (ctrl (committed_shm h sh)) (chan_at sh' (h_chan h))"
    unfolding h'(2) upd_channel_at [OF len] by (simp add: s)
  moreover have "h_chan h' = h_chan h" using h'(1) by simp
  ultimately have "creating h' (Suc k) sh'" using cr by (simp only: creating_def Let_def s')
  moreover have "k < 12 \<or> Suc k = 13" using k by auto
  ultimately show ?thesis using h'(1) s' by (auto simp: host_ok_def host_commit_def)
qed

lemma control_commits:
  assumes wf: "wf_ctrl (ctrl (committed_shm h sh))" and z: "unused_zero (ctrl (committed_shm h sh))"
    and ok: "host_ok h sh" and step: "control_step h sh = (h', sh')" and "\<not> in_rebalancing (h_pc h)"
  shows "host_commit (committed_shm h sh) (committed_shm h' sh') \<and> host_ok h' sh'"
proof (cases "h_pc h")
  case Ctl_full
  then show ?thesis using step
    by (auto simp: control_step_def Let_def committed_shm_def host_ok_def host_commit_def IVSHMEM_MAX_CHANNELS_def split: if_splits)
next
  case Ctl_space
  show ?thesis by (rule space_commits [OF wf z ok step Ctl_space])
next
  case (Init_write k)
  show ?thesis by (rule init_commits [OF wf ok step Init_write])
next
  case Create_id
  then have s': "committed_shm h' sh' = committed_shm h sh" and h': "h' = h\<lparr>h_pc := Create_free\<rparr>"
    and "channels (ctrl sh') = channels (ctrl sh)"
    using step by (auto simp: control_step_def Let_def committed_shm_def hide_slot_counters)
  then show ?thesis using ok Create_id by (simp add: host_ok_def host_commit_def creating_def)
next
  case Create_free
  then have s': "committed_shm h' sh' = committed_shm h sh" and h': "h' = h\<lparr>h_pc := Create_count\<rparr>"
    and "channels (ctrl sh') = channels (ctrl sh)"
    using step by (auto simp: control_step_def Let_def committed_shm_def hide_slot_counters)
  then show ?thesis using ok Create_free by (simp add: host_ok_def host_commit_def creating_def)
next
  case Create_count
  then have cr: "creating h 13 sh" using ok by (simp add: host_ok_def)
  have sh': "sh' = sh\<lparr>ctrl := (ctrl sh)\<lparr>num_active_channels := num_active_channels (ctrl sh) + 1\<rparr>\<rparr>"
    and h': "h_pc h' = Ctl_clear"
    using step Create_count by (auto simp: control_step_def Let_def)
  have "(committed_shm h sh)\<lparr>ctrl := cs\<rparr> = sh\<lparr>ctrl := cs\<rparr>" for cs
    using Create_count by (simp add: committed_shm_def hide_slot_def)
  then show ?thesis
    using creation_commits [OF wf Create_count cr, of 0] h' unfolding sh'
    by (auto simp: committed_shm_def host_commit_def host_ok_def)
qed (use step ok assms(5) in \<open>auto simp: control_step_def Let_def committed_shm_def host_ok_def host_commit_def in_rebalancing_def\<close>)

lemma rebalancing_commits:
  assumes wf: "wf_ctrl (ctrl sh)" and ok: "host_ok h sh" and step: "rebalancing_step h sh = (h', sh')" and pc: "in_rebalancing (h_pc h)"
  shows "host_commit (committed_shm h sh) (committed_shm h' sh') \<and> host_ok h' sh'"
proof (cases "h_pc h")
  case Rb_lock
  then show ?thesis using step ok
    by (auto simp: rebalancing_step_def Let_def committed_shm_def host_ok_def host_commit_def balanced_def)
next
  case Rb_size
  then have b: "balanced (ctrl sh)" "0 < num_active_channels (ctrl sh)" using ok by (simp_all add: host_ok_def)
  then have "rebalance_size (num_active_channels (ctrl sh)) = buf_size (channels (ctrl sh) ! 0)"
    using balanced_channel(2) [OF wf b(1), of 0] by simp
  then show ?thesis using step Rb_size
    by (auto simp: rebalancing_step_def Let_def committed_shm_def host_ok_def host_commit_def)
qed (use step ok pc in \<open>auto simp: rebalancing_step_def Let_def committed_shm_def host_ok_def host_commit_def in_rebalancing_def split: if_splits\<close>)

lemma committed_not_creating:
  "in_rebalancing (h_pc h) \<Longrightarrow> committed_shm h sh = sh"
  by (simp add: committed_shm_def in_rebalancing_def split: host_pc.splits)

lemma host_commits:
  assumes "wf_ctrl (ctrl (committed_shm h sh))" and "unused_zero (ctrl (committed_shm h sh))"
    and "host_ok h sh" and "host_step h sh = (h', sh')"
  shows "host_commit (committed_shm h sh) (committed_shm h' sh')" and "host_ok h' sh'"
  using assms control_commits [of h sh h' sh'] rebalancing_commits [of sh h h' sh'] committed_not_creating [of h sh]
  by (auto simp: host_step_def split: if_splits)

lemma create_kept:
  assumes wf: "wf_ctrl cs" and c: "ivshmem_create_channel now cs k = Inr (ret, cs')"
  shows "wf_ctrl cs'" and "wf_sizes cs \<Longrightarrow> wf_sizes cs'" and "keeps_place cs cs'"
    and "unused_zero cs \<Longrightarrow> unused_zero cs'"
proof -
  show "wf_ctrl cs'" using create_channel_wf [OF wf, of now k] c by auto
  show "wf_sizes cs'" if "wf_sizes cs" by (rule create_wf_sizes [OF wf that c])
  have "keeps_place cs cs' \<and> (unused_zero cs \<longrightarrow> unused_zero cs')"
    using wf
  proof (cases rule: create_channel_cases [where now = now and k = k])
    case (created n cs1)
    then show ?thesis using c wf
      by (auto simp: keeps_place_def grows_def unused_zero_def nat_add_distrib wf_ctrl_def)
  qed (use c in auto)
  then show "keeps_place cs cs'" "unused_zero cs \<Longrightarrow> unused_zero cs'" by blast+
qed

lemma host_commit_kept:
  assumes wf: "wf_ctrl (ctrl s)" and c: "host_commit s s'"
  shows "wf_ctrl (ctrl s')" and "wf_sizes (ctrl s) \<Longrightarrow> wf_sizes (ctrl s')" and "keeps_place (ctrl s) (ctrl s')"
    and "unused_zero (ctrl s) \<Longrightarrow> unused_zero (ctrl s')" and "shm_data s' = shm_data s"
proof -
  consider "s' = s" | m where "s' = s\<lparr>ctrl := (ctrl s)\<lparr>control_mutex := m\<rparr>\<rparr>"
    | "s' = s\<lparr>ctrl := (ctrl s)\<lparr>has_channel_candidate := False\<rparr>\<rparr>"
    | k cs where "ivshmem_create_channel 0 (ctrl s) k = Inr (0, cs)" "s' = s\<lparr>ctrl := cs\<rparr>"
    using c by (auto simp: host_commit_def)
  then have "wf_ctrl (ctrl s') \<and> (wf_sizes (ctrl s) \<longrightarrow> wf_sizes (ctrl s')) \<and> keeps_place (ctrl s) (ctrl s') \<and>
    (unused_zero (ctrl s) \<longrightarrow> unused_zero (ctrl s')) \<and> shm_data s' = shm_data s"
  proof cases
    case (4 k cs)
    then show ?thesis using create_kept [OF wf 4(1)] by simp
  qed (use wf in \<open>auto simp: keeps_place_def grows_def unused_zero_def\<close>)
  then show "wf_ctrl (ctrl s')" "wf_sizes (ctrl s) \<Longrightarrow> wf_sizes (ctrl s')" "keeps_place (ctrl s) (ctrl s')"
    "unused_zero (ctrl s) \<Longrightarrow> unused_zero (ctrl s')" "shm_data s' = shm_data s"
    by blast+
qed

section \<open>Steps of the senders and receivers\<close>

lemma layout_kept_hide:
  assumes "layout_kept sh sh'"
  shows "layout_kept (hide_slot n l f sh) (hide_slot n l f sh')"
proof -
  have len: "length (channels (ctrl sh')) = length (channels (ctrl sh))"
    using assms unfolding layout_kept_def by (metis length_map)
  then show ?thesis
    using assms by (cases "n < length (channels (ctrl sh))")
      (auto simp: layout_kept_def map_update nth_list_update list_update_beyond not_less)
qed

lemma layout_kept_committed:
  "layout_kept sh sh' \<Longrightarrow> layout_kept (committed_shm h sh) (committed_shm h sh')"
  by (simp add: committed_shm_def layout_kept_hide split: host_pc.split)

lemma layout_kept_unused:
  "layout_kept s s' \<Longrightarrow> unused_zero (ctrl s) \<Longrightarrow> unused_zero (ctrl s')"
  by (simp add: layout_kept_def unused_zero_def)

lemma layout_kept_balanced:
  assumes "layout_kept sh sh'"
  shows "balanced (ctrl sh') = balanced (ctrl sh)"
proof -
  have "map buf_size (active (ctrl sh')) = map buf_size (active (ctrl sh))"
    using assms by (simp add: active_def layout_kept_def take_map [symmetric])
  then show ?thesis using assms by (simp add: balanced_def layout_kept_def)
qed

lemma creating_kept:
  assumes cr: "creating h k sh" and l: "layout_kept sh sh'"
  shows "creating h k sh'"
proof -
  let ?s = "committed_shm h sh" and ?s' = "committed_shm h sh'"
  have k: "layout_kept ?s ?s'" by (rule layout_kept_committed [OF l])
  have "num_active_channels (ctrl ?s) = num_active_channels (ctrl sh)"
    by (simp add: committed_shm_def split: host_pc.split)
  then have c: "chan_at sh' (h_chan h) = chan_at sh (h_chan h)"
    using cr l by (simp add: creating_def Let_def layout_kept_def)
  have "slot_written k (ctrl ?s) = slot_written k (ctrl ?s')"
    using k by (auto simp: slot_written_def layout_kept_def)
  then show ?thesis
    using cr k c unfolding creating_def Let_def layout_kept_def by metis
qed

lemma host_ok_kept:
  "host_ok h sh \<Longrightarrow> layout_kept sh sh' \<Longrightarrow> host_ok h sh'"
  using layout_kept_balanced [of sh sh'] creating_kept [of h _ sh sh']
  by (auto simp: host_ok_def layout_kept_def split: host_pc.splits)

lemma creating_hidden:
  assumes "host_ok h sh" and "wf_ctrl (ctrl (committed_shm h sh))"
  shows "committed_shm h sh = sh \<and> committed_shm h sh' = sh' \<or>
    (\<exists>l f. committed_shm h sh = hide_slot (h_chan h) l f sh \<and> committed_shm h sh' = hide_slot (h_chan h) l f sh' \<and>
       num_active_channels (ctrl sh) \<le> int (h_chan h)) \<and>
    num_active_channels (ctrl sh) \<le> int (length (channels (ctrl sh)))"
  using assms
  by (auto simp: committed_shm_def host_ok_def creating_def Let_def wf_ctrl_def split: host_pc.splits)

lemma committed_parties:
  assumes "host_ok h sh" and "wf_ctrl (ctrl (committed_shm h sh))"
  shows "sender_ok (ctrl (committed_shm h sh)) t = sender_ok (ctrl sh) t"
    and "receiver_ok (ctrl (committed_shm h sh)) r = receiver_ok (ctrl sh) r"
  using creating_hidden [OF assms, of sh] by (auto simp: sender_ok_def receiver_ok_def)

lemma send_step_committed:
  assumes "host_ok h sh" and "wf_ctrl (ctrl (committed_shm h sh))" and "sender_ok (ctrl (committed_shm h sh)) t"
    and "ivshmem_send_step now t sh = (t', sh')"
  shows "ivshmem_send_step now t (committed_shm h sh) = (t', committed_shm h sh')" and "layout_kept sh sh'"
  using assms creating_hidden [OF assms(1,2), of sh'] send_step_hidden [OF _ assms(4)] send_step_layout [OF _ assms(4)]
    committed_parties(1) [OF assms(1,2)]
  by auto

lemma recv_step_committed:
  assumes "host_ok h sh" and "wf_ctrl (ctrl (committed_shm h sh))" and "receiver_ok (ctrl (committed_shm h sh)) r"
    and "ivshmem_recv_step r sh = (r', sh')"
  shows "ivshmem_recv_step r (committed_shm h sh) = (r', committed_shm h sh')" and "layout_kept sh sh'"
  using assms creating_hidden [OF assms(1,2), of sh'] recv_step_hidden [OF _ assms(4)] recv_step_layout [OF _ assms(4)]
    committed_parties(2) [OF assms(1,2)]
  by auto

section \<open>The simulation\<close>

lemma committed_simps [simp]:
  "w_senders (committed f) = w_senders (fw_world f)"
  "w_receivers (committed f) = w_receivers (fw_world f)"
  "w_shm (committed f) = committed_shm (fw_host f) (w_shm (fw_world f))"
  by (simp_all add: committed_def)

lemma committed_call:
  "committed \<lparr>fw_world = w\<lparr>w_senders := ts\<rparr>, fw_host = h\<rparr> = (committed \<lparr>fw_world = w, fw_host = h\<rparr>)\<lparr>w_senders := ts\<rparr>"
  "committed \<lparr>fw_world = w\<lparr>w_receivers := rs\<rparr>, fw_host = h\<rparr> = (committed \<lparr>fw_world = w, fw_host = h\<rparr>)\<lparr>w_receivers := rs\<rparr>"
  by (cases w; simp add: committed_def)+

lemma committed_send:
  "committed \<lparr>fw_world = w\<lparr>w_senders := ts, w_shm := sh\<rparr>, fw_host = h\<rparr> =
     (committed \<lparr>fw_world = w, fw_host = h\<rparr>)\<lparr>w_senders := ts, w_shm := committed_shm h sh\<rparr>"
  "committed \<lparr>fw_world = w\<lparr>w_receivers := rs, w_shm := sh\<rparr>, fw_host = h\<rparr> =
     (committed \<lparr>fw_world = w, fw_host = h\<rparr>)\<lparr>w_receivers := rs, w_shm := committed_shm h sh\<rparr>"
  "committed \<lparr>fw_world = w\<lparr>w_shm := sh\<rparr>, fw_host = h'\<rparr> =
     (committed \<lparr>fw_world = w, fw_host = h\<rparr>)\<lparr>w_shm := committed_shm h' sh\<rparr>"
  by (simp_all add: committed_def)

lemma host_commit_lax:
  assumes "host_commit (w_shm w) sh"
  shows "w\<lparr>w_shm := sh\<rparr> = w \<or> lax_step w (w\<lparr>w_shm := sh\<rparr>)"
  using assms by (auto simp: host_commit_def intro: lax_mutex lax_clear lax_create)

lemma fine_parts:
  assumes "fine_inv \<lparr>fw_world = w, fw_host = h\<rparr>"
  shows "wf_ctrl (ctrl (committed_shm h (w_shm w)))" and "unused_zero (ctrl (committed_shm h (w_shm w)))"
    and "host_ok h (w_shm w)" and "i < length (w_senders w) \<Longrightarrow> sender_ok (ctrl (committed_shm h (w_shm w))) (w_senders w ! i)"
    and "j < length (w_receivers w) \<Longrightarrow> receiver_ok (ctrl (committed_shm h (w_shm w))) (w_receivers w ! j)"
  using assms by (auto simp: fine_inv_def world_inv_def Let_def)

lemma fine_step_sim:
  assumes inv: "fine_inv f" and step: "fine_step False f f'"
  shows "(committed f' = committed f \<or> lax_step (committed f) (committed f')) \<and>
    unused_zero (ctrl (w_shm (committed f'))) \<and> host_ok (fw_host f') (w_shm (fw_world f'))"
  using step
proof cases
  case (fine_send_call w h k buf sz)
  have "world_step False (committed f) (committed f')"
    using world_send_call [of False "committed f" k buf sz] unfolding fine_send_call(1,2) committed_call by simp
  then show ?thesis using fine_parts [OF inv [unfolded fine_send_call(1)]] unfolding fine_send_call by (auto intro: lax_world)
next
  case (fine_recv_call w h k buf sz)
  have "world_step False (committed f) (committed f')"
    using world_recv_call [of False "committed f" k buf sz] unfolding fine_recv_call(1,2) committed_call by simp
  then show ?thesis using fine_parts [OF inv [unfolded fine_recv_call(1)]] unfolding fine_recv_call by (auto intro: lax_world)
next
  case (fine_send i w now t sh h)
  note p = fine_parts [OF inv [unfolded fine_send(1)]]
  note s = send_step_committed [OF p(3,1) p(4) [OF fine_send(3)] fine_send(4)]
  have "world_step False (committed f) (committed f')"
    unfolding fine_send(1,2) committed_send using fine_send(3) s(1) world_send [of i "committed f" now t _ False] fine_send(1) by simp
  then show ?thesis
    using p host_ok_kept [OF p(3) s(2)] layout_kept_unused [OF layout_kept_committed [OF s(2)] p(2)]
    unfolding fine_send(1,2) by (auto intro: lax_world)
next
  case (fine_recv i w r sh h)
  note p = fine_parts [OF inv [unfolded fine_recv(1)]]
  note s = recv_step_committed [OF p(3,1) p(5) [OF fine_recv(3)] fine_recv(4)]
  have "world_step False (committed f) (committed f')"
    unfolding fine_recv(1,2) committed_send using fine_recv(3) s(1) world_recv [of i "committed f" r _ False] fine_recv(1) by simp
  then show ?thesis
    using p host_ok_kept [OF p(3) s(2)] layout_kept_unused [OF layout_kept_committed [OF s(2)] p(2)]
    unfolding fine_recv(1,2) by (auto intro: lax_world)
next
  case (fine_event h ev w ok now)
  note p = fine_parts [OF inv [unfolded fine_event(1)]]
  have "committed f' = committed f"
    unfolding fine_event(1,2) committed_def using fine_event(3)
    by (simp add: committed_shm_def host_start_def split: trusted_event.split)
  moreover have "host_ok (fw_host f') (w_shm w)"
    unfolding fine_event(2) using fine_event(4) by (simp add: host_ok_def host_start_def split: trusted_event.split)
  ultimately show ?thesis using p unfolding fine_event(1,2) by simp
next
  case (fine_host h w h' sh)
  note p = fine_parts [OF inv [unfolded fine_host(1)]]
  note c = host_commits [OF p(1-3) fine_host(3)]
  have "committed f' = committed f \<or> lax_step (committed f) (committed f')"
    using host_commit_lax [of "committed f" "committed_shm h' sh"] c(1)
    unfolding fine_host(1,2) committed_send(3) [of _ _ _ h] by simp
  then show ?thesis
    using c(2) host_commit_kept(4) [OF p(1) c(1) p(2)] unfolding fine_host(2) by simp
qed

lemma world_inv_ctrl:
  assumes inv: "world_inv False w" and k: "wf_ctrl cs" "wf_sizes cs" "keeps_place (ctrl (w_shm w)) cs"
  shows "world_inv False (w\<lparr>w_shm := (w_shm w)\<lparr>ctrl := cs\<rparr>\<rparr>)"
proof -
  have g: "grows (ctrl (w_shm w)) cs" using k(3) by (simp add: keeps_place_def)
  show ?thesis using world_inv_frame [OF inv k(1,2) g] k by (simp add: world_inv_def Let_def)
qed

lemma lax_inv_step:
  assumes inv: "world_inv False w" and step: "lax_step w w'"
  shows "world_inv False w'"
  using step
proof cases
  case lax_world
  then show ?thesis using world_inv_step [OF inv] by blast
next
  case (lax_create now k cs)
  have wf: "wf_ctrl (ctrl (w_shm w))" and sz: "wf_sizes (ctrl (w_shm w))" using inv by (simp_all add: world_inv_def Let_def)
  show ?thesis
    unfolding lax_create(1) using create_kept [OF wf lax_create(2)] sz by (intro world_inv_ctrl [OF inv])
next
  case (lax_mutex m)
  show ?thesis
    unfolding lax_mutex using inv by (intro world_inv_ctrl [OF inv]) (auto simp: world_inv_def Let_def keeps_place_def grows_def)
next
  case lax_clear
  show ?thesis
    unfolding lax_clear using inv by (intro world_inv_ctrl [OF inv]) (auto simp: world_inv_def Let_def keeps_place_def grows_def)
qed

lemma fine_inv_init: "fine_init f \<Longrightarrow> fine_inv f"
proof -
  assume f: "fine_init f"
  then have c: "committed f = fw_world f" and w: "world_init (fw_world f)"
    by (simp_all add: fine_init_def committed_def committed_shm_def idle_host_def)
  have "unused_zero (ctrl (w_shm (fw_world f)))"
    using w by (auto simp: world_init_def unused_zero_def ivshmem_init_control_section_def ivshmem_consts)
  then show "fine_inv f"
    using world_inv_init [OF w] f unfolding fine_inv_def c
    by (simp add: fine_init_def host_ok_def idle_host_def)
qed

lemma fine_inv_step: "fine_inv f \<Longrightarrow> fine_step False f f' \<Longrightarrow> fine_inv f'"
  using fine_step_sim [of f f'] lax_inv_step [of "committed f" "committed f'"]
  unfolding fine_inv_def by metis

interpretation fine: safe_system fine_init "fine_step False" fine_inv
  by unfold_locales (auto intro: fine_inv_init fine_inv_step)

interpretation lax: safe_system world_init lax_step "world_inv False"
  by unfold_locales (auto intro: world_inv_init lax_inv_step)

lemma lax_data_owner:
  assumes inv: "world_inv False w" and step: "lax_step w w'" and a: "shm_data (w_shm w') a \<noteq> shm_data (w_shm w) a"
  obtains t c where "t \<in> set (w_senders w)" "send_running (snd_pc t)" "c < nat (num_active_channels (ctrl (w_shm w)))"
    "in_buffer a (chan_at (w_shm w) c)" "key_matches (snd_key t) (chan_key (chan_at (w_shm w) c))"
  using step
proof cases
  case lax_world
  then show ?thesis using data_change_owner [OF inv _ a] that by blast
qed (use a in auto)

lemma committed_chan:
  assumes "host_ok h sh" and "wf_ctrl (ctrl (committed_shm h sh))" and "c < nat (num_active_channels (ctrl sh))"
  shows "chan_at (committed_shm h sh) c = chan_at sh c"
  using creating_hidden [OF assms(1,2), of sh] assms(3) by auto

lemma committed_frame [simp]:
  "num_active_channels (ctrl (committed_shm h sh)) = num_active_channels (ctrl sh)"
  "shm_data (committed_shm h sh) = shm_data sh"
  "length (channels (ctrl (committed_shm h sh))) = length (channels (ctrl sh))"
  by (simp_all add: committed_shm_def split: host_pc.split)

section \<open>Two requests at once\<close>

lemma host_fine:
  assumes "steps host_alone p q"
  shows "steps (fine_step reb) \<lparr>fw_world = w\<lparr>w_shm := snd p\<rparr>, fw_host = fst p\<rparr> \<lparr>fw_world = w\<lparr>w_shm := snd q\<rparr>, fw_host = fst q\<rparr>"
  using assms
proof (induction rule: steps.induct)
  case (steps_step p q u)
  have "host_step (fst p) (w_shm (w\<lparr>w_shm := snd p\<rparr>)) = (fst q, snd q)" using steps_step.hyps(1) by (simp add: host_alone_def)
  from fine_host [OF this, of reb] have "fine_step reb \<lparr>fw_world = w\<lparr>w_shm := snd p\<rparr>, fw_host = fst p\<rparr>
     \<lparr>fw_world = w\<lparr>w_shm := snd q\<rparr>, fw_host = fst q\<rparr>" by simp
  then show ?case using steps_step.IH by (rule steps.steps_step)
qed (rule steps_refl)

lemma duo_host: "steps host_alone (h, sh) (h', sh') \<Longrightarrow> steps (fine_step reb) (duo s t h sh) (duo s t h' sh')"
  using host_fine [of "(h, sh)" "(h', sh')" reb "\<lparr>w_shm = sh, w_senders = [s, t], w_receivers = []\<rparr>"] by (simp add: duo_def)

lemma duo_send:
  "ivshmem_send_step 0 s sh = (s', sh') \<Longrightarrow> fine_step reb (duo s t h sh) (duo s' t h sh')"
  "ivshmem_send_step 0 t sh = (t', sh') \<Longrightarrow> fine_step reb (duo s t h sh) (duo s t' h sh')"
  using fine_send [of 0 "\<lparr>w_shm = sh, w_senders = [s, t], w_receivers = []\<rparr>" 0 s' sh' reb h]
    fine_send [of 1 "\<lparr>w_shm = sh, w_senders = [s, t], w_receivers = []\<rparr>" 0 t' sh' reb h]
  by (simp_all add: duo_def)

lemma duo_reach: "reach fine_init (fine_step reb) (duo (send_call ka [] 0) (send_call kb [] 0) idle_host empty_shm)"
proof -
  have i: "reach fine_init (fine_step reb) \<lparr>fw_world = start_world, fw_host = idle_host\<rparr>"
    by (rule reach_init) (auto simp: fine_init_def world_init_def start_world_def empty_shm_def)
  show ?thesis
    using reach_step [OF reach_step [OF i fine_send_call [of reb _ _ ka "[]" 0]] fine_send_call [of reb _ _ kb "[]" 0]]
    by (simp add: duo_def start_world_def)
qed

lemma request_alone:
  assumes "ivshmem_find_channel (ctrl sh) k = Inr None"
  shows "steps (send_alone 0) (send_call k [] 0, sh) ((send_call k [] 0)\<lparr>snd_pc := Send_wait\<rparr>, requested k sh)"
proof -
  let ?t = "send_call k [] 0"
  have t: "snd_key ?t = k" "snd_pc ?t = Send_find" by (simp_all add: send_call_def)
  note rs = request_steps [where sh = sh and t = ?t and now = 0, unfolded t, OF assms refl]
  have "send_alone 0 (?t, sh) (?t\<lparr>snd_pc := Send_flag\<rparr>, sh)"
    "send_alone 0 (?t\<lparr>snd_pc := Send_flag\<rparr>, sh)
       (?t\<lparr>snd_pc := Send_candidate\<rparr>, sh\<lparr>ctrl := (ctrl sh)\<lparr>has_channel_candidate := True\<rparr>\<rparr>)"
    "send_alone 0 (?t\<lparr>snd_pc := Send_candidate\<rparr>, sh\<lparr>ctrl := (ctrl sh)\<lparr>has_channel_candidate := True\<rparr>\<rparr>)
       (?t\<lparr>snd_pc := Send_wait\<rparr>, requested k sh)"
    using send_alone_step [of 0 ?t sh] send_alone_step [of 0 "?t\<lparr>snd_pc := Send_flag\<rparr>" sh]
      send_alone_step [of 0 "?t\<lparr>snd_pc := Send_candidate\<rparr>" "sh\<lparr>ctrl := (ctrl sh)\<lparr>has_channel_candidate := True\<rparr>\<rparr>"]
    unfolding rs by (simp_all add: requested_def)
  then show ?thesis by (blast intro: steps.intros)
qed

lemma refused_alone:
  assumes "ivshmem_find_channel (ctrl sh) k = Inr None" and "\<not> has_channel_candidate (ctrl sh)"
  shows "steps (send_alone 0) ((send_call k [] 0)\<lparr>snd_pc := Send_wait\<rparr>, sh) ((send_call k [] 0)\<lparr>snd_pc := Send_ret (- 1)\<rparr>, sh)"
proof -
  let ?t = "send_call k [] 0"
  have "send_alone 0 (?t\<lparr>snd_pc := Send_wait\<rparr>, sh) (?t\<lparr>snd_pc := Send_refind\<rparr>, sh)"
    "send_alone 0 (?t\<lparr>snd_pc := Send_refind\<rparr>, sh) (?t\<lparr>snd_pc := Send_ret (- 1)\<rparr>, sh)"
    using assms send_alone_step [of 0 "?t\<lparr>snd_pc := Send_wait\<rparr>" sh] send_alone_step [of 0 "?t\<lparr>snd_pc := Send_refind\<rparr>" sh]
    by (simp_all add: ivshmem_send_step_def in_request_def request_channel_step_def send_call_def)
  then show ?thesis by (blast intro: steps.intros)
qed

lemma duo_alone:
  "steps (send_alone 0) (s, sh) (s', sh') \<Longrightarrow> steps (fine_step reb) (duo s t h sh) (duo s' t h sh')"
  "steps (send_alone 0) (t, sh) (t', sh') \<Longrightarrow> steps (fine_step reb) (duo s t h sh) (duo s t' h sh')"
proof -
  have "steps (fine_step reb) (duo (fst p) t h (snd p)) (duo (fst q) t h (snd q)) \<and>
    steps (fine_step reb) (duo s (fst p) h (snd p)) (duo s (fst q) h (snd q))" if "steps (send_alone 0) p q" for p q s t
    using that
  proof (induction rule: steps.induct)
    case (steps_step p q u)
    have "ivshmem_send_step 0 (fst p) (snd p) = (fst q, snd q)" using steps_step.hyps(1) by (auto elim: send_alone.cases)
    then show ?case using steps_step.IH duo_send by (blast intro: steps.steps_step)
  qed (simp add: steps_refl)
  then show "steps (send_alone 0) (s, sh) (s', sh') \<Longrightarrow> steps (fine_step reb) (duo s t h sh) (duo s' t h sh')"
    "steps (send_alone 0) (t, sh) (t', sh') \<Longrightarrow> steps (fine_step reb) (duo s t h sh) (duo s t' h sh')"
    by fastforce+
qed

lemma find_in_empty: "num_active_channels cs = 0 \<Longrightarrow> ivshmem_find_channel cs k = Inr None"
  by (simp add: ivshmem_find_channel_def find_channel_from.simps)

lemma find_in_single:
  "num_active_channels cs = 1 \<Longrightarrow> 0 < length (channels cs) \<Longrightarrow> \<not> key_matches k (chan_key (channels cs ! 0)) \<Longrightarrow>
   ivshmem_find_channel cs k = Inr None"
  by (simp add: ivshmem_find_channel_def find_channel_from.simps)

text \<open>
  The host serves the request of the first sender until it has copied the first field of its
  key; then the second sender raises its request, and the host goes on.
\<close>

lemma torn_first_half:
  assumes "num_active_channels (ctrl sh) = 0" and "free_start_offset (ctrl sh) = 0" and "0 < length (channels (ctrl sh))"
    and "has_channel_candidate (ctrl sh)"
  shows "\<exists>h' sh'. steps host_alone (host_start True 0 Ctl_timer idle_host, sh) (h', sh') \<and>
    h_pc h' = init_pc 2 \<and> h_now h' = 0 \<and> h_chan h' = 0 \<and> num_active_channels (ctrl sh') = 0 \<and>
    0 < length (channels (ctrl sh')) \<and>
    sender_vm (chan_key (chan_at sh' 0)) = sender_vm (channel_candidate (ctrl sh))"
proof -
  let ?h = "\<lambda>pc. idle_host\<lparr>h_malloc := True, h_now := 0, h_chan := 0, h_pc := pc\<rparr>"
  let ?sh = "sh\<lparr>ctrl := (ctrl sh)\<lparr>control_mutex := 1\<rparr>\<rparr>"
  let ?sh' = "upd_channel 0 (written_channel 0 (ctrl ?sh) 0 2) ?sh"
  have room: "\<not> DATA_SECTION_SIZE < size_of_int IVSHMEM_CHANNEL_INIT_SIZE" by (simp add: word_less_nat_alt)
  have a: "steps host_alone (host_start True 0 Ctl_timer idle_host, sh) (?h (init_pc 0), ?sh)"
    using assms by (intro alone_funpow [of "Suc (Suc (Suc (Suc (Suc 0))))"])
      (simp add: host_step_defs host_start_def ivshmem_check_is_control_requested_def room IVSHMEM_MAX_CHANNELS_def
        idle_host_def init_pc_def)
  have b: "steps host_alone (?h (init_pc 0), ?sh) (?h (init_pc 2), ?sh')"
    using init_writes_alone [of 0 ?sh "?h undefined" 0 2] assms by (simp add: idle_host_def numeral_2_eq_2)
  have "sender_vm (chan_key (chan_at ?sh' 0)) = sender_vm (channel_candidate (ctrl sh))"
    using assms by (simp add: upd_channel_at written_channel_def init_writes_def Let_def)
  then show ?thesis using steps_trans [OF a b] assms by (intro exI [of _ "?h (init_pc 2)"] exI [of _ ?sh']) simp
qed

lemma torn_second_half:
  assumes h: "h_pc h = init_pc 2" "h_chan h = 0" and n: "num_active_channels (ctrl sh) = 0" "0 < length (channels (ctrl sh))"
    and k: "channel_candidate (ctrl sh) = k"
  shows "\<exists>h' sh'. steps host_alone (h, sh) (h', sh') \<and> h_pc h' = Host_idle \<and> num_active_channels (ctrl sh') = 1 \<and>
    0 < length (channels (ctrl sh')) \<and> \<not> has_channel_candidate (ctrl sh') \<and>
    chan_key (chan_at sh' 0) = \<lparr>sender_vm = sender_vm (chan_key (chan_at sh 0)), sender_pid = sender_pid k, receiver_vm = receiver_vm k\<rparr>"
proof -
  let ?sh4 = "upd_channel 0 (written_channel (h_now h) (ctrl sh) 2 11) sh"
  let ?sh5 = "?sh4\<lparr>ctrl := (ctrl ?sh4)\<lparr>last_channel_id := last_channel_id (ctrl ?sh4) + 1,
      free_start_offset := free_start_offset (ctrl ?sh4) + size_of_int IVSHMEM_CHANNEL_INIT_SIZE,
      num_active_channels := num_active_channels (ctrl ?sh4) + 1, has_channel_candidate := False, control_mutex := 0\<rparr>\<rparr>"
  have "h\<lparr>h_pc := init_pc 2\<rparr> = h" using h(1) by (cases h) simp
  then have a: "steps host_alone (h, sh) (h\<lparr>h_pc := Create_id\<rparr>, ?sh4)"
    using init_writes_alone [of 0 sh h 2 11] n h(2) by (simp add: init_pc_def)
  have b: "steps host_alone (h\<lparr>h_pc := Create_id\<rparr>, ?sh4) (h\<lparr>h_ret := 0, h_pc := Host_idle\<rparr>, ?sh5)"
    by (rule alone_funpow [of "Suc (Suc (Suc (Suc (Suc 0))))"]) (cases h, simp add: host_step_defs)
  have "chan_key (written_channel (h_now h) (ctrl sh) 2 11 ch) =
      \<lparr>sender_vm = sender_vm (chan_key ch), sender_pid = sender_pid k, receiver_vm = receiver_vm k\<rparr>" for ch
    using k by (cases "chan_key ch") (simp add: written_channel_def init_writes_def Let_def)
  then have "chan_key (chan_at ?sh5 0) =
      \<lparr>sender_vm = sender_vm (chan_key (chan_at sh 0)), sender_pid = sender_pid k, receiver_vm = receiver_vm k\<rparr>"
    using n by (simp add: upd_channel_at)
  then show ?thesis
    using steps_trans [OF a b] n by (intro exI [of _ "h\<lparr>h_ret := 0, h_pc := Host_idle\<rparr>"] exI [of _ ?sh5]) simp
qed

lemma torn_run:
  fixes ka kb :: channel_key
  defines "kt \<equiv> \<lparr>sender_vm = sender_vm ka, sender_pid = sender_pid kb, receiver_vm = receiver_vm kb\<rparr>"
  assumes "\<not> key_matches ka kt" and "\<not> key_matches kb kt"
  shows "\<exists>h sh. reach fine_init (fine_step reb)
       (duo ((send_call ka [] 0)\<lparr>snd_pc := Send_ret (- 1)\<rparr>) ((send_call kb [] 0)\<lparr>snd_pc := Send_ret (- 1)\<rparr>) h sh) \<and>
     h_pc h = Host_idle \<and> num_active_channels (ctrl sh) = 1 \<and> chan_key (chan_at sh 0) = kt \<and> \<not> has_channel_candidate (ctrl sh)"
proof -
  let ?a = "\<lambda>pc. (send_call ka [] 0)\<lparr>snd_pc := pc\<rparr>" and ?b = "\<lambda>pc. (send_call kb [] 0)\<lparr>snd_pc := pc\<rparr>"
  let ?sh1 = "requested ka empty_shm"
  have e: "num_active_channels (ctrl ?sh1) = 0" "free_start_offset (ctrl ?sh1) = 0" "0 < length (channels (ctrl ?sh1))"
    "has_channel_candidate (ctrl ?sh1)" "channel_candidate (ctrl ?sh1) = ka"
    using empty_shm_facts by (auto simp: wf_ctrl_def IVSHMEM_MAX_CHANNELS_def requested_def)
  have r1: "reach fine_init (fine_step reb) (duo (?a Send_wait) (send_call kb [] 0) idle_host ?sh1)"
    using reach_steps [OF duo_alone(1) [OF request_alone] duo_reach [of reb ka kb]]
    by (simp add: find_in_empty empty_shm_facts)
  have "fine_step reb (duo (?a Send_wait) (send_call kb [] 0) idle_host ?sh1)
      (duo (?a Send_wait) (send_call kb [] 0) (host_start True 0 Ctl_timer idle_host) ?sh1)"
    using fine_event [of idle_host Ctl_timer reb _ True 0] by (simp add: duo_def idle_host_def)
  with r1 have r2: "reach fine_init (fine_step reb)
      (duo (?a Send_wait) (send_call kb [] 0) (host_start True 0 Ctl_timer idle_host) ?sh1)"
    by (rule reach_step)
  obtain h2 sh2 where h2: "steps host_alone (host_start True 0 Ctl_timer idle_host, ?sh1) (h2, sh2)"
    "h_pc h2 = init_pc 2" "h_chan h2 = 0" "num_active_channels (ctrl sh2) = 0" "0 < length (channels (ctrl sh2))"
    "sender_vm (chan_key (chan_at sh2 0)) = sender_vm ka"
    using torn_first_half [OF e(1-4)] unfolding e(5) by blast
  let ?sh3 = "requested kb sh2"
  have r3: "reach fine_init (fine_step reb) (duo (?a Send_wait) (?b Send_wait) h2 ?sh3)"
    using reach_steps [OF duo_alone(2) [OF request_alone] reach_steps [OF duo_host [OF h2(1)] r2]] h2(4)
    by (simp add: find_in_empty)
  obtain h4 sh4 where h4: "steps host_alone (h2, ?sh3) (h4, sh4)" "h_pc h4 = Host_idle" "num_active_channels (ctrl sh4) = 1"
    "0 < length (channels (ctrl sh4))" "\<not> has_channel_candidate (ctrl sh4)" "chan_key (chan_at sh4 0) = kt"
    using torn_second_half [of h2 ?sh3 kb] h2(2-6) by (auto simp: requested_def kt_def)
  have f: "ivshmem_find_channel (ctrl sh4) ka = Inr None" "ivshmem_find_channel (ctrl sh4) kb = Inr None"
    using find_in_single [OF h4(3,4)] h4(6) assms(2,3) by simp_all
  have r4: "reach fine_init (fine_step reb) (duo (?a (Send_ret (- 1))) (?b Send_wait) h4 sh4)"
    by (rule reach_steps [OF duo_alone(1) [OF refused_alone [OF f(1) h4(5)]] reach_steps [OF duo_host [OF h4(1)] r3]])
  have "reach fine_init (fine_step reb) (duo (?a (Send_ret (- 1))) (?b (Send_ret (- 1))) h4 sh4)"
    by (rule reach_steps [OF duo_alone(2) [OF refused_alone [OF f(2) h4(5)]] r4])
  then show ?thesis using h4 by blast
qed

section \<open>Coarse runs\<close>

lemma atomic_runs:
  assumes "reach world_init (world_step reb) w"
  shows "\<exists>h. reach fine_init (fine_step reb) \<lparr>fw_world = w, fw_host = h\<rparr> \<and> h_pc h = Host_idle"
  using assms
proof (induction rule: reach.induct)
  case (reach_init w)
  then show ?case by (intro exI [of _ idle_host]) (auto simp: fine_init_def idle_host_def intro: reach.reach_init)
next
  case (reach_step w w')
  then obtain h where h: "reach fine_init (fine_step reb) \<lparr>fw_world = w, fw_host = h\<rparr>" "h_pc h = Host_idle" by blast
  from reach_step.hyps(2) show ?case
  proof cases
    case (world_send_call k buf sz)
    then show ?thesis using h reach.reach_step [OF h(1) fine_send_call [of reb]] by blast
  next
    case (world_recv_call k buf sz)
    then show ?thesis using h reach.reach_step [OF h(1) fine_recv_call [of reb]] by blast
  next
    case (world_send i now t sh)
    then show ?thesis using h reach.reach_step [OF h(1) fine_send [OF world_send(2,3), of reb]] by blast
  next
    case (world_recv i r sh)
    then show ?thesis using h reach.reach_step [OF h(1) fine_recv [OF world_recv(2,3), of reb]] by blast
  next
    case (world_trusted ev ok now sh)
    have wf: "wf_ctrl (ctrl (w_shm w))"
      using world_reb.reach_inv [OF reach_step.hyps(1)] by (simp add: world_inv_def Let_def)
    obtain h' where h': "steps host_alone (host_start ok now ev h, w_shm w) (h', sh)" "h_pc h' = Host_idle"
      using handlers_alone [OF wf, of ok now ev h] world_trusted(3) by auto
    have e: "fine_step reb \<lparr>fw_world = w, fw_host = h\<rparr> \<lparr>fw_world = w, fw_host = host_start ok now ev h\<rparr>"
      using world_trusted(2) by (intro fine_event [OF h(2)]) simp
    have "steps (fine_step reb) \<lparr>fw_world = w, fw_host = host_start ok now ev h\<rparr> \<lparr>fw_world = w\<lparr>w_shm := sh\<rparr>, fw_host = h'\<rparr>"
      using host_fine [OF h'(1), of reb w] by simp
    from reach_steps [OF this reach.reach_step [OF h(1) e]]
    have "reach fine_init (fine_step reb) \<lparr>fw_world = w\<lparr>w_shm := sh\<rparr>, fw_host = h'\<rparr>" .
    then show ?thesis using h'(2) world_trusted(1) by blast
  qed
qed

section \<open>Properties\<close>





text \<open>
  C39.  Two requests at once can both be lost: there is a run in which the host reads one
  field of the first sender's key before the second sender writes its own, creates a channel
  for a key that nobody asked for, and clears the flag of both, so both send calls return
  -1.
\<close>

theorem request_torn:
  "\<exists>f. reach fine_init (fine_step False) f \<and> h_pc (fw_host f) = Host_idle \<and>
     map snd_pc (w_senders (fw_world f)) = [Send_ret (- 1), Send_ret (- 1)] \<and>
     num_active_channels (ctrl (w_shm (fw_world f))) = 1 \<and> \<not> has_channel_candidate (ctrl (w_shm (fw_world f))) \<and>
     chan_key (chan_at (w_shm (fw_world f)) 0) = \<lparr>sender_vm = 1, sender_pid = 3, receiver_vm = 4\<rparr> \<and>
     map snd_key (w_senders (fw_world f)) =
       [\<lparr>sender_vm = 1, sender_pid = 1, receiver_vm = 2\<rparr>, \<lparr>sender_vm = 3, sender_pid = 3, receiver_vm = 4\<rparr>]"
proof -
  let ?a = "\<lparr>sender_vm = 1, sender_pid = 1, receiver_vm = 2\<rparr>" and ?b = "\<lparr>sender_vm = 3, sender_pid = 3, receiver_vm = 4\<rparr>"
  obtain h sh where r: "reach fine_init (fine_step False)
       (duo ((send_call ?a [] 0)\<lparr>snd_pc := Send_ret (- 1)\<rparr>) ((send_call ?b [] 0)\<lparr>snd_pc := Send_ret (- 1)\<rparr>) h sh)"
     "h_pc h = Host_idle" "num_active_channels (ctrl sh) = 1" "\<not> has_channel_candidate (ctrl sh)"
     "chan_key (chan_at sh 0) = \<lparr>sender_vm = 1, sender_pid = 3, receiver_vm = 4\<rparr>"
    using torn_run [of ?a ?b False] by (auto simp: key_matches_def)
  show ?thesis
  proof (intro exI conjI)
    show "reach fine_init (fine_step False)
       (duo ((send_call ?a [] 0)\<lparr>snd_pc := Send_ret (- 1)\<rparr>) ((send_call ?b [] 0)\<lparr>snd_pc := Send_ret (- 1)\<rparr>) h sh)"
      by (rule r(1))
  qed (use r(2-5) in \<open>simp_all add: duo_def send_call_def\<close>)
qed

end
