(* ===== verification/Ivshmem_Allocator.thy ===== *)
theory Ivshmem_Allocator
  imports Ivshmem_Calls
begin

text \<open>
  What the trusted host's library promises, without offsets, identifiers and slots: a table of
  channels is a list of keys with their numbers of pages, and the library looks keys up,
  appends a channel of four pages where there is room, and shares the pages out evenly.  The
  operations of \<open>Ivshmem_Trusted\<close> implement it through the abstraction \<open>alloc_of\<close>.
\<close>

section \<open>The abstract allocator\<close>

type_synonym alloc = "(channel_key \<times> nat) list"

definition alloc_find :: "channel_key \<Rightarrow> alloc \<Rightarrow> nat option" where
  "alloc_find k tbl = List.find (\<lambda>i. key_matches k (fst (tbl ! i))) [0..<length tbl]"

definition alloc_room :: "alloc \<Rightarrow> bool" where
  "alloc_room tbl \<longleftrightarrow> length tbl < 32 \<and> 4096 * sum_list (map snd tbl) + 16384 \<le> 4192224"

definition alloc_create :: "channel_key \<Rightarrow> alloc \<Rightarrow> c_int \<times> alloc" where
  "alloc_create k tbl = (if alloc_room tbl then (0, tbl @ [(k, 4)]) else (- 1, tbl))"

definition alloc_find_or_create :: "channel_key \<Rightarrow> alloc \<Rightarrow> nat option \<times> alloc" where
  "alloc_find_or_create k tbl =
     (case alloc_find k tbl of
        Some c \<Rightarrow> (Some c, tbl)
      | None \<Rightarrow> if alloc_room tbl then (Some (length tbl), tbl @ [(k, 4)]) else (None, tbl))"

definition alloc_rebalance :: "alloc \<Rightarrow> alloc" where
  "alloc_rebalance tbl = map (\<lambda>(k, p). (k, 4175839 div length tbl div 4096)) tbl"

definition alloc_of :: "control_section \<Rightarrow> alloc" where
  "alloc_of cs = map (\<lambda>ch. (chan_key ch, nat (num_page ch))) (active cs)"

section \<open>The abstraction commutes with the operations\<close>

lemma alloc_length: "wf_ctrl cs \<Longrightarrow> length (alloc_of cs) = nat (num_active_channels cs)"
  by (simp add: alloc_of_def wf_ctrl_length_active)

lemma alloc_nth:
  "wf_ctrl cs \<Longrightarrow> i < nat (num_active_channels cs) \<Longrightarrow>
   alloc_of cs ! i = (chan_key (channels cs ! i), nat (num_page (channels cs ! i)))"
  by (simp add: alloc_of_def wf_ctrl_length_active)

lemma alloc_frame [simp]:
  "alloc_of (cs\<lparr>control_mutex := m\<rparr>) = alloc_of cs"
  "alloc_of (cs\<lparr>has_channel_candidate := b\<rparr>) = alloc_of cs"
  by (simp_all add: alloc_of_def)

lemma find_alloc:
  assumes wf: "wf_ctrl cs"
  shows "ivshmem_find_channel cs k = Inr (alloc_find k (alloc_of cs))"
proof -
  have "num_active_channels cs \<le> int (length (channels cs))" using wf by (simp add: wf_ctrl_def)
  moreover have "List.find (\<lambda>j. key_matches k (chan_key (channels cs ! j))) [0..<nat (num_active_channels cs)] =
      List.find (\<lambda>j. key_matches k (fst (alloc_of cs ! j))) [0..<nat (num_active_channels cs)]"
    using alloc_nth [OF wf] by (intro find_cong) auto
  ultimately show ?thesis
    by (simp add: ivshmem_find_channel_def find_channel_eq_find alloc_find_def alloc_length [OF wf])
qed

text \<open>The first free offset is the number of pages handed out.\<close>

lemma free_pages:
  assumes wf: "wf_ctrl cs"
  shows "unat (free_start_offset cs) = 4096 * sum_list (map snd (alloc_of cs))"
proof -
  have "map unat (map buf_size (active cs)) = map (\<lambda>c. 4096 * snd c) (alloc_of cs)"
    using wf by (auto simp: alloc_of_def wf_ctrl_def list_all_iff wf_channel_def)
  moreover have "unat (free_start_offset cs) = sum_list (map unat (map buf_size (active cs)))"
    using wf contiguous_sum [of 0] unfolding wf_ctrl_def by fastforce
  ultimately show ?thesis by (simp only: sum_list_const_mult)
qed

lemma alloc_room_iff:
  assumes "wf_ctrl cs"
  shows "alloc_room (alloc_of cs) \<longleftrightarrow>
    num_active_channels cs < 32 \<and> unat (free_start_offset cs) + 16384 \<le> 4192224"
proof -
  have "0 \<le> num_active_channels cs" using assms by (simp add: wf_ctrl_def)
  then show ?thesis
    using free_pages [OF assms] unfolding alloc_room_def alloc_length [OF assms] by auto
qed

lemma create_alloc:
  assumes wf: "wf_ctrl cs"
  shows "\<exists>ret cs'. ivshmem_create_channel now cs k = Inr (ret, cs') \<and> wf_ctrl cs' \<and>
    (ret, alloc_of cs') = alloc_create k (alloc_of cs) \<and> (ret \<noteq> 0 \<longrightarrow> cs' = cs)"
proof (cases "alloc_room (alloc_of cs)")
  case True
  then obtain cs' ch where "ivshmem_create_channel now cs k = Inr (0, cs')" "wf_ctrl cs'"
    "active cs' = active cs @ [ch]" "chan_key ch = k" "num_page ch = 4"
    using create_channel_room [OF wf, of now k] alloc_room_iff [OF wf] by blast
  then show ?thesis using True by (simp add: alloc_create_def alloc_of_def)
next
  case False
  from wf have "ivshmem_create_channel now cs k = Inr (- 1, cs)"
    by (cases rule: create_channel_cases [where now = now and k = k]) (use False alloc_room_iff [OF wf] in auto)
  then show ?thesis using wf False by (simp add: alloc_create_def)
qed

lemma control_alloc:
  assumes wf: "wf_ctrl cs" and r: "has_channel_candidate cs"
  shows "\<exists>ret cs'. ivshmem_trusted_control now cs = Inr (ret, cs') \<and>
    (ret, alloc_of cs') = alloc_create (channel_candidate cs) (alloc_of cs) \<and> \<not> has_channel_candidate cs' \<and> control_mutex cs' = 0"
proof -
  have "wf_ctrl (cs\<lparr>control_mutex := 1\<rparr>)" using wf by simp
  from create_alloc [OF this, of now "channel_candidate cs"] r show ?thesis
    by (auto simp: ivshmem_trusted_control_def)
qed

lemma find_or_create_alloc:
  assumes wf: "wf_ctrl cs"
  shows "\<exists>cs'. ivshmem_find_or_create_channel now cs k = Inr (fst (alloc_find_or_create k (alloc_of cs)), cs') \<and>
    alloc_of cs' = snd (alloc_find_or_create k (alloc_of cs))"
proof (cases "alloc_find k (alloc_of cs)")
  case None
  obtain ret cs' where c: "ivshmem_create_channel now cs k = Inr (ret, cs')" "wf_ctrl cs'"
    "(ret, alloc_of cs') = alloc_create k (alloc_of cs)" "ret \<noteq> 0 \<longrightarrow> cs' = cs"
    using create_alloc [OF wf] by blast
  have "nat (num_active_channels cs' - 1) = length (alloc_of cs')  - 1"
    using alloc_length [OF c(2)] c(2) by (simp add: wf_ctrl_def nat_diff_distrib)
  then show ?thesis
    using None c find_alloc [OF wf, of k]
    by (auto simp: ivshmem_find_or_create_channel_def alloc_find_or_create_def alloc_create_def split: if_splits)
qed (simp add: ivshmem_find_or_create_channel_def alloc_find_or_create_def find_alloc [OF wf])

lemma rebalance_alloc:
  assumes wf: "wf_ctrl cs" and sz: "wf_sizes cs"
  shows "\<exists>cs'. ivshmem_trusted_rebalancing True cs = Inr (0, cs') \<and> alloc_of cs' = alloc_rebalance (alloc_of cs)"
proof (cases "0 < num_active_channels cs")
  case True
  let ?n = "num_active_channels cs"
  obtain cs' where cs': "ivshmem_trusted_rebalancing True cs = Inr (0, cs')" "wf_ctrl cs'" "balanced cs'"
    "map chan_key (active cs') = map chan_key (active cs)"
    using rebalancing_balances [OF wf sz True] by blast
  have n: "num_active_channels cs' = ?n" using rebalancing_wf [OF wf, of True] cs'(1) by auto
  have n32: "?n \<le> 32" using wf by (simp add: wf_ctrl_def IVSHMEM_MAX_CHANNELS_def)
  obtain m where m: "?n = int m" using True by (metis zero_less_imp_eq_int)
  then have "rebalance_num_page ?n = int (4175839 div m div 4096)"
    using rebalance_num_page_eq [of ?n] True n32 by (simp add: zdiv_int)
  then have pg: "nat (rebalance_num_page ?n) = 4175839 div nat ?n div 4096" using m by simp
  have "alloc_of cs' = alloc_rebalance (alloc_of cs)"
  proof (rule nth_equalityI)
    show "length (alloc_of cs') = length (alloc_rebalance (alloc_of cs))"
      using alloc_length [OF wf] alloc_length [OF cs'(2)] n by (simp add: alloc_rebalance_def)
    fix i assume "i < length (alloc_of cs')"
    then have i: "i < nat ?n" using alloc_length [OF cs'(2)] n by simp
    have "chan_key (channels cs' ! i) = chan_key (channels cs ! i)"
      using i cs'(4) n wf_ctrl_length_active [OF wf] wf_ctrl_length_active [OF cs'(2)] by (metis active_nth nth_map)
    moreover have "nat (num_page (channels cs' ! i)) = 4175839 div nat ?n div 4096"
      using balanced_channel(3) [OF cs'(2,3)] i n pg by simp
    ultimately show "alloc_of cs' ! i = alloc_rebalance (alloc_of cs) ! i"
      using i n alloc_nth [OF cs'(2)] alloc_nth [OF wf] alloc_length [OF wf] by (simp add: alloc_rebalance_def)
  qed
  then show ?thesis using cs'(1) by blast
next
  case False
  then have "alloc_of cs = []" using alloc_length [OF wf] by simp
  then show ?thesis using False by (simp add: ivshmem_trusted_rebalancing_def Let_def alloc_rebalance_def)
qed

lemma no_memory_alloc:
  "\<exists>ret cs'. ivshmem_trusted_rebalancing False cs = Inr (ret, cs') \<and> alloc_of cs' = alloc_of cs"
  by (simp add: ivshmem_trusted_rebalancing_def Let_def)

section \<open>Properties\<close>

text \<open>
  C10.  The trusted library implements an abstract allocator, a list of keys with numbers of
  pages: lookup, creation, find-or-create, serving a request and rebalancing commute with
  the abstraction of the control section, on success and on failure (table or data section
  full, no memory).
\<close>

theorem allocator_refines:
  assumes "wf_ctrl cs" and "wf_sizes cs"
  shows "ivshmem_find_channel cs k = Inr (alloc_find k (alloc_of cs)) \<and>
    (\<exists>ret cs'. ivshmem_create_channel now cs k = Inr (ret, cs') \<and> (ret, alloc_of cs') = alloc_create k (alloc_of cs)) \<and>
    (\<exists>cs'. ivshmem_find_or_create_channel now cs k = Inr (fst (alloc_find_or_create k (alloc_of cs)), cs') \<and>
       alloc_of cs' = snd (alloc_find_or_create k (alloc_of cs))) \<and>
    (\<exists>ret cs'. ivshmem_trusted_control now cs = Inr (ret, cs') \<and>
       (ret, alloc_of cs') = (if has_channel_candidate cs then alloc_create (channel_candidate cs) (alloc_of cs) else (0, alloc_of cs))) \<and>
    (\<exists>cs'. ivshmem_trusted_rebalancing True cs = Inr (0, cs') \<and> alloc_of cs' = alloc_rebalance (alloc_of cs)) \<and>
    (\<exists>ret cs'. ivshmem_trusted_rebalancing False cs = Inr (ret, cs') \<and> alloc_of cs' = alloc_of cs)"
  using find_alloc [OF assms(1)] create_alloc [OF assms(1), of now k] find_or_create_alloc [OF assms(1), of now k]
    control_alloc [OF assms(1), of now] rebalance_alloc [OF assms] no_memory_alloc [of cs]
  by (cases "has_channel_candidate cs") (auto simp: ivshmem_trusted_control_def [of now cs])

theorem allocator_refines_witness:
  "\<exists>cs'. ivshmem_trusted_rebalancing True demo_ctrl = Inr (0, cs') \<and>
     alloc_of cs' = [(\<lparr>sender_vm = 1, sender_pid = 1, receiver_vm = 2\<rparr>, 509), (\<lparr>sender_vm = 1, sender_pid = 2, receiver_vm = 2\<rparr>, 509)]"
proof -
  have "alloc_rebalance (alloc_of demo_ctrl) =
      [(\<lparr>sender_vm = 1, sender_pid = 1, receiver_vm = 2\<rparr>, 509), (\<lparr>sender_vm = 1, sender_pid = 2, receiver_vm = 2\<rparr>, 509)]"
    by (simp add: alloc_of_def demo_active alloc_rebalance_def demo_channel_def flip: numeral_2_eq_2)
  then show ?thesis using allocator_refines [OF demo_wf demo_sizes, of zero_key 0] by metis
qed

end
