(* ===== verification/Ivshmem_Lock_Base.thy ===== *)
theory Ivshmem_Lock_Base
  imports Ivshmem_Trusted
begin

text \<open>
  The lock-based variant, \<^verbatim>\<open>secure_ivshmem/src/ivshmem_lock_base.c\<close>: one message slot
  that \<^verbatim>\<open>ref_count\<close> hands back and forth between a sender and a receiver, behind a flag
  that serves as a mutex.  As in the page variant a call is a machine, and a step is one
  test, one store or one copied byte; the four tests of the receiver's condition are four
  steps.

  With one sender and one receiver the pair is a \<open>live_transport\<close> for messages of any
  length below 2 GiB.  The flag is tested and set in two steps, so with two senders it does
  not exclude anything.
\<close>

section \<open>Shared data\<close>

record lock_key =
  lk_sender_vm :: u32
  lk_sender_pid :: u32
  lk_receiver_vm :: u32

record lock_ctrl =
  ref_count :: c_int
  lk_mutex :: bool
  lk_key :: lock_key
  lk_data_size :: size_t

record lock_shm =
  lock_sec :: lock_ctrl
  lock_data :: "nat \<Rightarrow> byte"

definition lock_key_layout :: "c_member list" where
  "lock_key_layout = [c_u32, c_u32, c_u32]"

definition lock_ctrl_layout :: "c_member list" where
  "lock_ctrl_layout = [c_u32, c_u8, c_struct lock_key_layout, c_u64]"

definition LOCK_DATA_SECTION_SIZE :: size_t where
  "LOCK_DATA_SECTION_SIZE = size_of_int IVSHMEM_SIZE - word_of_nat (sizeof_struct lock_ctrl_layout)"

definition ivshmem_lock_get_data_section :: "nat \<Rightarrow> nat" where
  "ivshmem_lock_get_data_section p_ctr_sec = p_ctr_sec + sizeof_struct lock_ctrl_layout"

definition ivshmem_lock_init_control_section :: "lock_ctrl \<Rightarrow> c_int \<times> lock_ctrl" where
  "ivshmem_lock_init_control_section cs =
     (0, cs\<lparr>lk_mutex := False,
            lk_key := (lk_key cs)\<lparr>lk_sender_vm := 0, lk_sender_pid := 0, lk_receiver_vm := 0\<rparr>,
            lk_data_size := 0, ref_count := 0\<rparr>)"

section \<open>Sending\<close>

datatype ls_pc =
  Ls_size | Ls_ref | Ls_mutex | Ls_lock | Ls_copy nat | Ls_pid | Ls_rvm | Ls_svm | Ls_dsize
| Ls_one | Ls_unlock | Ls_ret c_int | Ls_fault c_fault

record lock_sender =
  ls_pc :: ls_pc
  ls_key :: lock_key
  ls_buf :: "byte list"
  ls_size :: size_t
  ls_sent :: size_t
  ls_to_sent :: size_t

definition lock_send_call :: "lock_key \<Rightarrow> byte list \<Rightarrow> size_t \<Rightarrow> lock_sender" where
  "lock_send_call k buf sz =
     \<lparr>ls_pc = Ls_size, ls_key = k, ls_buf = buf, ls_size = sz, ls_sent = 0, ls_to_sent = 0\<rparr>"

definition set_sec :: "(lock_ctrl \<Rightarrow> lock_ctrl) \<Rightarrow> lock_shm \<Rightarrow> lock_shm" where
  "set_sec f sh = sh\<lparr>lock_sec := f (lock_sec sh)\<rparr>"

definition ivshmem_lock_send_step :: "lock_sender \<Rightarrow> lock_shm \<Rightarrow> lock_sender \<times> lock_shm" where
  "ivshmem_lock_send_step t sh =
     (case ls_pc t of
        Ls_size \<Rightarrow>
          (if ls_size t \<le> ls_sent t then (t\<lparr>ls_pc := Ls_ret 0\<rparr>, sh)
           else (t\<lparr>ls_pc := Ls_ref, ls_to_sent := min (ls_size t - ls_sent t) LOCK_DATA_SECTION_SIZE\<rparr>, sh))
      | Ls_ref \<Rightarrow>
          (if 0 < ref_count (lock_sec sh) then (t\<lparr>ls_pc := Ls_size\<rparr>, sh) else (t\<lparr>ls_pc := Ls_mutex\<rparr>, sh))
      | Ls_mutex \<Rightarrow>
          (if lk_mutex (lock_sec sh) then (t\<lparr>ls_pc := Ls_size\<rparr>, sh) else (t\<lparr>ls_pc := Ls_lock\<rparr>, sh))
      | Ls_lock \<Rightarrow> (t\<lparr>ls_pc := Ls_copy 0\<rparr>, set_sec (\<lambda>c. c\<lparr>lk_mutex := True\<rparr>) sh)
      | Ls_copy j \<Rightarrow>
          (if j < unat (ls_to_sent t) then
             if length (ls_buf t) \<le> unat (ls_sent t) + j \<or> unat LOCK_DATA_SECTION_SIZE \<le> j
             then (t\<lparr>ls_pc := Ls_fault OutOfBounds\<rparr>, sh)
             else (t\<lparr>ls_pc := Ls_copy (Suc j)\<rparr>,
                   sh\<lparr>lock_data := (lock_data sh)(j := ls_buf t ! (unat (ls_sent t) + j))\<rparr>)
           else (t\<lparr>ls_pc := Ls_pid, ls_sent := ls_sent t + ls_to_sent t\<rparr>, sh))
      | Ls_pid \<Rightarrow>
          (t\<lparr>ls_pc := Ls_rvm\<rparr>,
           set_sec (\<lambda>c. c\<lparr>lk_key := (lk_key c)\<lparr>lk_sender_pid := lk_sender_pid (ls_key t)\<rparr>\<rparr>) sh)
      | Ls_rvm \<Rightarrow>
          (t\<lparr>ls_pc := Ls_svm\<rparr>,
           set_sec (\<lambda>c. c\<lparr>lk_key := (lk_key c)\<lparr>lk_receiver_vm := lk_receiver_vm (ls_key t)\<rparr>\<rparr>) sh)
      | Ls_svm \<Rightarrow>
          (t\<lparr>ls_pc := Ls_dsize\<rparr>,
           set_sec (\<lambda>c. c\<lparr>lk_key := (lk_key c)\<lparr>lk_sender_vm := lk_sender_vm (ls_key t)\<rparr>\<rparr>) sh)
      | Ls_dsize \<Rightarrow> (t\<lparr>ls_pc := Ls_one\<rparr>, set_sec (\<lambda>c. c\<lparr>lk_data_size := ls_to_sent t\<rparr>) sh)
      | Ls_one \<Rightarrow> (t\<lparr>ls_pc := Ls_unlock\<rparr>, set_sec (\<lambda>c. c\<lparr>ref_count := 1\<rparr>) sh)
      | Ls_unlock \<Rightarrow> (t\<lparr>ls_pc := Ls_size\<rparr>, set_sec (\<lambda>c. c\<lparr>lk_mutex := False\<rparr>) sh)
      | Ls_ret v \<Rightarrow> (t, sh)
      | Ls_fault e \<Rightarrow> (t, sh))"

section \<open>Receiving\<close>

datatype lr_pc =
  Lr_size | Lr_rvm | Lr_svm | Lr_pid | Lr_ref | Lr_mutex | Lr_lock | Lr_copy nat | Lr_dec
| Lr_unlock | Lr_ret c_int | Lr_fault c_fault

record lock_receiver =
  lr_pc :: lr_pc
  lr_key :: lock_key
  lr_buf :: "byte list"
  lr_size :: size_t
  lr_received :: c_int
  lr_to_receive :: c_int

definition lock_recv_call :: "lock_key \<Rightarrow> byte list \<Rightarrow> size_t \<Rightarrow> lock_receiver" where
  "lock_recv_call k buf sz =
     \<lparr>lr_pc = Lr_size, lr_key = k, lr_buf = buf, lr_size = sz, lr_received = 0, lr_to_receive = 0\<rparr>"

definition ivshmem_lock_recv_step :: "lock_receiver \<Rightarrow> lock_shm \<Rightarrow> lock_receiver \<times> lock_shm" where
  "ivshmem_lock_recv_step r sh =
     (let wait = (r\<lparr>lr_pc := Lr_size\<rparr>, sh); cs = lock_sec sh; k = lr_key r in
      case lr_pc r of
        Lr_size \<Rightarrow>
          (if lr_size r \<le> size_of_int (lr_received r) then (r\<lparr>lr_pc := Lr_ret 0\<rparr>, sh)
           else (r\<lparr>lr_pc := Lr_rvm,
                   lr_to_receive := uint (min (lr_size r - size_of_int (lr_received r)) LOCK_DATA_SECTION_SIZE)\<rparr>, sh))
      | Lr_rvm \<Rightarrow> (if lk_receiver_vm (lk_key cs) \<noteq> lk_receiver_vm k then wait else (r\<lparr>lr_pc := Lr_svm\<rparr>, sh))
      | Lr_svm \<Rightarrow> (if lk_sender_vm (lk_key cs) \<noteq> lk_sender_vm k then wait else (r\<lparr>lr_pc := Lr_pid\<rparr>, sh))
      | Lr_pid \<Rightarrow>
          (if lk_sender_pid k \<noteq> 0 \<and> lk_sender_pid (lk_key cs) \<noteq> lk_sender_pid k then wait
           else (r\<lparr>lr_pc := Lr_ref\<rparr>, sh))
      | Lr_ref \<Rightarrow> (if ref_count cs \<le> 0 then wait else (r\<lparr>lr_pc := Lr_mutex\<rparr>, sh))
      | Lr_mutex \<Rightarrow> (if lk_mutex cs then wait else (r\<lparr>lr_pc := Lr_lock\<rparr>, sh))
      | Lr_lock \<Rightarrow> (r\<lparr>lr_pc := Lr_copy 0\<rparr>, set_sec (\<lambda>c. c\<lparr>lk_mutex := True\<rparr>) sh)
      | Lr_copy j \<Rightarrow>
          (if int j < lr_to_receive r then
             if length (lr_buf r) \<le> nat (lr_received r) + j \<or> unat LOCK_DATA_SECTION_SIZE \<le> j
             then (r\<lparr>lr_pc := Lr_fault OutOfBounds\<rparr>, sh)
             else (r\<lparr>lr_pc := Lr_copy (Suc j),
                     lr_buf := (lr_buf r)[nat (lr_received r) + j := lock_data sh j]\<rparr>, sh)
           else (r\<lparr>lr_pc := Lr_dec\<rparr>, sh))
      | Lr_dec \<Rightarrow>
          (if in_c_int (ref_count cs - 1) \<and> in_c_int (lr_received r + lr_to_receive r)
           then (r\<lparr>lr_pc := Lr_unlock, lr_received := lr_received r + lr_to_receive r\<rparr>,
                 set_sec (\<lambda>c. c\<lparr>ref_count := ref_count c - 1\<rparr>) sh)
           else (r\<lparr>lr_pc := Lr_fault SignedOverflow\<rparr>, sh))
      | Lr_unlock \<Rightarrow> (r\<lparr>lr_pc := Lr_size\<rparr>, set_sec (\<lambda>c. c\<lparr>lk_mutex := False\<rparr>) sh)
      | Lr_ret v \<Rightarrow> (r, sh)
      | Lr_fault e \<Rightarrow> (r, sh))"

section \<open>One sender and one receiver\<close>

record lock_sys =
  lsy_snd :: lock_sender
  lsy_rcv :: lock_receiver
  lsy_shm :: lock_shm

inductive lock_step :: "lock_sys \<Rightarrow> lock_sys \<Rightarrow> bool" where
  lock_send: "ivshmem_lock_send_step (lsy_snd s) (lsy_shm s) = (t, sh) \<Longrightarrow>
     lock_step s (s\<lparr>lsy_snd := t, lsy_shm := sh\<rparr>)"
| lock_recv: "ivshmem_lock_recv_step (lsy_rcv s) (lsy_shm s) = (r, sh) \<Longrightarrow>
     lock_step s (s\<lparr>lsy_rcv := r, lsy_shm := sh\<rparr>)"

fun ls_crit :: "ls_pc \<Rightarrow> bool" where
  "ls_crit (Ls_copy _) = True"
| "ls_crit pc = (pc \<in> {Ls_pid, Ls_rvm, Ls_svm, Ls_dsize, Ls_one, Ls_unlock})"

fun lr_crit :: "lr_pc \<Rightarrow> bool" where
  "lr_crit (Lr_copy _) = True"
| "lr_crit pc = (pc \<in> {Lr_dec, Lr_unlock})"

text \<open>
  A message is cut into chunks of the size of the data section.  The sender has published
  \<open>a\<close> of them and the receiver has consumed \<open>b\<close>; \<^verbatim>\<open>ref_count\<close> is the difference.  The
  counts go over all calls, so that the invariant also serves sequences of calls: \<open>B\<close> is the
  stream of all bytes, messages have \<open>N\<close> of them, the sender is in its call \<open>i\<close> and the
  receiver in its call \<open>j\<close>.  Chunk \<open>a\<close> starts at \<open>lock_pos N a\<close>, which is byte
  \<open>lock_upto N i a\<close> of message \<open>i\<close>.
\<close>

fun lock_pos :: "nat \<Rightarrow> nat \<Rightarrow> nat" where
  "lock_pos N 0 = 0"
| "lock_pos N (Suc a) = min (N * Suc (lock_pos N a div N)) (lock_pos N a + unat LOCK_DATA_SECTION_SIZE)"

definition lock_upto :: "nat \<Rightarrow> nat \<Rightarrow> nat \<Rightarrow> nat" where
  "lock_upto N i a = lock_pos N a - N * i"

definition lock_in :: "nat \<Rightarrow> nat \<Rightarrow> nat \<Rightarrow> bool" where
  "lock_in N i a \<longleftrightarrow> N * i \<le> lock_pos N a \<and> lock_pos N a \<le> N * i + N"

definition lock_send_ok :: "nat \<Rightarrow> nat \<Rightarrow> nat \<Rightarrow> nat \<Rightarrow> (nat \<Rightarrow> byte) \<Rightarrow> lock_shm \<Rightarrow> lock_sender \<Rightarrow> bool" where
  "lock_send_ok N i a b B sh t \<longleftrightarrow>
     (let c = lock_upto N i a; c' = lock_upto N i (Suc a); k = lk_key (lock_sec sh); kt = ls_key t;
          own = (unat (ls_sent t) = c \<and> unat (ls_to_sent t) = c' - c \<and> c < N);
          filled = (unat (ls_sent t) = c' \<and> unat (ls_to_sent t) = c' - c \<and> c < N \<and> a = b \<and>
                    (\<forall>k < c' - c. lock_data sh k = B (lock_pos N a + k)))
      in unat (ls_size t) = N \<and> N \<le> length (ls_buf t) \<and> (\<forall>k < N. ls_buf t ! k = B (N * i + k)) \<and> lock_in N i a \<and>
      (case ls_pc t of
         Ls_size \<Rightarrow> unat (ls_sent t) = c
       | Ls_ref \<Rightarrow> own
       | Ls_mutex \<Rightarrow> own \<and> a = b
       | Ls_lock \<Rightarrow> own \<and> a = b
       | Ls_copy j \<Rightarrow> own \<and> a = b \<and> j \<le> c' - c \<and> (\<forall>k < j. lock_data sh k = B (lock_pos N a + k))
       | Ls_pid \<Rightarrow> filled
       | Ls_rvm \<Rightarrow> filled \<and> lk_sender_pid k = lk_sender_pid kt
       | Ls_svm \<Rightarrow> filled \<and> lk_sender_pid k = lk_sender_pid kt \<and> lk_receiver_vm k = lk_receiver_vm kt
       | Ls_dsize \<Rightarrow> filled \<and> k = kt
       | Ls_one \<Rightarrow> filled \<and> k = kt
       | Ls_unlock \<Rightarrow> unat (ls_sent t) = c
       | Ls_ret v \<Rightarrow> v = 0 \<and> c = N
       | Ls_fault e \<Rightarrow> False))"

definition lr_progress :: "lock_receiver \<Rightarrow> nat" where
  "lr_progress r = nat (lr_received r) +
     (case lr_pc r of Lr_copy j \<Rightarrow> j | Lr_dec \<Rightarrow> nat (lr_to_receive r) | _ \<Rightarrow> 0)"

definition lock_recv_ok :: "nat \<Rightarrow> nat \<Rightarrow> nat \<Rightarrow> nat \<Rightarrow> (nat \<Rightarrow> byte) \<Rightarrow> lock_receiver \<Rightarrow> bool" where
  "lock_recv_ok N i a b B r \<longleftrightarrow>
     (let c = lock_upto N i b; c' = lock_upto N i (Suc b);
          own = (lr_to_receive r = int (c' - c) \<and> c < N)
      in unat (lr_size r) = N \<and> N \<le> length (lr_buf r) \<and> N < 2 ^ 31 \<and> lr_received r = int c \<and> lock_in N i b \<and>
      (case lr_pc r of
         Lr_size \<Rightarrow> True
       | Lr_rvm \<Rightarrow> own
       | Lr_svm \<Rightarrow> own
       | Lr_pid \<Rightarrow> own
       | Lr_ref \<Rightarrow> own
       | Lr_mutex \<Rightarrow> own \<and> a = Suc b
       | Lr_lock \<Rightarrow> own \<and> a = Suc b
       | Lr_copy j \<Rightarrow> own \<and> a = Suc b \<and> j \<le> c' - c
       | Lr_dec \<Rightarrow> own \<and> a = Suc b
       | Lr_unlock \<Rightarrow> True
       | Lr_ret v \<Rightarrow> v = 0 \<and> c = N
       | Lr_fault e \<Rightarrow> False) \<and>
      (\<forall>k < lr_progress r. lr_buf r ! k = B (N * i + k)))"

definition lock_shared :: "nat \<Rightarrow> (nat \<Rightarrow> byte) \<Rightarrow> nat \<Rightarrow> nat \<Rightarrow> lock_sys \<Rightarrow> bool" where
  "lock_shared N B a b s \<longleftrightarrow>
     (let t = lsy_snd s; r = lsy_rcv s; sh = lsy_shm s; cs = lock_sec sh in
      ref_count cs = int a - int b \<and> (a = b \<or> a = Suc b) \<and>
      (a = Suc b \<longrightarrow> lock_pos N b < lock_pos N a \<and> lk_key cs = ls_key t \<and>
         (\<forall>k < lock_pos N a - lock_pos N b. lock_data sh k = B (lock_pos N b + k))) \<and>
      (lk_mutex cs \<longleftrightarrow> ls_crit (ls_pc t) \<or> lr_crit (lr_pc r)) \<and>
      \<not> (ls_crit (ls_pc t) \<and> lr_crit (lr_pc r)) \<and>
      (ls_pc t = Ls_lock \<longrightarrow> \<not> lr_crit (lr_pc r)) \<and> (lr_pc r = Lr_lock \<longrightarrow> \<not> ls_crit (ls_pc t)))"

definition lock_inv_at :: "nat \<Rightarrow> nat \<Rightarrow> nat \<Rightarrow> (nat \<Rightarrow> byte) \<Rightarrow> nat \<Rightarrow> nat \<Rightarrow> lock_sys \<Rightarrow> bool" where
  "lock_inv_at N i j B a b s \<longleftrightarrow>
     lock_send_ok N i a b B (lsy_shm s) (lsy_snd s) \<and>
     lock_recv_ok N j a b B (lsy_rcv s) \<and> lock_shared N B a b s \<and>
     lk_receiver_vm (lr_key (lsy_rcv s)) = lk_receiver_vm (ls_key (lsy_snd s)) \<and>
     lk_sender_vm (lr_key (lsy_rcv s)) = lk_sender_vm (ls_key (lsy_snd s)) \<and>
     (lk_sender_pid (lr_key (lsy_rcv s)) \<in> {0, lk_sender_pid (ls_key (lsy_snd s))})"

definition lock_inv :: "lock_sys \<Rightarrow> bool" where
  "lock_inv s \<longleftrightarrow> (\<exists>N a b. lock_inv_at N 0 0 (nth (ls_buf (lsy_snd s))) a b s)"

definition lock_init :: "lock_sys \<Rightarrow> bool" where
  "lock_init s \<longleftrightarrow>
     (let t = lsy_snd s; r = lsy_rcv s in
      t = lock_send_call (ls_key t) (ls_buf t) (ls_size t) \<and>
      r = lock_recv_call (lr_key r) (lr_buf r) (lr_size r) \<and>
      lr_size r = ls_size t \<and> unat (ls_size t) < 2 ^ 31 \<and>
      unat (ls_size t) \<le> length (ls_buf t) \<and> unat (lr_size r) \<le> length (lr_buf r) \<and>
      lk_receiver_vm (lr_key r) = lk_receiver_vm (ls_key t) \<and>
      lk_sender_vm (lr_key r) = lk_sender_vm (ls_key t) \<and>
      lk_sender_pid (lr_key r) \<in> {0, lk_sender_pid (ls_key t)} \<and>
      ref_count (lock_sec (lsy_shm s)) = 0 \<and> \<not> lk_mutex (lock_sec (lsy_shm s)))"

definition lock_stream :: "lock_sys \<Rightarrow> byte list" where
  "lock_stream s = take (unat (ls_size (lsy_snd s))) (ls_buf (lsy_snd s))"

definition lock_delivered :: "lock_sys \<Rightarrow> byte list" where
  "lock_delivered s = take (lr_progress (lsy_rcv s)) (lr_buf (lsy_rcv s))"

definition lock_received :: "lock_sys \<Rightarrow> bool" where
  "lock_received s \<longleftrightarrow> lr_pc (lsy_rcv s) = Lr_ret 0"

definition lock_done :: "lock_sys \<Rightarrow> bool" where
  "lock_done s \<longleftrightarrow> ls_pc (lsy_snd s) = Ls_ret 0 \<and> lr_pc (lsy_rcv s) = Lr_ret 0"

fun ls_rank :: "ls_pc \<Rightarrow> nat" where
  "ls_rank (Ls_copy j) = (if j = 0 then 4 else 15)"
| "ls_rank Ls_pid = 14"
| "ls_rank Ls_rvm = 13"
| "ls_rank Ls_svm = 12"
| "ls_rank Ls_dsize = 11"
| "ls_rank Ls_one = 10"
| "ls_rank Ls_unlock = 9"
| "ls_rank Ls_size = 8"
| "ls_rank Ls_ref = 7"
| "ls_rank Ls_mutex = 6"
| "ls_rank Ls_lock = 5"
| "ls_rank _ = 0"

fun lr_rank :: "lr_pc \<Rightarrow> nat" where
  "lr_rank (Lr_copy j) = (if j = 0 then 1 else 15)"
| "lr_rank Lr_dec = 14"
| "lr_rank Lr_unlock = 13"
| "lr_rank Lr_size = 12"
| "lr_rank Lr_rvm = 11"
| "lr_rank Lr_svm = 10"
| "lr_rank Lr_pid = 9"
| "lr_rank Lr_ref = 8"
| "lr_rank Lr_mutex = 7"
| "lr_rank Lr_lock = 6"
| "lr_rank _ = 0"

text \<open>
  Work left: twenty for each byte not yet copied, and the distance to the next copied byte.
\<close>

definition ls_work :: "lock_sender \<Rightarrow> nat" where
  "ls_work t = (unat (ls_size t) - unat (ls_sent t) - (case ls_pc t of Ls_copy j \<Rightarrow> j | _ \<Rightarrow> 0)) * 20 + ls_rank (ls_pc t)"

definition lr_work :: "lock_receiver \<Rightarrow> nat" where
  "lr_work r = (unat (lr_size r) - lr_progress r) * 20 + lr_rank (lr_pc r)"

definition lock_work :: "lock_sys \<Rightarrow> nat" where
  "lock_work s = ls_work (lsy_snd s) + lr_work (lsy_rcv s)"

section \<open>Several senders\<close>

record lock_multi =
  lm_senders :: "lock_sender list"
  lm_rcv :: lock_receiver
  lm_shm :: lock_shm

inductive lock_multi_step :: "lock_multi \<Rightarrow> lock_multi \<Rightarrow> bool" where
  lock_multi_send: "i < length (lm_senders s) \<Longrightarrow> ivshmem_lock_send_step (lm_senders s ! i) (lm_shm s) = (t, sh) \<Longrightarrow>
     lock_multi_step s (s\<lparr>lm_senders := (lm_senders s)[i := t], lm_shm := sh\<rparr>)"
| lock_multi_recv: "ivshmem_lock_recv_step (lm_rcv s) (lm_shm s) = (r, sh) \<Longrightarrow>
     lock_multi_step s (s\<lparr>lm_rcv := r, lm_shm := sh\<rparr>)"

text \<open>A schedule names the process of each step.\<close>

datatype lock_proc = Rcv | Snd nat

fun lock_run :: "lock_proc list \<Rightarrow> lock_multi \<Rightarrow> lock_multi" where
  "lock_run [] s = s"
| "lock_run (Rcv # ps) s =
     (let (r, sh) = ivshmem_lock_recv_step (lm_rcv s) (lm_shm s) in lock_run ps (s\<lparr>lm_rcv := r, lm_shm := sh\<rparr>))"
| "lock_run (Snd i # ps) s =
     (if i < length (lm_senders s) then
        let (t, sh) = ivshmem_lock_send_step (lm_senders s ! i) (lm_shm s) in
        lock_run ps (s\<lparr>lm_senders := (lm_senders s)[i := t], lm_shm := sh\<rparr>)
      else lock_run ps s)"

definition lock_start :: lock_multi where
  "lock_start =
     \<lparr>lm_senders = [lock_send_call \<lparr>lk_sender_vm = 1, lk_sender_pid = 10, lk_receiver_vm = 2\<rparr> [1, 1] 2,
                    lock_send_call \<lparr>lk_sender_vm = 1, lk_sender_pid = 11, lk_receiver_vm = 2\<rparr> [2, 2] 2],
      lm_rcv = lock_recv_call \<lparr>lk_sender_vm = 1, lk_sender_pid = 0, lk_receiver_vm = 2\<rparr> [0, 0] 2,
      lm_shm = \<lparr>lock_sec = \<lparr>ref_count = 0, lk_mutex = False,
                            lk_key = \<lparr>lk_sender_vm = 0, lk_sender_pid = 0, lk_receiver_vm = 0\<rparr>, lk_data_size = 0\<rparr>,
                lock_data = (\<lambda>_. 0)\<rparr>\<rparr>"

definition lock_demo :: lock_sys where
  "lock_demo =
     \<lparr>lsy_snd = lock_send_call \<lparr>lk_sender_vm = 1, lk_sender_pid = 10, lk_receiver_vm = 2\<rparr> [5, 6, 7] 3,
      lsy_rcv = lock_recv_call \<lparr>lk_sender_vm = 1, lk_sender_pid = 0, lk_receiver_vm = 2\<rparr> [0, 0, 0] 3,
      lsy_shm = \<lparr>lock_sec = snd (ivshmem_lock_init_control_section
                   \<lparr>ref_count = 9, lk_mutex = True,
                    lk_key = \<lparr>lk_sender_vm = 0, lk_sender_pid = 0, lk_receiver_vm = 0\<rparr>, lk_data_size = 0\<rparr>),
                 lock_data = (\<lambda>_. 0)\<rparr>\<rparr>"

text \<open>
  Both senders pass both tests before either takes the flag; then they copy alternately.
\<close>

definition lock_both_in :: "lock_proc list" where
  "lock_both_in = [Snd 0, Snd 0, Snd 0, Snd 1, Snd 1, Snd 1, Snd 0, Snd 1]"

definition lock_mixed :: "lock_proc list" where
  "lock_mixed =
     [Snd 0, Snd 0, Snd 0, Snd 1, Snd 1, Snd 1, Snd 0, Snd 1, Snd 1, Snd 0, Snd 0, Snd 1,
      Snd 0, Snd 0, Snd 0, Snd 0, Snd 0, Snd 0, Snd 0, Snd 1, Snd 1, Snd 1, Snd 1, Snd 1,
      Snd 1, Snd 1, Rcv, Rcv, Rcv, Rcv, Rcv, Rcv, Rcv, Rcv, Rcv, Rcv, Rcv, Rcv, Rcv]"

section \<open>The invariant is kept\<close>

lemma unat_lock_data_size [simp]: "unat LOCK_DATA_SECTION_SIZE = 4194272"
  by (simp add: LOCK_DATA_SECTION_SIZE_def lock_ctrl_layout_def lock_key_layout_def c_layout ivshmem_consts size_of_int_def)

lemma lock_upto_0 [simp]: "lock_upto N i 0 = 0" by (simp add: lock_upto_def)

lemma lock_pos_Suc_le: "lock_pos N a \<le> lock_pos N (Suc a)"
proof (cases "N = 0")
  case False
  then have "lock_pos N a < N * Suc (lock_pos N a div N)" by (simp add: dividend_less_times_div)
  then show ?thesis by simp
qed (cases a; simp)

lemma lock_pos_Suc:
  assumes "N * i \<le> lock_pos N a" and "lock_pos N a < N * i + N"
  shows "lock_pos N (Suc a) = min (N * i + N) (lock_pos N a + 4194272)"
proof -
  have "lock_pos N a div N = i" using assms by (intro div_nat_eqI) simp_all
  then show ?thesis by simp
qed

lemma lock_in_pos: "lock_in N i a \<Longrightarrow> N * i + lock_upto N i a = lock_pos N a"
  by (simp add: lock_in_def lock_upto_def)

lemma lock_upto_le: "lock_in N i a \<Longrightarrow> lock_upto N i a \<le> N" by (auto simp: lock_in_def lock_upto_def)

lemma lock_upto_Suc:
  assumes "lock_in N i a"
  shows "lock_upto N i a \<le> lock_upto N i (Suc a)"
    and "lock_upto N i a < N \<Longrightarrow> lock_upto N i a < lock_upto N i (Suc a)"
    and "lock_upto N i a < N \<Longrightarrow> lock_upto N i (Suc a) - lock_upto N i a = min (N - lock_upto N i a) 4194272"
    and "lock_upto N i (Suc a) - lock_upto N i a \<le> 4194272"
    and "lock_upto N i a < N \<Longrightarrow> lock_upto N i (Suc a) \<le> N"
    and "lock_upto N i a < N \<Longrightarrow> lock_in N i (Suc a)"
    and "lock_pos N (Suc a) - lock_pos N a = lock_upto N i (Suc a) - lock_upto N i a"
proof -
  show le: "lock_upto N i a \<le> lock_upto N i (Suc a)" using lock_pos_Suc_le [of N a] unfolding lock_upto_def by (rule diff_le_mono)
  show "lock_upto N i (Suc a) - lock_upto N i a \<le> 4194272"
    using assms by (simp add: lock_upto_def lock_in_def)
  show "lock_pos N (Suc a) - lock_pos N a = lock_upto N i (Suc a) - lock_upto N i a"
    using assms lock_pos_Suc_le [of N a] by (simp add: lock_upto_def lock_in_def del: lock_pos.simps)
  assume "lock_upto N i a < N"
  then have s: "N * i \<le> lock_pos N a" "lock_pos N a < N * i + N" using assms by (auto simp: lock_in_def lock_upto_def)
  note eq = lock_pos_Suc [OF s]
  show "lock_upto N i a < lock_upto N i (Suc a)" "lock_upto N i (Suc a) \<le> N" "lock_in N i (Suc a)"
    "lock_upto N i (Suc a) - lock_upto N i a = min (N - lock_upto N i a) 4194272"
    using s unfolding lock_upto_def lock_in_def eq by auto
qed

declare lock_pos.simps(2) [simp del]

lemma lock_chunk:
  assumes "unat sz = N" and "unat x = lock_upto N i a" and "lock_upto N i a < N" and "lock_in N i a"
  shows "unat (min (sz - x) LOCK_DATA_SECTION_SIZE) = lock_upto N i (Suc a) - lock_upto N i a"
proof -
  have "unat (sz - x) = N - lock_upto N i a" using assms by (subst unat_sub_no_wrap) auto
  then show ?thesis using lock_upto_Suc(3) [OF assms(4,3)] by (auto simp: min_def word_le_nat_alt)
qed

lemma set_sec_sel [simp]:
  "lock_sec (set_sec f sh) = f (lock_sec sh)" "lock_data (set_sec f sh) = lock_data sh"
  by (simp_all add: set_sec_def)

lemmas lock_ok_defs = lock_inv_at_def lock_send_ok_def lock_shared_def Let_def

lemma lock_recv_ok_frame:
  "lock_recv_ok N y a b B r \<Longrightarrow> (a = Suc b \<Longrightarrow> a' = Suc b) \<Longrightarrow> lock_recv_ok N y a' b B r"
  by (auto simp: lock_recv_ok_def Let_def split: lr_pc.splits)

lemma lock_send_inv:
  assumes inv: "lock_inv_at N x y B a b s" and step: "ivshmem_lock_send_step (lsy_snd s) (lsy_shm s) = (t', sh')"
  shows "lock_inv_at N x y B (if ls_pc (lsy_snd s) = Ls_one then Suc a else a) b (s\<lparr>lsy_snd := t', lsy_shm := sh'\<rparr>)"
proof -
  let ?t = "lsy_snd s" and ?sh = "lsy_shm s"
  have r: "lock_recv_ok N y a b B (lsy_rcv s)" using inv by (simp add: lock_inv_at_def)
  have sz: "unat (ls_size ?t) = N" "N \<le> length (ls_buf ?t)" "\<forall>k < N. ls_buf ?t ! k = B (N * x + k)" "lock_in N x a"
    using inv by (simp_all add: lock_ok_defs)
  have le: "ls_size ?t \<le> ls_sent ?t \<longleftrightarrow> N \<le> unat (ls_sent ?t)" using sz by (simp add: word_le_nat_alt)
  have "unat (ls_size ?t) < 2 ^ LENGTH(64)" by (rule unsigned_less)
  then have n64: "N < 2 ^ 64" using sz(1) by simp
  note up = lock_upto_le [OF sz(4)] lock_upto_Suc [OF sz(4)]
  show ?thesis
  proof (cases "ls_pc ?t")
    case Ls_size
    then have o: "unat (ls_sent ?t) = lock_upto N x a" using inv by (simp add: lock_ok_defs)
    show ?thesis
    proof (cases "N \<le> lock_upto N x a")
      case True
      then have "t' = ?t\<lparr>ls_pc := Ls_ret 0\<rparr>" "sh' = ?sh"
        using step Ls_size le o by (simp_all add: ivshmem_lock_send_step_def)
      then show ?thesis using inv Ls_size True up(1) by (simp add: lock_ok_defs)
    next
      case False
      let ?n = "min (ls_size ?t - ls_sent ?t) LOCK_DATA_SECTION_SIZE"
      have "t' = ?t\<lparr>ls_pc := Ls_ref, ls_to_sent := ?n\<rparr>" "sh' = ?sh"
        using step Ls_size le o False by (simp_all add: ivshmem_lock_send_step_def)
      moreover have "unat ?n = lock_upto N x (Suc a) - lock_upto N x a" using lock_chunk [OF sz(1) o _ sz(4)] False by simp
      ultimately show ?thesis using inv Ls_size False o by (simp add: lock_ok_defs)
    qed
  next
    case (Ls_copy j)
    then have o: "unat (ls_sent ?t) = lock_upto N x a" "unat (ls_to_sent ?t) = lock_upto N x (Suc a) - lock_upto N x a"
      "lock_upto N x a < N" "a = b" "j \<le> lock_upto N x (Suc a) - lock_upto N x a"
      using inv by (auto simp: lock_ok_defs)
    show ?thesis
    proof (cases "j < unat (ls_to_sent ?t)")
      case True
      then have "\<not> (length (ls_buf ?t) \<le> unat (ls_sent ?t) + j \<or> unat LOCK_DATA_SECTION_SIZE \<le> j)"
        using o sz up(4,5) by auto
      moreover have "lock_upto N x a + j < N" using True o up(6) by simp
      then have "ls_buf ?t ! (lock_upto N x a + j) = B (lock_pos N a + j)"
        using sz(3) lock_in_pos [OF sz(4)] by (metis add.assoc)
      ultimately show ?thesis
        using inv step Ls_copy r True o
        by (auto simp: ivshmem_lock_send_step_def lock_ok_defs less_Suc_eq)
    next
      case False
      have "unat (ls_sent ?t + ls_to_sent ?t) = lock_upto N x (Suc a)"
        using o(1,2) up(2) up(6) [OF o(3)] n64
        by (subst unat_add_no_wrap) simp_all
      then show ?thesis
        using inv step Ls_copy r False o
        by (auto simp: ivshmem_lock_send_step_def lock_ok_defs)
    qed
  next
    case Ls_one
    then show ?thesis
      using inv step lock_recv_ok_frame [OF r, of "Suc a"] up(3,7,8) lock_in_pos [OF sz(4)]
      by (auto simp: ivshmem_lock_send_step_def lock_ok_defs)
  next
    case Ls_ref
    then have "sh' = ?sh" "t' = ?t\<lparr>ls_pc := Ls_size\<rparr> \<or> t' = ?t\<lparr>ls_pc := Ls_mutex\<rparr> \<and> a = b"
      using step inv by (auto simp: ivshmem_lock_send_step_def lock_shared_def lock_inv_at_def Let_def split: if_splits)
    then show ?thesis using inv Ls_ref by (elim disjE) (simp_all add: lock_ok_defs)
  next
    case Ls_mutex
    then have "sh' = ?sh" "t' = ?t\<lparr>ls_pc := Ls_size\<rparr> \<or> t' = ?t\<lparr>ls_pc := Ls_lock\<rparr> \<and> \<not> lr_crit (lr_pc (lsy_rcv s))"
      using step inv by (auto simp: ivshmem_lock_send_step_def lock_shared_def lock_inv_at_def Let_def split: if_splits)
    then show ?thesis using inv Ls_mutex by (elim disjE) (auto simp: lock_ok_defs)
  next
    case Ls_lock
    then have "a = b" using inv by (simp add: lock_ok_defs)
    then have "lr_pc (lsy_rcv s) \<noteq> Lr_lock" using inv by (auto simp: lock_recv_ok_def lock_inv_at_def Let_def)
    then show ?thesis using inv step Ls_lock by (auto simp: ivshmem_lock_send_step_def lock_ok_defs)
  next
    case Ls_pid
    then show ?thesis using inv step by (auto simp: ivshmem_lock_send_step_def lock_ok_defs)
  next
    case Ls_rvm
    then show ?thesis using inv step by (auto simp: ivshmem_lock_send_step_def lock_ok_defs)
  next
    case Ls_svm
    then show ?thesis using inv step by (auto simp: ivshmem_lock_send_step_def lock_ok_defs)
  next
    case Ls_dsize
    then show ?thesis using inv step by (auto simp: ivshmem_lock_send_step_def lock_ok_defs)
  next
    case Ls_unlock
    then show ?thesis using inv step by (auto simp: ivshmem_lock_send_step_def lock_ok_defs)
  qed (use inv step in \<open>simp_all add: ivshmem_lock_send_step_def lock_ok_defs\<close>)
qed

lemma lock_send_ok_frame:
  "lock_send_ok N x a b B sh t \<Longrightarrow> lock_data sh' = lock_data sh \<Longrightarrow> lk_key (lock_sec sh') = lk_key (lock_sec sh) \<Longrightarrow>
   (a = b \<Longrightarrow> a = b') \<Longrightarrow> lock_send_ok N x a b' B sh' t"
  by (auto simp: lock_send_ok_def Let_def split: ls_pc.splits)

lemmas lock_recv_defs = lock_inv_at_def lock_recv_ok_def lock_shared_def Let_def lr_progress_def

lemma lock_recv_inv:
  assumes inv: "lock_inv_at N x y B a b s" and step: "ivshmem_lock_recv_step (lsy_rcv s) (lsy_shm s) = (r', sh')"
  shows "lock_inv_at N x y B a (if lr_pc (lsy_rcv s) = Lr_dec then Suc b else b) (s\<lparr>lsy_rcv := r', lsy_shm := sh'\<rparr>)"
proof -
  let ?r = "lsy_rcv s" and ?sh = "lsy_shm s"
  have t: "lock_send_ok N x a b B ?sh (lsy_snd s)" using inv by (simp add: lock_inv_at_def)
  have sz: "unat (lr_size ?r) = N" "N \<le> length (lr_buf ?r)" "N < 2 ^ 31" "lr_received ?r = int (lock_upto N y b)"
    "lock_in N y b"
    using inv by (simp_all add: lock_recv_defs)
  note up = lock_upto_le [OF sz(5)] lock_upto_Suc [OF sz(5)]
  have u: "unat (size_of_int (lr_received ?r)) = lock_upto N y b"
    using sz up(1) by (subst unat_size_of_int) auto
  have fr: "\<And>sh'. lock_data sh' = lock_data ?sh \<Longrightarrow> lk_key (lock_sec sh') = lk_key (lock_sec ?sh) \<Longrightarrow>
      lock_send_ok N x a b B sh' (lsy_snd s)"
    using lock_send_ok_frame [OF t] by simp
  show ?thesis
  proof (cases "lr_pc ?r")
    case Lr_size
    show ?thesis
    proof (cases "N \<le> lock_upto N y b")
      case True
      then have "r' = ?r\<lparr>lr_pc := Lr_ret 0\<rparr>" "sh' = ?sh"
        using step Lr_size sz(1) u by (simp_all add: ivshmem_lock_recv_step_def Let_def word_le_nat_alt)
      then show ?thesis using inv Lr_size True up(1) by (simp add: lock_recv_defs)
    next
      case False
      let ?n = "min (lr_size ?r - size_of_int (lr_received ?r)) LOCK_DATA_SECTION_SIZE"
      have "r' = ?r\<lparr>lr_pc := Lr_rvm, lr_to_receive := uint ?n\<rparr>" "sh' = ?sh"
        using step Lr_size sz(1) u False by (simp_all add: ivshmem_lock_recv_step_def Let_def word_le_nat_alt)
      moreover have "unat ?n = lock_upto N y (Suc b) - lock_upto N y b" using lock_chunk [OF sz(1) u _ sz(5)] False by simp
      then have "uint ?n = int (lock_upto N y (Suc b) - lock_upto N y b)" by (metis uint_nat)
      ultimately show ?thesis using inv Lr_size False by (simp add: lock_recv_defs)
    qed
  next
    case (Lr_copy j)
    then have o: "lr_to_receive ?r = int (lock_upto N y (Suc b) - lock_upto N y b)"
      "lock_upto N y b < N" "a = Suc b" "j \<le> lock_upto N y (Suc b) - lock_upto N y b"
      using inv by (simp_all add: lock_recv_defs)
    have d: "\<forall>k < lock_upto N y (Suc b) - lock_upto N y b. lock_data ?sh k = B (N * y + (lock_upto N y b + k))"
      using inv o(3) up(8) lock_in_pos [OF sz(5)]
      by (simp add: lock_shared_def lock_inv_at_def Let_def add.assoc [symmetric])
    show ?thesis
    proof (cases "int j < lr_to_receive ?r")
      case True
      then have ok: "\<not> (length (lr_buf ?r) \<le> nat (lr_received ?r) + j \<or> unat LOCK_DATA_SECTION_SIZE \<le> j)"
        using o sz up by auto
      have j: "j < lock_upto N y (Suc b) - lock_upto N y b" using True o by simp
      have r': "r' = ?r\<lparr>lr_pc := Lr_copy (Suc j),
          lr_buf := (lr_buf ?r)[lock_upto N y b + j := lock_data ?sh j]\<rparr>" "sh' = ?sh"
        using step Lr_copy True ok sz(4) by (auto simp: ivshmem_lock_recv_step_def Let_def)
      have "\<forall>k < lock_upto N y b + j. lr_buf ?r ! k = B (N * y + k)"
        using inv Lr_copy sz(4) by (simp add: lock_recv_defs)
      then have "\<forall>k < lock_upto N y b + Suc j. lr_buf r' ! k = B (N * y + k)"
        using d j sz(2,4) ok by (auto simp: r' nth_list_update less_Suc_eq)
      then show ?thesis
        using inv Lr_copy o j sz by (simp add: r' lock_recv_defs)
    next
      case False
      then have "r' = ?r\<lparr>lr_pc := Lr_dec\<rparr>" "sh' = ?sh" "j = lock_upto N y (Suc b) - lock_upto N y b"
        using step Lr_copy o(1,4) by (simp_all add: ivshmem_lock_recv_step_def Let_def)
      then show ?thesis using inv Lr_copy o by (simp add: lock_recv_defs)
    qed
  next
    case Lr_dec
    then have o: "lr_to_receive ?r = int (lock_upto N y (Suc b) - lock_upto N y b)" "a = Suc b"
      "ref_count (lock_sec ?sh) = 1" "lock_upto N y b < N"
      using inv by (simp_all add: lock_recv_defs)
    have "lr_received ?r + lr_to_receive ?r = int (lock_upto N y (Suc b))" using sz(4) o(1) up(2) by simp
    moreover have "in_c_int (int (lock_upto N y (Suc b)))" "in_c_int 0" using up(6) [OF o(4)] sz(3) by (simp_all add: in_c_int_def)
    ultimately have r': "r' = ?r\<lparr>lr_pc := Lr_unlock, lr_received := int (lock_upto N y (Suc b))\<rparr>"
      "sh' = set_sec (\<lambda>c. c\<lparr>ref_count := ref_count c - 1\<rparr>) ?sh"
      using step Lr_dec o by (simp_all add: ivshmem_lock_recv_step_def Let_def)
    have "lock_send_ok N x a (Suc b) B sh' (lsy_snd s)"
      by (rule lock_send_ok_frame [OF t]) (simp_all add: r' o)
    then show ?thesis
      using inv r' Lr_dec o up(2,7) sz by (auto simp: lock_recv_defs)
  next
    case Lr_rvm
    then have "sh' = ?sh" "r' = ?r\<lparr>lr_pc := Lr_size\<rparr> \<or> r' = ?r\<lparr>lr_pc := Lr_svm\<rparr>"
      using step inv by (auto simp: ivshmem_lock_recv_step_def lock_shared_def lock_inv_at_def Let_def split: if_splits)
    then show ?thesis using inv Lr_rvm by (elim disjE) (simp_all add: lock_recv_defs)
  next
    case Lr_svm
    then have "sh' = ?sh" "r' = ?r\<lparr>lr_pc := Lr_size\<rparr> \<or> r' = ?r\<lparr>lr_pc := Lr_pid\<rparr>"
      using step inv by (auto simp: ivshmem_lock_recv_step_def lock_shared_def lock_inv_at_def Let_def split: if_splits)
    then show ?thesis using inv Lr_svm by (elim disjE) (simp_all add: lock_recv_defs)
  next
    case Lr_pid
    then have "sh' = ?sh" "r' = ?r\<lparr>lr_pc := Lr_size\<rparr> \<or> r' = ?r\<lparr>lr_pc := Lr_ref\<rparr>"
      using step inv by (auto simp: ivshmem_lock_recv_step_def lock_shared_def lock_inv_at_def Let_def split: if_splits)
    then show ?thesis using inv Lr_pid by (elim disjE) (simp_all add: lock_recv_defs)
  next
    case Lr_ref
    then have "sh' = ?sh" "r' = ?r\<lparr>lr_pc := Lr_size\<rparr> \<or> r' = ?r\<lparr>lr_pc := Lr_mutex\<rparr> \<and> a = Suc b"
      using step inv by (auto simp: ivshmem_lock_recv_step_def lock_shared_def lock_inv_at_def Let_def split: if_splits)
    then show ?thesis using inv Lr_ref by (elim disjE) (simp_all add: lock_recv_defs)
  next
    case Lr_mutex
    then have "sh' = ?sh" "r' = ?r\<lparr>lr_pc := Lr_size\<rparr> \<or> r' = ?r\<lparr>lr_pc := Lr_lock\<rparr> \<and> \<not> ls_crit (ls_pc (lsy_snd s))"
      using step inv by (auto simp: ivshmem_lock_recv_step_def lock_shared_def lock_inv_at_def Let_def split: if_splits)
    then show ?thesis using inv Lr_mutex by (elim disjE) (auto simp: lock_recv_defs)
  next
    case Lr_lock
    then have r': "sh' = set_sec (\<lambda>c. c\<lparr>lk_mutex := True\<rparr>) ?sh" "r' = ?r\<lparr>lr_pc := Lr_copy 0\<rparr>"
      using step by (simp_all add: ivshmem_lock_recv_step_def Let_def)
    then show ?thesis using inv Lr_lock fr [of sh'] by (auto simp: lock_recv_defs lock_send_ok_def)
  next
    case Lr_unlock
    then have r': "sh' = set_sec (\<lambda>c. c\<lparr>lk_mutex := False\<rparr>) ?sh" "r' = ?r\<lparr>lr_pc := Lr_size\<rparr>"
      using step by (simp_all add: ivshmem_lock_recv_step_def Let_def)
    then show ?thesis using inv Lr_unlock fr [of sh'] by (simp add: lock_recv_defs)
  qed (use inv step in \<open>simp_all add: ivshmem_lock_recv_step_def lock_recv_defs\<close>)
qed

lemma lock_inv_at_step: "lock_inv_at N x y B a b s \<Longrightarrow> lock_step s s' \<Longrightarrow> \<exists>a b. lock_inv_at N x y B a b s'"
  by (elim lock_step.cases) (blast dest: lock_send_inv lock_recv_inv)+

lemma lock_step_frame: "lock_step s t \<Longrightarrow> ls_size (lsy_snd t) = ls_size (lsy_snd s) \<and> ls_buf (lsy_snd t) = ls_buf (lsy_snd s)"
proof (induction rule: lock_step.induct)
  case (lock_send s t sh)
  then show ?case by (cases "ls_pc (lsy_snd s)"; force simp: ivshmem_lock_send_step_def split: if_splits)
qed simp

lemma lock_inv_step: "lock_inv s \<Longrightarrow> lock_step s s' \<Longrightarrow> lock_inv s'"
  using lock_inv_at_step lock_step_frame unfolding lock_inv_def by metis

lemma lock_send_call_iff:
  "t = lock_send_call (ls_key t) (ls_buf t) (ls_size t) \<longleftrightarrow> ls_pc t = Ls_size \<and> ls_sent t = 0 \<and> ls_to_sent t = 0"
  by (cases t) (auto simp: lock_send_call_def)

lemma lock_recv_call_iff:
  "r = lock_recv_call (lr_key r) (lr_buf r) (lr_size r) \<longleftrightarrow> lr_pc r = Lr_size \<and> lr_received r = 0 \<and> lr_to_receive r = 0"
  by (cases r) (auto simp: lock_recv_call_def)

lemma lock_init_inv:
  assumes "lock_init s" and "\<forall>k < unat (ls_size (lsy_snd s)). ls_buf (lsy_snd s) ! k = B k"
  shows "lock_inv_at (unat (ls_size (lsy_snd s))) 0 0 B 0 0 s"
  using assms
  by (auto simp: lock_init_def lock_send_call_iff lock_recv_call_iff lock_inv_at_def lock_send_ok_def lock_recv_ok_def
      lock_shared_def lock_in_def lr_progress_def Let_def)

lemma lock_inv_init: "lock_init s \<Longrightarrow> lock_inv s"
  unfolding lock_inv_def using lock_init_inv by blast

section \<open>The pair as a transport\<close>

lemma lock_recv_taken:
  assumes "lock_recv_ok N y a b B r"
  shows "lr_progress r \<le> N" and "N \<le> length (lr_buf r)"
    and "k < lr_progress r \<Longrightarrow> lr_buf r ! k = B (N * y + k)"
    and "lr_pc r = Lr_ret v \<Longrightarrow> v = 0 \<and> lr_progress r = N \<and> lock_pos N b = N * Suc y"
    and "b \<le> a \<Longrightarrow> a \<le> Suc b \<Longrightarrow> N * y + lr_progress r \<le> lock_pos N a"
proof -
  have i: "lock_in N y b" using assms by (simp add: lock_recv_ok_def Let_def)
  note up = lock_upto_le [OF i] lock_upto_Suc [OF i] lock_in_pos [OF i]
  show "lr_progress r \<le> N"
    using assms up(1,2,6) by (auto simp: lock_recv_ok_def lr_progress_def Let_def split: lr_pc.splits)
  show "lr_pc r = Lr_ret v \<Longrightarrow> v = 0 \<and> lr_progress r = N \<and> lock_pos N b = N * Suc y"
    using assms up(9) by (auto simp: lock_recv_ok_def lr_progress_def Let_def)
  show "N * y + lr_progress r \<le> lock_pos N a" if "b \<le> a" "a \<le> Suc b"
    using assms up(2,8,9) that lock_pos_Suc_le [of N b] le_Suc_eq [of a b]
    by (auto simp: lock_recv_ok_def lr_progress_def Let_def split: lr_pc.splits)
qed (use assms in \<open>auto simp: lock_recv_ok_def Let_def\<close>)

lemma lock_inv_prefix:
  assumes "lock_inv s"
  shows "prefix (lock_delivered s) (lock_stream s)"
proof -
  obtain N a b where i: "lock_inv_at N 0 0 (nth (ls_buf (lsy_snd s))) a b s" using assms by (auto simp: lock_inv_def)
  then have r: "lock_recv_ok N 0 a b (nth (ls_buf (lsy_snd s))) (lsy_rcv s)"
    and t: "unat (ls_size (lsy_snd s)) = N" "N \<le> length (ls_buf (lsy_snd s))"
    by (auto simp: lock_inv_at_def lock_send_ok_def Let_def)
  show ?thesis
    using lock_recv_taken(1-3) [OF r] t by (intro prefix_nthI) (auto simp: lock_delivered_def lock_stream_def)
qed

lemma lock_inv_received:
  assumes "lock_inv s" and "lock_received s"
  shows "lock_delivered s = lock_stream s"
proof -
  obtain N a b where i: "lock_inv_at N 0 0 (nth (ls_buf (lsy_snd s))) a b s" using assms by (auto simp: lock_inv_def)
  then have r: "lock_recv_ok N 0 a b (nth (ls_buf (lsy_snd s))) (lsy_rcv s)"
    and t: "unat (ls_size (lsy_snd s)) = N" "N \<le> length (ls_buf (lsy_snd s))"
    by (auto simp: lock_inv_at_def lock_send_ok_def Let_def)
  have "length (lock_delivered s) = length (lock_stream s)"
    using lock_recv_taken(2,4) [OF r] t assms(2) by (auto simp: lock_delivered_def lock_stream_def lock_received_def)
  then show ?thesis using lock_inv_prefix [OF assms(1)] by (auto simp: prefix_def)
qed

lemma lock_send_progress:
  assumes inv: "lock_inv_at N x y B a b s"
    and step: "ivshmem_lock_send_step (lsy_snd s) (lsy_shm s) = (t', sh')"
    and go: "ls_pc (lsy_snd s) \<noteq> Ls_ret 0" "ls_pc (lsy_snd s) = Ls_ref \<Longrightarrow> a = b"
      "ls_pc (lsy_snd s) = Ls_mutex \<Longrightarrow> \<not> lk_mutex (lock_sec (lsy_shm s))"
  shows "ls_work t' < ls_work (lsy_snd s)"
proof -
  let ?t = "lsy_snd s"
  have inv': "lock_inv_at N x y B (if ls_pc ?t = Ls_one then Suc a else a) b (s\<lparr>lsy_snd := t', lsy_shm := sh'\<rparr>)"
    by (rule lock_send_inv [OF inv step])
  have nf: "\<And>e. ls_pc t' \<noteq> Ls_fault e" using inv' by (auto simp: lock_ok_defs)
  have sz: "unat (ls_size ?t) = N" "lock_in N x a" using inv by (simp_all add: lock_ok_defs)
  note up = lock_upto_le [OF sz(2)] lock_upto_Suc(1,2,5) [OF sz(2)]
  have rc: "ref_count (lock_sec (lsy_shm s)) = 0" if "a = b" using inv that by (simp add: lock_ok_defs)
  have ret: "v = 0" if "ls_pc ?t = Ls_ret v" for v using inv that by (simp add: lock_ok_defs)
  show ?thesis
  proof (cases "ls_pc ?t")
    case (Ls_copy j)
    then have o: "unat (ls_sent ?t) = lock_upto N x a" "unat (ls_to_sent ?t) = lock_upto N x (Suc a) - lock_upto N x a"
      "lock_upto N x a < N" "j \<le> lock_upto N x (Suc a) - lock_upto N x a"
      using inv by (auto simp: lock_ok_defs)
    show ?thesis
    proof (cases "j < unat (ls_to_sent ?t)")
      case True
      then have "t' = ?t\<lparr>ls_pc := Ls_copy (Suc j)\<rparr>"
        using step Ls_copy nf [of OutOfBounds] by (auto simp: ivshmem_lock_send_step_def split: if_splits)
      then show ?thesis using Ls_copy True o sz up by (simp add: ls_work_def)
    next
      case False
      then have "t' = ?t\<lparr>ls_pc := Ls_pid, ls_sent := ls_sent ?t + ls_to_sent ?t\<rparr>"
        using step Ls_copy by (auto simp: ivshmem_lock_send_step_def)
      moreover from this have "unat (ls_sent ?t + ls_to_sent ?t) = lock_upto N x (Suc a)"
        using inv' Ls_copy by (simp add: lock_ok_defs)
      ultimately show ?thesis using Ls_copy False o sz up by (simp add: ls_work_def)
    qed
  next
    case (Ls_fault e)
    then show ?thesis using inv by (simp add: lock_ok_defs)
  qed (use step go rc ret in \<open>auto simp: ivshmem_lock_send_step_def ls_work_def split: if_splits\<close>)
qed

lemma lock_recv_progress:
  assumes inv: "lock_inv_at N x y B a b s"
    and step: "ivshmem_lock_recv_step (lsy_rcv s) (lsy_shm s) = (r', sh')"
    and go: "lr_pc (lsy_rcv s) \<noteq> Lr_ret 0"
      "lr_pc (lsy_rcv s) \<in> {Lr_rvm, Lr_svm, Lr_pid, Lr_ref} \<Longrightarrow> a = Suc b"
      "lr_pc (lsy_rcv s) = Lr_mutex \<Longrightarrow> \<not> lk_mutex (lock_sec (lsy_shm s))"
  shows "lr_work r' < lr_work (lsy_rcv s)"
proof -
  let ?r = "lsy_rcv s" and ?sh = "lsy_shm s"
  have inv': "lock_inv_at N x y B a (if lr_pc ?r = Lr_dec then Suc b else b) (s\<lparr>lsy_rcv := r', lsy_shm := sh'\<rparr>)"
    by (rule lock_recv_inv [OF inv step])
  have nf: "\<And>e. lr_pc r' \<noteq> Lr_fault e" using inv' by (auto simp: lock_recv_defs)
  have sz: "unat (lr_size ?r) = N" "lr_received ?r = int (lock_upto N y b)" "lock_in N y b"
    using inv by (simp_all add: lock_recv_defs)
  note up = lock_upto_le [OF sz(3)] lock_upto_Suc(1,2,5) [OF sz(3)]
  have key: "lk_key (lock_sec ?sh) = ls_key (lsy_snd s)" "ref_count (lock_sec ?sh) = 1" if "a = Suc b"
    using inv that by (simp_all add: lock_shared_def lock_inv_at_def Let_def)
  have pk: "lk_receiver_vm (lr_key ?r) = lk_receiver_vm (ls_key (lsy_snd s))"
     "lk_sender_vm (lr_key ?r) = lk_sender_vm (ls_key (lsy_snd s))"
     "lk_sender_pid (lr_key ?r) = 0 \<or> lk_sender_pid (lr_key ?r) = lk_sender_pid (ls_key (lsy_snd s))"
    using inv by (simp_all add: lock_inv_at_def)
  show ?thesis
  proof (cases "lr_pc ?r")
    case (Lr_copy j)
    then have o: "lr_to_receive ?r = int (lock_upto N y (Suc b) - lock_upto N y b)"
      "lock_upto N y b < N" "j \<le> lock_upto N y (Suc b) - lock_upto N y b"
      using inv by (auto simp: lock_recv_defs)
    show ?thesis
    proof (cases "int j < lr_to_receive ?r")
      case True
      then have "\<exists>x. r' = ?r\<lparr>lr_pc := Lr_copy (Suc j), lr_buf := x\<rparr>"
        using step Lr_copy nf [of OutOfBounds] by (auto simp: ivshmem_lock_recv_step_def Let_def split: if_splits)
      then show ?thesis using Lr_copy True o sz up by (auto simp: lr_work_def lr_progress_def)
    next
      case False
      then have "r' = ?r\<lparr>lr_pc := Lr_dec\<rparr>"
        using step Lr_copy by (auto simp: ivshmem_lock_recv_step_def Let_def)
      then show ?thesis using Lr_copy False o sz up by (simp add: lr_work_def lr_progress_def)
    qed
  next
    case Lr_dec
    then have "r' = ?r\<lparr>lr_pc := Lr_unlock, lr_received := lr_received ?r + lr_to_receive ?r\<rparr>"
      using step nf [of SignedOverflow] by (auto simp: ivshmem_lock_recv_step_def Let_def split: if_splits)
    moreover have "lr_to_receive ?r = int (lock_upto N y (Suc b) - lock_upto N y b)" using inv Lr_dec by (auto simp: lock_recv_defs)
    ultimately show ?thesis using Lr_dec sz by (simp add: lr_work_def lr_progress_def nat_add_distrib)
  next
    case (Lr_fault e)
    then show ?thesis using inv by (simp add: lock_recv_defs)
  next
    case (Lr_ret v)
    then show ?thesis using inv go(1) by (simp add: lock_recv_defs)
  qed (use step go key pk in \<open>auto simp: ivshmem_lock_recv_step_def lr_work_def lr_progress_def Let_def split: if_splits\<close>)
qed

text \<open>
  One of the two can go on, unless the receiver waits for the next call of a sender that has
  returned, or has returned itself.
\<close>

lemma lock_progress_at:
  assumes inv: "lock_inv_at N x y B a b s"
    and nr: "lr_pc (lsy_rcv s) = Lr_ret 0 \<Longrightarrow> ls_pc (lsy_snd s) \<noteq> Ls_ret 0 \<and> a = b"
    and ns: "ls_pc (lsy_snd s) = Ls_ret 0 \<Longrightarrow> lr_pc (lsy_rcv s) \<in> {Lr_rvm, Lr_svm, Lr_pid, Lr_ref} \<Longrightarrow> a = Suc b"
  shows "\<exists>s'. lock_step s s' \<and> lock_work s' < lock_work s"
proof -
  let ?t = "lsy_snd s" and ?r = "lsy_rcv s" and ?sh = "lsy_shm s"
  obtain t' sh1 where t': "ivshmem_lock_send_step ?t ?sh = (t', sh1)" by fastforce
  obtain r' sh2 where r': "ivshmem_lock_recv_step ?r ?sh = (r', sh2)" by fastforce
  have ab: "a = b \<or> a = Suc b" and mx: "lk_mutex (lock_sec ?sh) \<longleftrightarrow> ls_crit (ls_pc ?t) \<or> lr_crit (lr_pc ?r)"
    using inv by (simp_all add: lock_inv_at_def lock_shared_def Let_def)
  have s: "ls_pc ?t = Ls_mutex \<Longrightarrow> a = b" using inv by (auto simp: lock_ok_defs)
  show ?thesis
  proof (cases "ls_pc ?t \<noteq> Ls_ret 0 \<and> (ls_pc ?t = Ls_ref \<longrightarrow> a = b) \<and>
      (ls_pc ?t = Ls_mutex \<longrightarrow> \<not> lk_mutex (lock_sec ?sh))")
    case True
    then have "ls_work t' < ls_work ?t" using lock_send_progress [OF inv t'] by blast
    then show ?thesis
      using lock_send [OF t'] by (intro exI [of _ "s\<lparr>lsy_snd := t', lsy_shm := sh1\<rparr>"] conjI) (simp_all add: lock_work_def)
  next
    case blocked: False
    have "lr_pc ?r \<noteq> Lr_ret 0 \<and> (lr_pc ?r \<in> {Lr_rvm, Lr_svm, Lr_pid, Lr_ref} \<longrightarrow> a = Suc b) \<and>
      (lr_pc ?r = Lr_mutex \<longrightarrow> \<not> lk_mutex (lock_sec ?sh))"
      using blocked
    proof (elim de_Morgan_conj [THEN iffD1, elim_format] disjE)
      assume "\<not> ls_pc ?t \<noteq> Ls_ret 0"
      then show ?thesis using nr ns mx by auto
    next
      assume "\<not> (ls_pc ?t = Ls_ref \<longrightarrow> a = b)"
      then show ?thesis using ab nr mx by auto
    next
      assume "\<not> (ls_pc ?t = Ls_mutex \<longrightarrow> \<not> lk_mutex (lock_sec ?sh))"
      then have "lr_crit (lr_pc ?r)" using mx by auto
      then show ?thesis by auto
    qed
    then have "lr_work r' < lr_work ?r" using lock_recv_progress [OF inv r'] by blast
    then show ?thesis
      using lock_recv [OF r'] by (intro exI [of _ "s\<lparr>lsy_rcv := r', lsy_shm := sh2\<rparr>"] conjI) (simp_all add: lock_work_def)
  qed
qed

lemma lock_waits:
  assumes "lock_recv_ok N y a b B r" and "lr_pc r \<in> {Lr_rvm, Lr_svm, Lr_pid, Lr_ref}"
  shows "lock_pos N b < N * Suc y"
proof -
  have "lock_in N y b" "lock_upto N y b < N" using assms by (auto simp: lock_recv_ok_def Let_def)
  then show ?thesis using lock_in_pos by fastforce
qed

lemma lock_sent_pos:
  assumes "lock_send_ok N x a b B sh t"
  shows "lock_pos N a \<le> N * Suc x" and "ls_pc t = Ls_ret v \<Longrightarrow> v = 0 \<and> lock_pos N a = N * Suc x"
proof -
  have i: "lock_in N x a" using assms by (simp add: lock_send_ok_def Let_def)
  then show "lock_pos N a \<le> N * Suc x" by (simp add: lock_in_def)
  show "ls_pc t = Ls_ret v \<Longrightarrow> v = 0 \<and> lock_pos N a = N * Suc x"
    using assms lock_in_pos [OF i] by (auto simp: lock_send_ok_def Let_def)
qed

lemma lock_progress:
  assumes "lock_inv s" and "\<not> lock_done s"
  shows "\<exists>s'. lock_step s s' \<and> lock_work s' < lock_work s"
proof -
  let ?B = "nth (ls_buf (lsy_snd s))" and ?t = "lsy_snd s" and ?r = "lsy_rcv s"
  obtain N a b where inv: "lock_inv_at N 0 0 ?B a b s" using assms(1) by (auto simp: lock_inv_def)
  then have t: "lock_send_ok N 0 a b ?B (lsy_shm s) ?t" and r: "lock_recv_ok N 0 a b ?B ?r" and ab: "a = b \<or> a = Suc b"
    by (simp_all add: lock_inv_at_def lock_shared_def Let_def)
  show ?thesis
  proof (rule lock_progress_at [OF inv])
    assume e: "lr_pc ?r = Lr_ret 0"
    then have "lock_pos N b = N" using lock_recv_taken(4) [OF r] by simp
    moreover have "a = Suc b \<Longrightarrow> lock_pos N b < lock_pos N a"
      using inv by (simp add: lock_inv_at_def lock_shared_def Let_def)
    ultimately have "a \<noteq> Suc b" using lock_sent_pos(1) [OF t] by auto
    then show "ls_pc ?t \<noteq> Ls_ret 0 \<and> a = b" using e ab assms(2) by (auto simp: lock_done_def)
  next
    assume "ls_pc ?t = Ls_ret 0" "lr_pc ?r \<in> {Lr_rvm, Lr_svm, Lr_pid, Lr_ref}"
    then show "a = Suc b" using lock_sent_pos(2) [OF t] lock_waits [OF r] ab by auto
  qed
qed

lemma lock_stream_step: "lock_step s t \<Longrightarrow> lock_stream t = lock_stream s"
  using lock_step_frame by (simp add: lock_stream_def)

interpretation lock: live_transport lock_init lock_step lock_inv lock_stream lock_delivered
  lock_received lock_done lock_work
proof unfold_locales
  show "lock_inv s" if "lock_init s" for s using that by (rule lock_inv_init)
  show "lock_inv t" if "lock_inv s" "lock_step s t" for s t using that by (rule lock_inv_step)
  show "lock_stream t = lock_stream s" if "lock_inv s" "lock_step s t" for s t
    using that(2) by (rule lock_stream_step)
  show "prefix (lock_delivered s) (lock_stream s)" if "lock_inv s" for s
    using that by (rule lock_inv_prefix)
  show "lock_delivered s = lock_stream s" if "lock_inv s" "lock_received s" for s
    using that by (rule lock_inv_received)
  show "lock_received s" if "lock_inv s" "lock_done s" for s
    using that(2) by (simp add: lock_received_def lock_done_def)
  show "\<exists>t. lock_step s t \<and> lock_work t < lock_work s" if "lock_inv s" "\<not> lock_done s" for s
    using that by (rule lock_progress)
qed

lemma lock_run_steps: "steps lock_multi_step s (lock_run ps s)"
proof (induction ps s rule: lock_run.induct)
  case (2 ps s)
  then show ?case by (auto split: prod.split intro: steps_step lock_multi_recv)
next
  case (3 i ps s)
  then show ?case by (auto split: prod.split intro: steps_step lock_multi_send)
qed (auto intro: steps_refl)

lemma lock_size_num: "LOCK_DATA_SECTION_SIZE = 4194272"
  by (simp add: word_unat_eq_iff)

lemma lock_inv_no_fault:
  assumes "lock_inv s"
  shows "ls_pc (lsy_snd s) \<noteq> Ls_fault e" and "lr_pc (lsy_rcv s) \<noteq> Lr_fault e"
  using assms by (auto simp: lock_inv_def lock_inv_at_def lock_send_ok_def lock_recv_ok_def Let_def)

lemma lock_demo_init: "lock_init lock_demo"
  by (simp add: lock_init_def lock_demo_def lock_send_call_def lock_recv_call_def ivshmem_lock_init_control_section_def)

lemma lock_demo_stream: "lock_stream lock_demo = [5, 6, 7]"
  by (simp add: lock_stream_def lock_demo_def lock_send_call_def)

lemmas lock_eval = lock_start_def lock_send_call_def lock_recv_call_def ivshmem_lock_send_step_def
  ivshmem_lock_recv_step_def set_sec_def lock_size_num min_def size_of_int_def in_c_int_def

section \<open>Properties\<close>

lemma lock_delivery_facts:
  assumes "reach lock_init lock_step s"
  shows "prefix (lock_delivered s) (lock_stream s)"
    and "lr_pc (lsy_rcv s) = Lr_ret 0 \<Longrightarrow> lock_delivered s = lock_stream s"
    and "\<not> (ls_crit (ls_pc (lsy_snd s)) \<and> lr_crit (lr_pc (lsy_rcv s)))"
    and "ls_pc (lsy_snd s) \<noteq> Ls_fault e" and "lr_pc (lsy_rcv s) \<noteq> Lr_fault e"
proof -
  have inv: "lock_inv s" by (rule lock.reach_inv [OF assms])
  show "prefix (lock_delivered s) (lock_stream s)" by (rule lock.reach_prefix [OF assms])
  show "lock_delivered s = lock_stream s" if "lr_pc (lsy_rcv s) = Lr_ret 0"
    using lock.reach_complete [OF assms] that by (simp add: lock_received_def)
  show "\<not> (ls_crit (ls_pc (lsy_snd s)) \<and> lr_crit (lr_pc (lsy_rcv s)))"
    using inv by (auto simp: lock_inv_def lock_inv_at_def lock_shared_def Let_def)
  show "ls_pc (lsy_snd s) \<noteq> Ls_fault e" "lr_pc (lsy_rcv s) \<noteq> Lr_fault e"
    by (rule lock_inv_no_fault [OF inv])+
qed

text \<open>
  Safety of the lock-based transport with one sender and one receiver: what has been
  received is a prefix of the message, all of it when the receiver returns 0, the two are
  never both inside the copying section, and nothing is accessed out of bounds.
\<close>

theorem lock_delivery:
  assumes "reach lock_init lock_step s"
  shows "prefix (lock_delivered s) (lock_stream s) \<and>
    (lr_pc (lsy_rcv s) = Lr_ret 0 \<longrightarrow> lock_delivered s = lock_stream s) \<and>
    \<not> (ls_crit (ls_pc (lsy_snd s)) \<and> lr_crit (lr_pc (lsy_rcv s))) \<and>
    (\<forall>e. ls_pc (lsy_snd s) \<noteq> Ls_fault e \<and> lr_pc (lsy_rcv s) \<noteq> Lr_fault e)"
  using lock_delivery_facts [OF assms] by auto

theorem lock_delivery_witness:
  "prefix (lock_delivered lock_demo) [5, 6, 7] \<and> ls_pc (lsy_snd lock_demo) \<noteq> Ls_fault OutOfBounds"
  using lock_delivery [OF reach_init [of lock_init, OF lock_demo_init]] by (simp add: lock_demo_stream)

text \<open>
  Liveness of the lock-based transport: from every reachable state of one sender and
  one receiver some schedule lets both calls return 0 with the whole message delivered.
\<close>

theorem lock_completes:
  assumes "reach lock_init lock_step s"
  shows "\<exists>t. steps lock_step s t \<and> ls_pc (lsy_snd t) = Ls_ret 0 \<and> lr_pc (lsy_rcv t) = Lr_ret 0 \<and>
    lock_delivered t = lock_stream s"
  using lock.reach_can_finish [OF assms] by (simp add: lock_done_def)

theorem lock_completes_witness:
  "\<exists>t. steps lock_step lock_demo t \<and> ls_pc (lsy_snd t) = Ls_ret 0 \<and> lr_pc (lsy_rcv t) = Lr_ret 0 \<and>
     lock_delivered t = [5, 6, 7]"
  using lock_completes [OF reach_init [of lock_init, OF lock_demo_init]] by (simp add: lock_demo_stream)

text \<open>
  C37.  Testing the flag and setting it are two steps: two senders of the lock-based
  transport can be inside the copying section at once, and the receiver can return 0 with a
  message that mixes both.
\<close>

theorem lock_two_senders_mix:
  "(\<exists>s. steps lock_multi_step lock_start s \<and> list_all (\<lambda>t. ls_crit (ls_pc t)) (lm_senders s)) \<and>
   (\<exists>s. steps lock_multi_step lock_start s \<and> lr_pc (lm_rcv s) = Lr_ret 0 \<and>
      map ls_buf (lm_senders s) = [[1, 1], [2, 2]] \<and> lr_buf (lm_rcv s) = [1, 2])"
proof (intro conjI exI)
  show "list_all (\<lambda>t. ls_crit (ls_pc t)) (lm_senders (lock_run lock_both_in lock_start))"
    by (simp add: lock_both_in_def lock_eval)
  show "lr_pc (lm_rcv (lock_run lock_mixed lock_start)) = Lr_ret 0"
    by (simp add: lock_mixed_def lock_eval)
  show "map ls_buf (lm_senders (lock_run lock_mixed lock_start)) = [[1, 1], [2, 2]]"
    by (simp add: lock_mixed_def lock_eval)
  show "lr_buf (lm_rcv (lock_run lock_mixed lock_start)) = [1, 2]"
    by (simp add: lock_mixed_def lock_eval)
qed (rule lock_run_steps)+

end
