(* ===== verification/Ivshmem_Lock_Calls.thy ===== *)
theory Ivshmem_Lock_Calls
  imports Ivshmem_Lock_Base Ivshmem_Sessions
begin

text \<open>
  Sequences of calls over the lock-based transport: a sender that calls
  \<^verbatim>\<open>ivshmem_lock_send_buffer\<close> and a receiver that calls \<^verbatim>\<open>ivshmem_lock_recv_buffer\<close> again
  and again.  The sender can be one chunk, and so one call, ahead.  The invariant of the
  transport, with the chunks counted over all calls, makes it a \<open>call_transport\<close>.
\<close>

section \<open>The lock-based transport as a transport of calls\<close>

text \<open>
  A session starts as a single transfer does, with messages of at least one byte.  The
  writer calls again whatever a call returned, the reader when it returned 0.
\<close>

definition lock_begin :: "nat \<Rightarrow> byte list \<Rightarrow> lock_sys \<Rightarrow> bool" where
  "lock_begin N m s \<longleftrightarrow> lock_init s \<and> ls_buf (lsy_snd s) = m \<and> unat (ls_size (lsy_snd s)) = N \<and> 0 < N"

definition lock_sent :: "lock_sys \<Rightarrow> bool" where
  "lock_sent s \<longleftrightarrow> (case ls_pc (lsy_snd s) of Ls_ret v \<Rightarrow> True | _ \<Rightarrow> False)"

definition lock_next_send :: "byte list \<Rightarrow> lock_sys \<Rightarrow> lock_sys" where
  "lock_next_send m s = s\<lparr>lsy_snd := lock_send_call (ls_key (lsy_snd s)) m (ls_size (lsy_snd s))\<rparr>"

definition lock_next_recv :: "lock_sys \<Rightarrow> lock_sys" where
  "lock_next_recv s = s\<lparr>lsy_rcv := lock_recv_call (lr_key (lsy_rcv s)) (lr_buf (lsy_rcv s)) (lr_size (lsy_rcv s))\<rparr>"

definition lock_fetch :: "lock_sys \<Rightarrow> byte list" where
  "lock_fetch s = take (unat (lr_size (lsy_rcv s))) (lr_buf (lsy_rcv s))"

definition lock_calls_inv :: "nat \<Rightarrow> nat \<Rightarrow> nat \<Rightarrow> (nat \<Rightarrow> byte) \<Rightarrow> lock_sys \<Rightarrow> bool" where
  "lock_calls_inv N i j B s \<longleftrightarrow> 0 < N \<and> (\<exists>a b. lock_inv_at N i j B a b s)"

abbreviation lock_session_step :: "lock_sys session \<Rightarrow> lock_sys session \<Rightarrow> bool" where
  "lock_session_step \<equiv> session_step lock_step lock_sent lock_received lock_next_send lock_next_recv lock_fetch"

section \<open>The laws\<close>

lemma lock_inv_parts:
  assumes "lock_inv_at N i j B a b s"
  shows "lock_send_ok N i a b B (lsy_shm s) (lsy_snd s)" and "lock_recv_ok N j a b B (lsy_rcv s)"
    and "b \<le> a" and "a \<le> Suc b" and "unat (ls_size (lsy_snd s)) = N" and "unat (lr_size (lsy_rcv s)) = N"
  using assms by (auto simp: lock_inv_at_def lock_shared_def lock_send_ok_def lock_recv_ok_def Let_def)

lemma lock_next_send_inv:
  assumes inv: "lock_inv_at N i j B a b s" and "lock_sent s" and "length m = N" and "\<forall>k < N. m ! k = B (N * Suc i + k)"
  shows "lock_inv_at N (Suc i) j B a b (lock_next_send m s)"
proof -
  note p = lock_inv_parts [OF inv]
  obtain v where v: "ls_pc (lsy_snd s) = Ls_ret v" using assms(2) by (auto simp: lock_sent_def split: ls_pc.splits)
  then have "lock_pos N a = N * Suc i" using lock_sent_pos(2) [OF p(1)] by blast
  then have "lock_in N (Suc i) a" "lock_upto N (Suc i) a = 0" by (simp_all add: lock_in_def lock_upto_def)
  then have "lock_send_ok N (Suc i) a b B sh (lock_send_call k m (ls_size (lsy_snd s)))" for sh k
    using assms(3,4) p(5) by (simp add: lock_send_ok_def lock_send_call_def)
  moreover have "\<not> ls_crit (ls_pc (lock_send_call k m z)) \<and> ls_pc (lock_send_call k m z) = Ls_size \<and>
      ls_key (lock_send_call k m z) = k" for k z
    by (simp add: lock_send_call_def)
  ultimately show ?thesis
    using inv v unfolding lock_inv_at_def lock_shared_def Let_def lock_next_send_def by simp
qed

lemma lock_next_recv_inv:
  assumes inv: "lock_inv_at N i j B a b s" and "lock_received s"
  shows "lock_inv_at N i (Suc j) B a b (lock_next_recv s)"
proof -
  note p = lock_inv_parts [OF inv]
  have v: "lr_pc (lsy_rcv s) = Lr_ret 0" using assms(2) by (simp add: lock_received_def)
  then have "lock_pos N b = N * Suc j" using lock_recv_taken(4) [OF p(2)] by blast
  then have "lock_in N (Suc j) b" "lock_upto N (Suc j) b = 0" by (simp_all add: lock_in_def lock_upto_def)
  then have "lock_recv_ok N (Suc j) a b B (lock_recv_call k (lr_buf (lsy_rcv s)) (lr_size (lsy_rcv s)))" for k
    using p(2) by (simp add: lock_recv_ok_def lock_recv_call_def lr_progress_def Let_def)
  moreover have "\<not> lr_crit (lr_pc (lock_recv_call k m z)) \<and> lr_pc (lock_recv_call k m z) = Lr_size \<and>
      lr_key (lock_recv_call k m z) = k" for k m z
    by (simp add: lock_recv_call_def)
  ultimately show ?thesis
    using inv v unfolding lock_inv_at_def lock_shared_def Let_def lock_next_recv_def by simp
qed

lemma lock_calls_progress:
  assumes inv: "lock_inv_at N i j B a b s" and "\<not> lock_received s" and "\<not> (lock_sent s \<and> i < j)"
  shows "\<exists>t. lock_step s t \<and> lock_work t < lock_work s"
proof (rule lock_progress_at [OF inv])
  note p = lock_inv_parts [OF inv]
  show "ls_pc (lsy_snd s) \<noteq> Ls_ret 0 \<and> a = b" if "lr_pc (lsy_rcv s) = Lr_ret 0"
    using assms(2) that by (simp add: lock_received_def)
  show "a = Suc b" if w: "ls_pc (lsy_snd s) = Ls_ret 0" "lr_pc (lsy_rcv s) \<in> {Lr_rvm, Lr_svm, Lr_pid, Lr_ref}"
  proof (rule ccontr)
    assume "a \<noteq> Suc b"
    then have "a = b" using p(3,4) by simp
    then have "N * Suc i < N * Suc j" using lock_sent_pos(2) [OF p(1) w(1)] lock_waits [OF p(2) w(2)] by simp
    then have "i < j" by (simp only: nat_mult_less_cancel_disj Suc_less_eq)
    then show False using assms(3) w(1) by (simp add: lock_sent_def)
  qed
qed

interpretation lock_calls: call_transport lock_step lock_begin lock_calls_inv lock_sent lock_received lock_next_send
  lock_next_recv lock_fetch lock_delivered lock_work "\<lambda>N. N * 20 + 12"
proof unfold_locales
  show "lock_calls_inv N 0 0 B s" if "lock_begin N m s" "length m = N" "\<forall>k < N. m ! k = B k" for N m s B
    using that lock_init_inv [of s B] by (auto simp: lock_begin_def lock_calls_inv_def)
  show "lock_calls_inv N i j B t" if "lock_calls_inv N i j B s" "lock_step s t" for N i j B s t
    using that lock_inv_at_step unfolding lock_calls_inv_def by blast
  show "lock_calls_inv N (Suc i) j B (lock_next_send m s)"
    if "lock_calls_inv N i j B s" "lock_sent s" "length m = N" "\<forall>k < N. m ! k = B (N * Suc i + k)" for N i j B s m
    using that lock_next_send_inv unfolding lock_calls_inv_def by blast
  show "lock_calls_inv N i (Suc j) B (lock_next_recv s)" if "lock_calls_inv N i j B s" "lock_received s" for N i j B s
    using that lock_next_recv_inv unfolding lock_calls_inv_def by blast
  fix N i j B s
  assume "lock_calls_inv N i j B s"
  then obtain a b where inv: "lock_inv_at N i j B a b s" and N: "0 < N" by (auto simp: lock_calls_inv_def)
  note p = lock_inv_parts [OF inv]
  note t = lock_recv_taken [OF p(2)]
  have len: "length (lock_delivered s) = lr_progress (lsy_rcv s)" using t(1,2) by (simp add: lock_delivered_def)
  show "0 < N" by (rule N)
  show "N * j + length (lock_delivered s) \<le> N * Suc i"
    using order_trans [OF t(5) [OF p(3,4)] lock_sent_pos(1) [OF p(1)]] len by simp
  show "lock_delivered s ! k = B (N * j + k)" if "k < length (lock_delivered s)" for k
    using that t(3) len by (simp add: lock_delivered_def)
  show "length (lock_delivered s) = N \<and> lock_fetch s = lock_delivered s" if "lock_received s"
    using that t(4) len p(6) by (simp add: lock_received_def lock_fetch_def lock_delivered_def)
  show "\<exists>t. lock_step s t \<and> lock_work t < lock_work s" if "\<not> lock_received s" "\<not> (lock_sent s \<and> i < j)"
    using that by (rule lock_calls_progress [OF inv])
  show "lock_work (lock_next_send m s) \<le> lock_work s + (N * 20 + 12)" if "lock_sent s" for m
    using p(5) by (simp add: lock_work_def lock_next_send_def ls_work_def lock_send_call_def)
  show "lock_work (lock_next_recv s) \<le> lock_work s + (N * 20 + 12)" if "lock_received s"
    using p(6) by (simp add: lock_work_def lock_next_recv_def lr_work_def lr_progress_def lock_recv_call_def)
qed

lemma lock_calls_returns:
  assumes "session_inv lock_calls_inv s"
  shows "ls_pc (lsy_snd (se_sys s)) = Ls_ret v \<Longrightarrow> v = 0" and "lr_pc (lsy_rcv (se_sys s)) = Lr_ret v \<Longrightarrow> v = 0"
    and "ls_pc (lsy_snd (se_sys s)) \<noteq> Ls_fault e" and "lr_pc (lsy_rcv (se_sys s)) \<noteq> Lr_fault e"
    and "\<not> (ls_crit (ls_pc (lsy_snd (se_sys s))) \<and> lr_crit (lr_pc (lsy_rcv (se_sys s))))"
    and "se_got s = take (length (se_got s)) (se_msgs s)"
  using assms
  by (auto simp: session_inv_def lock_calls_inv_def lock_inv_at_def lock_send_ok_def lock_recv_ok_def lock_shared_def Let_def)

text \<open>Two messages of three bytes.\<close>

definition lock_session_demo :: "lock_sys session" where
  "lock_session_demo = \<lparr>se_sys = lock_demo, se_msgs = [[5, 6, 7], [8, 9, 10]], se_next = 1, se_got = []\<rparr>"

lemma lock_session_demo_init: "session_init lock_begin lock_session_demo"
  using lock_demo_init
  by (simp add: session_init_def lock_session_demo_def lock_begin_def) (simp add: lock_demo_def lock_send_call_def)

section \<open>Properties\<close>

text \<open>
  C13.  Safety of the lock-based transport over whole sessions of one sender and one
  receiver (messages of one size, at least one byte, below 2 GiB): the messages received are
  the first messages sent, what the receiver has of the current one continues them, the two
  are never both inside the copying section, every call that returns returns 0, and nothing
  is accessed out of bounds.
\<close>

theorem lock_session_delivery:
  assumes "reach (session_init lock_begin) lock_session_step s"
  shows "se_got s = take (length (se_got s)) (se_msgs s) \<and>
    prefix (concat (se_got s) @ lock_delivered (se_sys s)) (concat (se_msgs s)) \<and>
    \<not> (ls_crit (ls_pc (lsy_snd (se_sys s))) \<and> lr_crit (lr_pc (lsy_rcv (se_sys s)))) \<and>
    (\<forall>v. ls_pc (lsy_snd (se_sys s)) = Ls_ret v \<or> lr_pc (lsy_rcv (se_sys s)) = Lr_ret v \<longrightarrow> v = 0) \<and>
    (\<forall>e. ls_pc (lsy_snd (se_sys s)) \<noteq> Ls_fault e \<and> lr_pc (lsy_rcv (se_sys s)) \<noteq> Lr_fault e)"
  using lock_calls_returns [OF lock_calls.session.reach_inv [OF assms]] lock_calls.session.reach_prefix [OF assms]
  by (auto simp: session_stream_def session_delivered_def)

theorem lock_session_delivery_witness:
  "prefix (lock_delivered (se_sys lock_session_demo)) [5, 6, 7, 8, 9, 10] \<and>
   ls_pc (lsy_snd (se_sys lock_session_demo)) \<noteq> Ls_fault OutOfBounds"
  using lock_session_delivery [OF reach_init [where init = "session_init lock_begin", OF lock_session_demo_init]]
  by (simp add: lock_session_demo_def)

text \<open>
  C14.  Liveness of the lock-based transport over whole sessions: from every reachable state
  some schedule lets the receiver get all messages and the sender's last call return 0.
\<close>

theorem lock_session_completes:
  assumes "reach (session_init lock_begin) lock_session_step s"
  shows "\<exists>t. steps lock_session_step s t \<and> se_got t = se_msgs s \<and> se_next t = length (se_msgs s) \<and> lock_sent (se_sys t)"
  using lock_calls.session.reach_can_finish [OF assms] session_msgs_steps by (fastforce simp: session_done_def)

theorem lock_session_completes_witness:
  "\<exists>t. steps lock_session_step lock_session_demo t \<and> se_got t = [[5, 6, 7], [8, 9, 10]]"
proof -
  obtain t where "steps lock_session_step lock_session_demo t" "se_got t = se_msgs lock_session_demo"
    using lock_session_completes [OF reach_init [where init = "session_init lock_begin", OF lock_session_demo_init]] by blast
  then show ?thesis by (auto simp: lock_session_demo_def)
qed

end
