(* ===== verification/Ivshmem_Lib.thy ===== *)
theory Ivshmem_Lib
  imports Ivshmem_Secure
begin

text \<open>
  The device context, \<^verbatim>\<open>secure_ivshmem/src/ivshmem_lib.c\<close>, for the variant that the header
  selects (\<^verbatim>\<open>IVSHMEM_RUNNING_OS\<close> 1, \<open>ivshmem_open_dev\<close>) and for the QEMU guest and host
  (2 and 3, \<open>ivshmem_open_dev_bars\<close>).  What \<^verbatim>\<open>open\<close> and \<^verbatim>\<open>mmap\<close> return are
  arguments, and the calls that release a resource are collected in the order they are made.
\<close>

section \<open>The device context\<close>


datatype c_ptr = Null | Map_failed | Ptr nat

datatype os_call = Os_close c_int | Os_munmap c_ptr c_int

definition IVSHMEM_MAX_IRQ :: nat where [ivshmem_consts]: "IVSHMEM_MAX_IRQ = 8"

definition IVSHMEM_BAR0_SIZE :: c_int where [ivshmem_consts]: "IVSHMEM_BAR0_SIZE = 256"

record irq_data =
  irq_fd :: c_int
  irq_vector :: c_int

record dev_ctx =
  vm_id :: c_int
  bar0_fd :: c_int
  p_reg :: c_ptr
  bar2_fd :: c_int
  p_shmem :: c_ptr
  io_fd :: c_int
  epfds_irq :: "c_int list"
  irq_datas :: "irq_data list"
  is_opened :: bool

definition get_vm_id :: c_int where "get_vm_id = 1"

fun init_irqs :: "nat \<Rightarrow> nat \<Rightarrow> dev_ctx \<Rightarrow> dev_ctx" where
  "init_irqs i 0 ctx = ctx"
| "init_irqs i (Suc n) ctx =
     init_irqs (Suc i) n
       (ctx\<lparr>epfds_irq := (epfds_irq ctx)[i := - 1],
            irq_datas := (irq_datas ctx)[i := (irq_datas ctx ! i)\<lparr>irq_fd := - 1\<rparr>]\<rparr>)"

definition ivshmem_init_dev_ctx :: "dev_ctx \<Rightarrow> dev_ctx" where
  "ivshmem_init_dev_ctx ctx =
     (let zero = \<lparr>vm_id = 0, bar0_fd = 0, p_reg = Null, bar2_fd = 0, p_shmem = Null, io_fd = 0,
                  epfds_irq = replicate IVSHMEM_MAX_IRQ 0,
                  irq_datas = replicate IVSHMEM_MAX_IRQ \<lparr>irq_fd = 0, irq_vector = 0\<rparr>, is_opened = False\<rparr>;
          c1 = zero\<lparr>vm_id := get_vm_id, bar0_fd := - 1, p_reg := Null, bar2_fd := - 1, p_shmem := Null,
                    io_fd := - 1\<rparr>
      in (init_irqs 0 IVSHMEM_MAX_IRQ c1)\<lparr>is_opened := False\<rparr>)"

definition ivshmem_open_dev :: "c_int \<Rightarrow> c_ptr \<Rightarrow> dev_ctx \<Rightarrow> c_int \<times> dev_ctx \<times> os_call list" where
  "ivshmem_open_dev open_ret mmap_ret ctx =
     (let c1 = ctx\<lparr>bar0_fd := - 1, p_reg := Null, bar2_fd := open_ret\<rparr> in
      if bar2_fd c1 < 0 then (- 1, c1, [])
      else
        let c2 = c1\<lparr>p_shmem := mmap_ret\<rparr> in
        if p_shmem c2 = Map_failed then (- 1, c2, [Os_close (bar2_fd c2)])
        else (0, c2, []))"

text \<open>The variants for QEMU open and map the registers before the shared memory.\<close>

definition ivshmem_open_dev_bars :: "c_int \<Rightarrow> c_ptr \<Rightarrow> c_int \<Rightarrow> c_ptr \<Rightarrow> dev_ctx \<Rightarrow> c_int \<times> dev_ctx \<times> os_call list" where
  "ivshmem_open_dev_bars open_ret0 mmap_ret0 open_ret2 mmap_ret2 ctx =
     (let c1 = ctx\<lparr>bar0_fd := open_ret0\<rparr> in
      if bar0_fd c1 < 0 then (- 1, c1, [])
      else
        let c2 = c1\<lparr>p_reg := mmap_ret0\<rparr> in
        if p_reg c2 = Map_failed then (- 1, c2, [Os_close (bar0_fd c2)])
        else
          let c3 = c2\<lparr>bar2_fd := open_ret2\<rparr> in
          if bar2_fd c3 < 0 then (- 1, c3, [])
          else
            let c4 = c3\<lparr>p_shmem := mmap_ret2\<rparr> in
            if p_shmem c4 = Map_failed then (- 1, c4, [Os_close (bar2_fd c4)])
            else (0, c4, []))"

definition ivshmem_close_dev :: "dev_ctx \<Rightarrow> dev_ctx \<times> os_call list" where
  "ivshmem_close_dev ctx =
     (let (c1, l1) = (if p_reg ctx \<noteq> Null
                      then (ctx\<lparr>p_reg := Null\<rparr>, [Os_munmap (p_reg ctx) IVSHMEM_BAR0_SIZE]) else (ctx, []));
          (c2, l2) = (if 0 \<le> bar0_fd c1 then (c1\<lparr>bar0_fd := - 1\<rparr>, [Os_close (bar0_fd c1)]) else (c1, []));
          (c3, l3) = (if p_shmem c2 \<noteq> Null
                      then (c2\<lparr>p_shmem := Null\<rparr>, [Os_munmap (p_shmem c2) IVSHMEM_SIZE]) else (c2, []));
          (c4, l4) = (if 0 \<le> bar2_fd c3 then (c3\<lparr>bar2_fd := - 1\<rparr>, [Os_close (bar2_fd c3)]) else (c3, []))
      in (c4, l1 @ l2 @ l3 @ l4))"

text \<open>A context with arbitrary contents, as it stands on the stack of a caller.\<close>

definition stack_ctx :: dev_ctx where
  "stack_ctx =
     \<lparr>vm_id = 77, bar0_fd = 5, p_reg = Ptr 1, bar2_fd = 6, p_shmem = Ptr 2, io_fd = 7, epfds_irq = [], irq_datas = [],
      is_opened = True\<rparr>"

section \<open>Properties\<close>

lemma init_dev_ctx_eq:
  "ivshmem_init_dev_ctx ctx =
     \<lparr>vm_id = 1, bar0_fd = - 1, p_reg = Null, bar2_fd = - 1, p_shmem = Null, io_fd = - 1,
      epfds_irq = replicate 8 (- 1), irq_datas = replicate 8 \<lparr>irq_fd = - 1, irq_vector = 0\<rparr>, is_opened = False\<rparr>"
  by (simp add: ivshmem_init_dev_ctx_def get_vm_id_def IVSHMEM_MAX_IRQ_def numeral_eq_Suc)

text \<open>
  Opening the device and closing the context unmaps and closes exactly what was
  opened, once, and puts the context back into its initial state; closing an initialised
  context does nothing.
\<close>

theorem open_close_balanced:
  assumes "0 \<le> fd" and "m \<noteq> Null" and "m \<noteq> Map_failed"
  shows "(\<exists>ctx. ivshmem_open_dev fd m (ivshmem_init_dev_ctx c0) = (0, ctx, []) \<and> p_shmem ctx = m \<and>
      ivshmem_close_dev ctx = (ivshmem_init_dev_ctx c0, [Os_munmap m IVSHMEM_SIZE, Os_close fd])) \<and>
    ivshmem_close_dev (ivshmem_init_dev_ctx c0) = (ivshmem_init_dev_ctx c0, [])"
  using assms by (simp_all add: ivshmem_open_dev_def ivshmem_close_dev_def init_dev_ctx_eq Let_def)

theorem open_close_balanced_witness:
  "\<exists>ctx. ivshmem_open_dev 3 (Ptr 4096) (ivshmem_init_dev_ctx stack_ctx) = (0, ctx, []) \<and> p_shmem ctx = Ptr 4096"
  using open_close_balanced [of 3 "Ptr 4096" stack_ctx] by auto

theorem open_mmap_failure_closes_twice:
  assumes "0 \<le> fd"
  shows "\<exists>ctx. ivshmem_open_dev fd Map_failed (ivshmem_init_dev_ctx c0) = (- 1, ctx, [Os_close fd]) \<and>
    ivshmem_close_dev ctx = (ivshmem_init_dev_ctx c0, [Os_munmap Map_failed IVSHMEM_SIZE, Os_close fd])"
  using assms by (simp add: ivshmem_open_dev_def ivshmem_close_dev_def init_dev_ctx_eq Let_def)

theorem open_mmap_failure_closes_twice_witness:
  "\<exists>ctx. ivshmem_open_dev 3 Map_failed (ivshmem_init_dev_ctx stack_ctx) = (- 1, ctx, [Os_close 3]) \<and>
     ivshmem_close_dev ctx = (ivshmem_init_dev_ctx stack_ctx, [Os_munmap Map_failed IVSHMEM_SIZE, Os_close 3])"
  using open_mmap_failure_closes_twice [of 3 stack_ctx] by simp

text \<open>
  The same for the QEMU variants, on every path: what opening has released, followed by what
  closing releases.  A mapping that failed is unmapped, and its descriptor closed twice; when
  only the shared memory cannot be opened, the registers stay mapped until the context is closed.
\<close>

theorem open_bars_close:
  assumes "- 1 \<le> fd0" and "- 1 \<le> fd2" and "m0 \<noteq> Null" and "m2 \<noteq> Null"
    and "ivshmem_open_dev_bars fd0 m0 fd2 m2 (ivshmem_init_dev_ctx c0) = (ret, ctx, calls)"
  shows "(ret = 0 \<longleftrightarrow> 0 \<le> fd0 \<and> m0 \<noteq> Map_failed \<and> 0 \<le> fd2 \<and> m2 \<noteq> Map_failed) \<and>
    ivshmem_close_dev ctx = (ivshmem_init_dev_ctx c0, snd (ivshmem_close_dev ctx)) \<and>
    calls @ snd (ivshmem_close_dev ctx) =
      (if fd0 < 0 then []
       else if m0 = Map_failed then [Os_close fd0, Os_munmap Map_failed IVSHMEM_BAR0_SIZE, Os_close fd0]
       else if fd2 < 0 then [Os_munmap m0 IVSHMEM_BAR0_SIZE, Os_close fd0]
       else if m2 = Map_failed
         then [Os_close fd2, Os_munmap m0 IVSHMEM_BAR0_SIZE, Os_close fd0, Os_munmap Map_failed IVSHMEM_SIZE, Os_close fd2]
       else [Os_munmap m0 IVSHMEM_BAR0_SIZE, Os_close fd0, Os_munmap m2 IVSHMEM_SIZE, Os_close fd2])"
  using assms
  by (auto simp: ivshmem_open_dev_bars_def ivshmem_close_dev_def init_dev_ctx_eq Let_def split: if_splits)

theorem open_bars_close_witness:
  "\<exists>ctx. ivshmem_open_dev_bars 3 (Ptr 4096) 4 Map_failed (ivshmem_init_dev_ctx stack_ctx) = (- 1, ctx, [Os_close 4]) \<and>
     snd (ivshmem_close_dev ctx) =
       [Os_munmap (Ptr 4096) IVSHMEM_BAR0_SIZE, Os_close 3, Os_munmap Map_failed IVSHMEM_SIZE, Os_close 4]"
proof -
  obtain ctx where o: "ivshmem_open_dev_bars 3 (Ptr 4096) 4 Map_failed (ivshmem_init_dev_ctx stack_ctx) = (- 1, ctx, [Os_close 4])"
    by (simp add: ivshmem_open_dev_bars_def Let_def)
  with open_bars_close [OF _ _ _ _ o] show ?thesis by simp
qed

end
