(* ===== verification/Ivshmem_Crypto.thy ===== *)
theory Ivshmem_Crypto
  imports Ivshmem_Prelude
begin

text \<open>
  The AES-GCM wrappers, \<^verbatim>\<open>secure_ivshmem/src/ivshmem_crypto.c\<close>.  OpenSSL's EVP interface is
  a parameter; what the wrappers rely on is the predicate \<open>evp_gcm\<close>.  Return values that the
  code ignores are ignored here too.  The plaintext buffer is part of the result of a
  decryption even when the tag is rejected, as the code writes it before it checks the tag.
\<close>

section \<open>The wrappers\<close>


definition KEY_LEN :: nat where [ivshmem_consts]: "KEY_LEN = 16"
definition IV_LEN :: nat where [ivshmem_consts]: "IV_LEN = 12"
definition TAG_LEN :: nat where [ivshmem_consts]: "TAG_LEN = 16"

text \<open>
  The EVP interface as the program calls it: the operations on a cipher context, for
  encryption (\<open>True\<close>) and decryption.
\<close>

record 'c evp =
  evp_new :: 'c
  evp_init :: "bool \<Rightarrow> 'c \<Rightarrow> 'c"
  evp_ivlen :: "c_int \<Rightarrow> 'c \<Rightarrow> 'c"
  evp_key_iv :: "bool \<Rightarrow> byte list \<Rightarrow> byte list \<Rightarrow> 'c \<Rightarrow> 'c"
  evp_aad :: "bool \<Rightarrow> byte list \<Rightarrow> 'c \<Rightarrow> 'c"
  evp_update :: "bool \<Rightarrow> byte list \<Rightarrow> 'c \<Rightarrow> byte list \<times> 'c"
  evp_get_tag :: "nat \<Rightarrow> 'c \<Rightarrow> byte list"
  evp_set_tag :: "byte list \<Rightarrow> 'c \<Rightarrow> 'c"
  evp_final :: "bool \<Rightarrow> 'c \<Rightarrow> c_int \<times> byte list \<times> 'c"

definition aes_gcm_encrypt ::
  "'c evp \<Rightarrow> byte list \<Rightarrow> c_int \<Rightarrow> byte list option \<Rightarrow> c_int \<Rightarrow> byte list \<Rightarrow> byte list \<Rightarrow> c_int \<Rightarrow>
   c_int \<times> byte list \<times> byte list" where
  "aes_gcm_encrypt E plaintext plaintext_len aad aad_len key iv iv_len =
     (let c = evp_new E;
          c = evp_init E True c;
          c = evp_ivlen E iv_len c;
          c = evp_key_iv E True key iv c;
          c = (case aad of Some a \<Rightarrow> if aad_len \<noteq> 0 then evp_aad E True (take (nat aad_len) a) c else c | None \<Rightarrow> c);
          (out1, c) = evp_update E True (take (nat plaintext_len) plaintext) c;
          ciphertext_len = int (length out1);
          (r, out2, c) = evp_final E True c;
          ciphertext_len = ciphertext_len + int (length out2);
          tag = evp_get_tag E TAG_LEN c
      in (ciphertext_len, out1 @ out2, tag))"

definition aes_gcm_decrypt ::
  "'c evp \<Rightarrow> byte list \<Rightarrow> c_int \<Rightarrow> byte list option \<Rightarrow> c_int \<Rightarrow> byte list \<Rightarrow> byte list \<Rightarrow> byte list \<Rightarrow> c_int \<Rightarrow>
   c_int \<times> byte list" where
  "aes_gcm_decrypt E ciphertext ciphertext_len aad aad_len tag key iv iv_len =
     (let c = evp_new E;
          c = evp_init E False c;
          c = evp_ivlen E iv_len c;
          c = evp_key_iv E False key iv c;
          c = (case aad of Some a \<Rightarrow> if aad_len \<noteq> 0 then evp_aad E False (take (nat aad_len) a) c else c | None \<Rightarrow> c);
          (out1, c) = evp_update E False (take (nat ciphertext_len) ciphertext) c;
          plaintext_len = int (length out1);
          c = evp_set_tag E (take TAG_LEN tag) c;
          (ret, out2, c) = evp_final E False c
      in if 0 < ret then (plaintext_len + int (length out2), out1 @ out2) else (- 1, out1 @ out2))"

text \<open>The context after initialisation, key and nonce, and the associated data if there are any.\<close>

definition evp_start :: "'c evp \<Rightarrow> bool \<Rightarrow> c_int \<Rightarrow> byte list \<Rightarrow> byte list \<Rightarrow> byte list \<Rightarrow> 'c" where
  "evp_start E enc n key iv aad =
     (let c = evp_key_iv E enc key iv (evp_ivlen E n (evp_init E enc (evp_new E)))
      in if aad = [] then c else evp_aad E enc aad c)"

text \<open>
  What the program relies on from EVP's AES-GCM: the cipher adds a key stream, the final call
  adds no bytes, the tag authenticates key, nonce, associated data and ciphertext, and the
  final call of a decryption succeeds exactly for the right tag.
\<close>

definition evp_gcm ::
  "'c evp \<Rightarrow> (byte list \<Rightarrow> byte list \<Rightarrow> byte list \<Rightarrow> byte list) \<Rightarrow>
   (byte list \<Rightarrow> byte list \<Rightarrow> byte list \<Rightarrow> byte list \<Rightarrow> byte list) \<Rightarrow> bool" where
  "evp_gcm E stream mac \<longleftrightarrow>
     (\<forall>key iv xs. length (stream key iv xs) = length xs \<and> stream key iv (stream key iv xs) = xs) \<and>
     (\<forall>key iv aad xs. length (mac key iv aad xs) = TAG_LEN) \<and>
     (\<forall>key iv aad xs. length key = KEY_LEN \<longrightarrow> length iv = IV_LEN \<longrightarrow>
        (\<exists>c c' r. evp_update E True xs (evp_start E True (int IV_LEN) key iv aad) = (stream key iv xs, c) \<and>
           evp_final E True c = (r, [], c') \<and> evp_get_tag E TAG_LEN c' = mac key iv aad (stream key iv xs))) \<and>
     (\<forall>key iv aad xs t. length key = KEY_LEN \<longrightarrow> length iv = IV_LEN \<longrightarrow>
        (\<exists>c c'. evp_update E False xs (evp_start E False (int IV_LEN) key iv aad) = (stream key iv xs, c) \<and>
           evp_final E False (evp_set_tag E t c) = (if t = mac key iv aad xs then 1 else 0, [], c')))"

definition aad_bytes :: "byte list option \<Rightarrow> c_int \<Rightarrow> byte list" where
  "aad_bytes aad aad_len = (case aad of Some a \<Rightarrow> take (nat aad_len) a | None \<Rightarrow> [])"

text \<open>A simple instance of the interface, for which the assumptions hold.\<close>

definition toy_mac :: "byte list \<Rightarrow> byte list \<Rightarrow> byte list \<Rightarrow> byte list \<Rightarrow> byte list" where
  "toy_mac key iv aad xs = sum_list (key @ iv @ aad @ xs) # replicate 15 0"

definition toy_evp :: "(byte list \<times> byte list \<times> byte list \<times> byte list) evp" where
  "toy_evp =
     \<lparr>evp_new = ([], [], [], []), evp_init = (\<lambda>_ c. c), evp_ivlen = (\<lambda>_ c. c),
      evp_key_iv = (\<lambda>_ key iv _. (key, iv, [], [])),
      evp_aad = (\<lambda>_ a (key, iv, _, s). (key, iv, a, s)),
      evp_update = (\<lambda>enc xs (key, iv, a, s). (xs, (key, iv, a, toy_mac key iv a xs))),
      evp_get_tag = (\<lambda>n (key, iv, a, s). s),
      evp_set_tag = (\<lambda>t (key, iv, a, s). (key, iv, t, s)),
      evp_final = (\<lambda>enc (key, iv, a, s). (if enc \<or> a = s then 1 else 0, [], (key, iv, a, s)))\<rparr>"

section \<open>Properties\<close>

lemma evp_start_aad:
  assumes "case aad of Some a \<Rightarrow> 0 \<le> aad_len \<and> nat aad_len \<le> length a | None \<Rightarrow> True"
  shows "(case aad of Some a \<Rightarrow> if aad_len \<noteq> 0 then evp_aad E enc (take (nat aad_len) a) c else c | None \<Rightarrow> c) =
    (if aad_bytes aad aad_len = [] then c else evp_aad E enc (aad_bytes aad aad_len) c)"
  using assms by (auto simp: aad_bytes_def split: option.splits)

lemma encrypt_eq:
  assumes "evp_gcm E stream mac" and "length key = KEY_LEN" and "length iv = IV_LEN"
    and "case aad of Some a \<Rightarrow> 0 \<le> aad_len \<and> nat aad_len \<le> length a | None \<Rightarrow> True"
    and "0 \<le> n" "nat n \<le> length pt"
  shows "aes_gcm_encrypt E pt n aad aad_len key iv (int IV_LEN) =
    (n, stream key iv (take (nat n) pt), mac key iv (aad_bytes aad aad_len) (stream key iv (take (nat n) pt)))"
proof -
  let ?xs = "take (nat n) pt" and ?aad = "aad_bytes aad aad_len"
  obtain c c' r where c: "evp_update E True ?xs (evp_start E True (int IV_LEN) key iv ?aad) = (stream key iv ?xs, c)"
    "evp_final E True c = (r, [], c')" "evp_get_tag E TAG_LEN c' = mac key iv ?aad (stream key iv ?xs)"
    using assms(1-3) unfolding evp_gcm_def by blast
  have "length (stream key iv ?xs) = length ?xs" using assms(1) unfolding evp_gcm_def by blast
  then show ?thesis
    using c assms(5,6) by (simp add: aes_gcm_encrypt_def evp_start_aad [OF assms(4)] evp_start_def Let_def)
qed

lemma decrypt_eq:
  assumes "evp_gcm E stream mac" and "length key = KEY_LEN" and "length iv = IV_LEN"
    and "case aad of Some a \<Rightarrow> 0 \<le> aad_len \<and> nat aad_len \<le> length a | None \<Rightarrow> True"
    and "0 \<le> n" "nat n \<le> length ct"
  shows "aes_gcm_decrypt E ct n aad aad_len tag key iv (int IV_LEN) =
    (if take TAG_LEN tag = mac key iv (aad_bytes aad aad_len) (take (nat n) ct) then n else - 1,
     stream key iv (take (nat n) ct))"
proof -
  let ?xs = "take (nat n) ct" and ?aad = "aad_bytes aad aad_len"
  obtain c c' where c: "evp_update E False ?xs (evp_start E False (int IV_LEN) key iv ?aad) = (stream key iv ?xs, c)"
    "evp_final E False (evp_set_tag E (take TAG_LEN tag) c) = (if take TAG_LEN tag = mac key iv ?aad ?xs then 1 else 0, [], c')"
    using assms(1-3) unfolding evp_gcm_def by blast
  have "length (stream key iv ?xs) = length ?xs" using assms(1) unfolding evp_gcm_def by blast
  then show ?thesis
    using c assms(5,6) by (simp add: aes_gcm_decrypt_def evp_start_aad [OF assms(4)] evp_start_def Let_def)
qed

lemma gcm_round_trip_facts:
  assumes "evp_gcm E stream mac" and "length key = KEY_LEN" and "length iv = IV_LEN"
    and "case aad of Some a \<Rightarrow> 0 \<le> aad_len \<and> nat aad_len \<le> length a | None \<Rightarrow> True"
    and "0 \<le> n" "nat n = length pt"
    and "aes_gcm_encrypt E pt n aad aad_len key iv (int IV_LEN) = (len, ct, tag)"
  shows "len = n \<and> length ct = length pt \<and> length tag = TAG_LEN \<and>
    aes_gcm_decrypt E ct len aad aad_len tag key iv (int IV_LEN) = (n, pt)"
    and "length t' = TAG_LEN \<Longrightarrow> t' \<noteq> tag \<Longrightarrow> fst (aes_gcm_decrypt E ct len aad aad_len t' key iv (int IV_LEN)) = - 1"
proof -
  have g: "length (stream key iv pt) = length pt" "stream key iv (stream key iv pt) = pt"
    "length (mac key iv (aad_bytes aad aad_len) (stream key iv pt)) = TAG_LEN"
    using assms(1) unfolding evp_gcm_def by blast+
  have e: "len = n" "ct = stream key iv pt" "tag = mac key iv (aad_bytes aad aad_len) (stream key iv pt)"
    using encrypt_eq [OF assms(1-5), of pt] assms(6,7) by simp_all
  have d: "aes_gcm_decrypt E ct n aad aad_len t key iv (int IV_LEN) =
      (if take TAG_LEN t = mac key iv (aad_bytes aad aad_len) ct then n else - 1, pt)" for t
    using decrypt_eq [OF assms(1-5), of ct t] assms(6) g by (simp add: e)
  show "len = n \<and> length ct = length pt \<and> length tag = TAG_LEN \<and>
    aes_gcm_decrypt E ct len aad aad_len tag key iv (int IV_LEN) = (n, pt)"
    using g by (simp add: e d [unfolded e])
  show "fst (aes_gcm_decrypt E ct len aad aad_len t' key iv (int IV_LEN)) = - 1"
    if "length t' = TAG_LEN" "t' \<noteq> tag"
    using that by (simp add: e d [unfolded e])
qed

text \<open>
  C24.  Decrypting what aes_gcm_encrypt has produced gives back the plaintext and its
  length, and any other tag gives -1, for every implementation of the cipher interface that
  behaves as AES-GCM is documented to.
\<close>

theorem gcm_round_trip:
  assumes "evp_gcm E stream mac" and "length key = KEY_LEN" and "length iv = IV_LEN"
    and "case aad of Some a \<Rightarrow> 0 \<le> aad_len \<and> nat aad_len \<le> length a | None \<Rightarrow> True"
    and "0 \<le> n" "nat n = length pt"
    and "aes_gcm_encrypt E pt n aad aad_len key iv (int IV_LEN) = (len, ct, tag)"
  shows "len = n \<and> length ct = length pt \<and> length tag = TAG_LEN \<and>
    aes_gcm_decrypt E ct len aad aad_len tag key iv (int IV_LEN) = (n, pt) \<and>
    (\<forall>t'. length t' = TAG_LEN \<and> t' \<noteq> tag \<longrightarrow>
       fst (aes_gcm_decrypt E ct len aad aad_len t' key iv (int IV_LEN)) = - 1)"
  using gcm_round_trip_facts [OF assms] by auto

lemma toy_gcm: "evp_gcm toy_evp (\<lambda>_ _ xs. xs) toy_mac"
  by (auto simp: evp_gcm_def toy_evp_def evp_start_def Let_def toy_mac_def TAG_LEN_def)

theorem gcm_round_trip_witness:
  "\<exists>ct tag. aes_gcm_encrypt toy_evp [1, 2, 3] 3 None 0 (replicate 16 1) (replicate 12 2) (int IV_LEN) = (3, ct, tag) \<and>
     aes_gcm_decrypt toy_evp ct 3 None 0 tag (replicate 16 1) (replicate 12 2) (int IV_LEN) = (3, [1, 2, 3])"
proof -
  obtain len ct tag where e: "aes_gcm_encrypt toy_evp [1, 2, 3] 3 None 0 (replicate 16 1) (replicate 12 2) (int IV_LEN) = (len, ct, tag)"
    by (metis prod_cases3)
  show ?thesis
    using gcm_round_trip [OF toy_gcm _ _ _ _ _ e] e by (auto simp: KEY_LEN_def IV_LEN_def)
qed

end
