(* ===== verification/Ivshmem_Apps.thy ===== *)
theory Ivshmem_Apps
  imports Ivshmem_Ring Ivshmem_Lock_Base Ivshmem_Lib Ivshmem_Crypto
begin

text \<open>
  The example programs that use the library: \<^verbatim>\<open>examples/writer\<close> and \<^verbatim>\<open>examples/reader\<close>,
  in the plain, the encrypting and the lock-based variant.  Modelled are the options, the
  keys, the messages, the loops with their counters, and the packing of encrypted messages;
  printing is not.
\<close>

section \<open>The programs\<close>


definition MESSAGE_SIZE :: nat where [ivshmem_consts]: "MESSAGE_SIZE = 256 * 1024 * 1024"
definition DECRYPT_MSG_SIZE :: nat where [ivshmem_consts]: "DECRYPT_MSG_SIZE = 268435456"

text \<open>
  The options in the order \<^verbatim>\<open>getopt_long\<close> delivers them, with the value \<^verbatim>\<open>atoi\<close> has read;
  any other option prints the usage and ends the program.
\<close>

datatype app_opt = Opt_sender c_int | Opt_receiver c_int | Opt_help

fun parse_opts :: "app_opt list \<Rightarrow> u32 \<times> u32 \<Rightarrow> (u32 \<times> u32) option" where
  "parse_opts [] vms = Some vms"
| "parse_opts (Opt_sender v # os) (s, r) = parse_opts os (u32_of_int v, r)"
| "parse_opts (Opt_receiver v # os) (s, r) = parse_opts os (s, u32_of_int v)"
| "parse_opts (Opt_help # os) (s, r) = None"

definition app_vms :: "app_opt list \<Rightarrow> (u32 \<times> u32) option" where
  "app_vms os = parse_opts os (1, 2)"

definition writer_key :: "u32 \<times> u32 \<Rightarrow> u32 \<Rightarrow> channel_key" where
  "writer_key vms pid = \<lparr>sender_vm = fst vms, sender_pid = pid, receiver_vm = snd vms\<rparr>"

definition reader_key :: "u32 \<times> u32 \<Rightarrow> channel_key" where
  "reader_key vms = \<lparr>sender_vm = fst vms, sender_pid = 0, receiver_vm = snd vms\<rparr>"

text \<open>The counter at the start of a message, copied from and to a little-endian integer.\<close>

definition counter_bytes :: "u64 \<Rightarrow> byte list" where
  "counter_bytes c = map (\<lambda>i. ucast (drop_bit (8 * i) c)) [0..<8]"

definition read_counter :: "byte list \<Rightarrow> u64" where
  "read_counter buf = (\<Sum>i<8. push_bit (8 * i) (ucast (buf ! i)))"

definition fill_message :: "u64 \<Rightarrow> byte list" where
  "fill_message c = counter_bytes c @ replicate (MESSAGE_SIZE - 8) (ucast (c mod 256))"

text \<open>
  One round of the writer's loop: the message it sends and its state afterwards (a failed
  send only prints).  The round of the reader, for a call that returned 0, yields the
  mismatch it reports, if any.
\<close>

record writer_state =
  w_counter :: u64
  w_total :: size_t
  w_start :: time_t

definition writer_iter :: "time_t \<Rightarrow> writer_state \<Rightarrow> byte list \<times> writer_state" where
  "writer_iter now st =
     (let st1 = st\<lparr>w_total := w_total st + word_of_nat MESSAGE_SIZE, w_counter := w_counter st + 1\<rparr>
      in (fill_message (w_counter st),
          if 1 \<le> now - w_start st1 then st1\<lparr>w_start := now, w_total := 0\<rparr> else st1))"

fun writer_run :: "time_t list \<Rightarrow> writer_state \<Rightarrow> byte list list" where
  "writer_run [] st = []"
| "writer_run (now # ts) st = (let (msg, st') = writer_iter now st in msg # writer_run ts st')"

record reader_state =
  r_expected :: u64
  r_total :: size_t
  r_start :: time_t

definition reader_iter :: "time_t \<Rightarrow> byte list \<Rightarrow> reader_state \<Rightarrow> (u64 \<times> u64) option \<times> reader_state" where
  "reader_iter now buf st =
     (let received = read_counter buf;
          report = (if received \<noteq> r_expected st then Some (r_expected st, received) else None);
          st1 = st\<lparr>r_total := r_total st + word_of_nat MESSAGE_SIZE, r_expected := r_expected st + 1\<rparr>
      in (report, if 1 \<le> now - r_start st1 then st1\<lparr>r_start := now, r_total := 0\<rparr> else st1))"

fun reader_run :: "(time_t \<times> byte list) list \<Rightarrow> reader_state \<Rightarrow> (u64 \<times> u64) list" where
  "reader_run [] st = []"
| "reader_run ((now, buf) # bufs) st =
     (let (report, st') = reader_iter now buf st
      in (case report of Some p \<Rightarrow> [p] | None \<Rightarrow> []) @ reader_run bufs st')"

text \<open>
  The encrypting writer packs nonce, ciphertext and tag; the reader takes them apart at
  offsets of its own.
\<close>

definition aes_pack :: "byte list \<Rightarrow> byte list \<Rightarrow> byte list \<Rightarrow> byte list" where
  "aes_pack iv ct tag = iv @ ct @ tag"

definition aes_split :: "byte list \<Rightarrow> byte list \<times> byte list \<times> c_int \<times> byte list" where
  "aes_split buf =
     (let ct_len = int DECRYPT_MSG_SIZE - int IV_LEN - int TAG_LEN
      in (take IV_LEN buf, drop IV_LEN buf, ct_len, drop (IV_LEN + nat ct_len) buf))"

definition aes_writer_message :: "'c evp \<Rightarrow> byte list \<Rightarrow> byte list \<Rightarrow> u64 \<Rightarrow> byte list" where
  "aes_writer_message E key iv c =
     (let (ct_len, ct, tag) = aes_gcm_encrypt E (fill_message c) (int MESSAGE_SIZE) None 0 key iv (int IV_LEN)
      in aes_pack iv (take (nat ct_len) ct) tag)"

definition aes_reader_decrypt :: "'c evp \<Rightarrow> byte list \<Rightarrow> byte list \<Rightarrow> c_int \<times> byte list" where
  "aes_reader_decrypt E key buf =
     (let (iv, ct, ct_len, tag) = aes_split buf
      in aes_gcm_decrypt E ct ct_len None 0 tag key iv (int IV_LEN))"

text \<open>
  The programs of the lock-based variant: the control section is prepared by
  \<^verbatim>\<open>writer/lock_init.c\<close>, and reader and writer put (parts of) their key there before they
  start.
\<close>

definition lock_init_main ::
  "c_int \<Rightarrow> c_ptr \<Rightarrow> dev_ctx \<Rightarrow> lock_ctrl \<Rightarrow> c_int \<times> lock_ctrl \<times> os_call list" where
  "lock_init_main open_ret mmap_ret ctx cs =
     (case ivshmem_open_dev open_ret mmap_ret (ivshmem_init_dev_ctx ctx) of
        (ret, ctx1, calls) \<Rightarrow>
          if ret \<noteq> 0 then (1, cs, calls)
          else
            (case ivshmem_lock_init_control_section cs of
               (ret, cs1) \<Rightarrow>
                 if ret \<noteq> 0 then (1, cs1, calls @ snd (ivshmem_close_dev ctx1)) else (0, cs1, calls)))"

definition lock_writer_setup :: "u32 \<times> u32 \<Rightarrow> u32 \<Rightarrow> lock_ctrl \<Rightarrow> lock_key \<times> lock_ctrl" where
  "lock_writer_setup vms pid cs =
     (let key = \<lparr>lk_sender_vm = fst vms, lk_sender_pid = pid, lk_receiver_vm = snd vms\<rparr>
      in (key, cs\<lparr>lk_key := key\<rparr>))"

definition lock_reader_setup :: "u32 \<times> u32 \<Rightarrow> lock_ctrl \<Rightarrow> lock_key \<times> lock_ctrl" where
  "lock_reader_setup vms cs =
     (\<lparr>lk_sender_vm = fst vms, lk_sender_pid = 0, lk_receiver_vm = snd vms\<rparr>,
      cs\<lparr>lk_key := (lk_key cs)\<lparr>lk_receiver_vm := snd vms\<rparr>\<rparr>)"

section \<open>Properties\<close>

lemma length_counter_bytes [simp]: "length (counter_bytes c) = 8"
  by (simp add: counter_bytes_def)

lemma take_bit_split:
  fixes c :: u64
  shows "take_bit (n + m) c = take_bit n c + push_bit n (take_bit m (drop_bit n c))"
proof -
  have "take_bit n c + push_bit n (take_bit m (drop_bit n c)) = or (take_bit n c) (push_bit n (take_bit m (drop_bit n c)))"
    by (rule disjunctive_add_eq_or) (auto simp: bit_eq_iff bit_simps)
  also have "\<dots> = take_bit (n + m) c"
    by (rule bit_eqI) (auto simp: bit_simps)
  finally show ?thesis by simp
qed

lemma bit_sum_bytes:
  fixes c :: u64
  shows "(\<Sum>i<n. push_bit (8 * i) (ucast (ucast (drop_bit (8 * i) c) :: byte))) = take_bit (8 * n) c"
proof (induction n)
  case (Suc n)
  have "take_bit (8 * Suc n) c = take_bit (8 * n) c + push_bit (8 * n) (take_bit 8 (drop_bit (8 * n) c))"
    using take_bit_split [of "8 * n" 8 c] by (simp add: add.commute)
  then show ?case using Suc by (simp add: unsigned_ucast_eq)
qed simp

lemma read_counter_bytes: "read_counter (counter_bytes c @ xs) = c"
proof -
  have "read_counter (counter_bytes c @ xs) = (\<Sum>i<8. push_bit (8 * i) (ucast (ucast (drop_bit (8 * i) c) :: byte)))"
    unfolding read_counter_def by (rule sum.cong) (auto simp: nth_append counter_bytes_def)
  then show ?thesis by (simp add: bit_sum_bytes take_bit_word_eq_self)
qed

lemma length_fill_message [simp]: "length (fill_message c) = 268435456"
  by (simp add: fill_message_def MESSAGE_SIZE_def)

lemma read_fill_message: "read_counter (fill_message c) = c"
  by (simp add: fill_message_def read_counter_bytes)

lemma reader_follows:
  assumes "r_expected rst = w_counter wst"
  shows "reader_run (zip ts (writer_run ts' wst)) rst = []"
  using assms
proof (induction ts' arbitrary: ts wst rst)
  case (Cons now' ts')
  show ?case
  proof (cases ts)
    case (Cons now ts1)
    then show ?thesis
      using Cons.IH [where ts = ts1] Cons.prems
      by (simp add: writer_iter_def reader_iter_def read_fill_message Let_def)
  qed simp
qed simp

theorem reader_checks_counter:
  assumes "ts \<noteq> []" and "ts' \<noteq> []"
  shows "reader_run (zip ts (writer_run ts' \<lparr>w_counter = c, w_total = n, w_start = t0\<rparr>))
     \<lparr>r_expected = c', r_total = m, r_start = t1\<rparr> = [] \<longleftrightarrow> c' = c"
proof
  assume "reader_run (zip ts (writer_run ts' \<lparr>w_counter = c, w_total = n, w_start = t0\<rparr>))
     \<lparr>r_expected = c', r_total = m, r_start = t1\<rparr> = []"
  then show "c' = c"
    using assms
    by (cases ts; cases ts')
      (auto simp: writer_iter_def reader_iter_def read_fill_message Let_def split: if_splits)
qed (simp add: reader_follows)

theorem reader_checks_counter_witness:
  "reader_run (zip [1, 2] (writer_run [1, 2] \<lparr>w_counter = 0, w_total = 0, w_start = 0\<rparr>))
     \<lparr>r_expected = 0, r_total = 0, r_start = 0\<rparr> = [] \<and>
   reader_run (zip [1, 2] (writer_run [1, 2] \<lparr>w_counter = 1, w_total = 0, w_start = 0\<rparr>))
     \<lparr>r_expected = 0, r_total = 0, r_start = 0\<rparr> \<noteq> []"
  using reader_checks_counter [of "[1, 2]" "[1, 2]" 0 0 0 0 0 0] reader_checks_counter [of "[1, 2]" "[1, 2]" 1 0 0 0 0 0]
  by simp

text \<open>
  A reader started with the same options as a writer finds a channel of the writer's
  pair of machines, at or before the writer's own: the process wildcard may select another
  process's channel, never another pair's.
\<close>

theorem writer_reader_match:
  assumes "app_vms os = Some vms" and "wf_ctrl (ctrl sh)"
    and "ivshmem_find_channel (ctrl sh) (writer_key vms pid) = Inr (Some c)"
  shows "\<exists>c' \<le> c. ivshmem_find_channel (ctrl sh) (reader_key vms) = Inr (Some c') \<and>
    sender_vm (chan_key (chan_at sh c')) = fst vms \<and> receiver_vm (chan_key (chan_at sh c')) = snd vms"
proof -
  have le: "num_active_channels (ctrl sh) \<le> int (length (channels (ctrl sh)))" using assms(2) by (simp add: wf_ctrl_def)
  have c: "int c < num_active_channels (ctrl sh)" "key_matches (reader_key vms) (chan_key (chan_at sh c))"
    using assms(3) by (cases rule: find_channel_cases [OF le, where k = "writer_key vms pid"];
      auto simp: key_matches_def writer_key_def reader_key_def)+
  from le show ?thesis
  proof (cases rule: find_channel_cases [where k = "reader_key vms"])
    case (found c')
    moreover have "c' \<le> c" using found(4) c(2) by (meson not_le)
    ultimately show ?thesis by (auto simp: key_matches_def reader_key_def)
  next
    case none
    then show ?thesis using c by blast
  qed
qed

theorem writer_reader_match_witness:
  "\<exists>c' \<le> 1. ivshmem_find_channel (ctrl demo_shm) (reader_key (1, 2)) = Inr (Some c')"
proof -
  have "ivshmem_find_channel (ctrl demo_shm) (writer_key (1, 2) 2) = Inr (Some 1)"
    by (simp add: ivshmem_find_channel_def find_channel_from.simps key_matches_def writer_key_def demo_shm_def
        demo_ctrl_def demo_channel_def)
  moreover have "wf_ctrl (ctrl demo_shm)" using demo_wf by (simp add: demo_shm_def)
  moreover have "app_vms [Opt_sender 1] = Some (1, 2)" by (simp add: app_vms_def u32_of_int_def)
  ultimately show ?thesis using writer_reader_match [of "[Opt_sender 1]" "(1, 2)" demo_shm 2 1] by blast
qed

text \<open>
  The encrypting reader takes a ciphertext that is 28 bytes shorter than the one the
  writer sends and so uses ciphertext bytes as the tag: it rejects the message unless those
  16 bytes happen to be the tag of the shorter ciphertext.
\<close>

theorem aes_reader_misaligned:
  assumes gcm: "evp_gcm E stream mac" and key: "length key = KEY_LEN" and iv: "length iv = IV_LEN"
  shows "let ct = stream key iv (fill_message c); short = take 268435428 ct in
    aes_reader_decrypt E key (aes_writer_message E key iv c) =
      (if take 16 (drop 268435428 ct) = mac key iv [] short then 268435428 else - 1, stream key iv short)"
proof -
  let ?ct = "stream key iv (fill_message c)"
  have l: "length ?ct = 268435456" "length (mac key iv [] ?ct) = 16" using gcm by (auto simp: evp_gcm_def TAG_LEN_def)
  have m: "aes_writer_message E key iv c = iv @ ?ct @ mac key iv [] ?ct"
    using encrypt_eq [OF gcm key iv, where aad = None and aad_len = 0 and n = "int MESSAGE_SIZE" and pt = "fill_message c"] l
    by (simp add: aes_writer_message_def aes_pack_def aad_bytes_def MESSAGE_SIZE_def Let_def)
  have "take 268435428 (?ct @ xs) = take 268435428 ?ct" for xs using l by simp
  moreover have "take 16 (drop 268435428 (?ct @ xs)) = take 16 (drop 268435428 ?ct)" for xs using l by simp
  ultimately show ?thesis
    using decrypt_eq [OF gcm key iv, where aad = None and aad_len = 0 and n = 268435428 and
        ct = "?ct @ mac key iv [] ?ct" and tag = "drop 268435428 (?ct @ mac key iv [] ?ct)"] l iv
    by (simp add: aes_reader_decrypt_def aes_split_def m Let_def ivshmem_consts aad_bytes_def)
qed

lemma fill_message_0: "fill_message 0 = replicate 268435456 0"
proof -
  have "counter_bytes 0 = replicate 8 0" by (simp add: counter_bytes_def map_replicate_const)
  then have "fill_message 0 = replicate (8 + 268435448) 0" by (simp add: fill_message_def MESSAGE_SIZE_def flip: replicate_add)
  then show ?thesis by simp
qed

lemma toy_mac_zeros: "toy_mac (replicate 16 1) (replicate 12 2) [] (replicate n 0) = 40 # replicate 15 0"
  by (simp add: toy_mac_def sum_list_replicate)

theorem aes_reader_misaligned_witness:
  "fst (aes_reader_decrypt toy_evp (replicate 16 1) (aes_writer_message toy_evp (replicate 16 1) (replicate 12 2) 0)) = - 1"
proof -
  have "hd (replicate 16 (0 :: byte)) \<noteq> hd (40 # replicate 15 0)" by simp
  then have "replicate 16 (0 :: byte) \<noteq> 40 # replicate 15 0" by metis
  then show ?thesis
    using aes_reader_misaligned [OF toy_gcm, of "replicate 16 1" "replicate 12 2" 0]
    by (simp add: KEY_LEN_def IV_LEN_def Let_def fill_message_0 take_replicate drop_replicate toy_mac_zeros)
qed

end
