(* ===== verification/Ivshmem_Programs.thy ===== *)
theory Ivshmem_Programs
  imports Ivshmem_Apps
begin

text \<open>
  The main functions of the writer and reader programs, in the plain, the encrypting and the
  lock-based variant.  What the system delivers is an argument: the options, the results of
  \<^verbatim>\<open>open\<close>, \<^verbatim>\<open>mmap\<close> and \<^verbatim>\<open>malloc\<close>, the process identifier, and for each round of the
  endless loop what the library call returned and the time.  The result is how the program
  stands when these are used up, its visible actions, and the resources it has released.
  Throughput output is left out.
\<close>

section \<open>The programs\<close>

datatype app_status = App_exit c_int | App_fault c_fault | App_running

datatype app_event =
    Sent channel_key "byte list" size_t
  | Lock_sent lock_key "byte list" size_t
  | Send_failed
  | Mismatch u64 u64
  | Slept c_int

type_synonym app_result = "app_status \<times> app_event list \<times> os_call list"

text \<open>
  What all of them begin with: options, device context, device.  The left case is the exit
  status of a program that ends here.
\<close>

definition app_start ::
  "app_opt list \<Rightarrow> c_int \<Rightarrow> c_ptr \<Rightarrow> dev_ctx \<Rightarrow> (c_int \<times> os_call list) + ((u32 \<times> u32) \<times> dev_ctx)" where
  "app_start os fd m ctx =
     (case app_vms os of
        None \<Rightarrow> Inl (0, [])
      | Some vms \<Rightarrow>
          (case ivshmem_open_dev fd m (ivshmem_init_dev_ctx ctx) of
             (ret, ctx1, calls) \<Rightarrow> if ret \<noteq> 0 then Inl (1, calls) else Inr (vms, ctx1)))"

text \<open>The plain writer: a send that fails is reported and the loop goes on.\<close>

definition send_report :: "c_int \<Rightarrow> app_event list" where
  "send_report ret = (if ret \<noteq> 0 then [Send_failed] else [])"

fun writer_loop :: "channel_key \<Rightarrow> (c_int \<times> time_t) list \<Rightarrow> writer_state \<Rightarrow> app_event list" where
  "writer_loop k [] st = []"
| "writer_loop k ((ret, now) # rounds) st =
     (let (msg, st1) = writer_iter now st
      in Sent k msg (word_of_nat MESSAGE_SIZE) # send_report ret @ writer_loop k rounds st1)"

definition writer_main ::
  "app_opt list \<Rightarrow> c_int \<Rightarrow> c_ptr \<Rightarrow> dev_ctx \<Rightarrow> u32 \<Rightarrow> bool \<Rightarrow> time_t \<Rightarrow> (c_int \<times> time_t) list \<Rightarrow> app_result" where
  "writer_main os fd m ctx pid malloc_ok start rounds =
     (case app_start os fd m ctx of
        Inl (code, calls) \<Rightarrow> (App_exit code, [], calls)
      | Inr (vms, ctx1) \<Rightarrow>
          let key = writer_key vms pid in
          if \<not> malloc_ok then (App_exit 1, [], [])
          else (App_running, writer_loop key rounds \<lparr>w_counter = 0, w_total = 0, w_start = start\<rparr>, []))"

text \<open>The plain reader: it needs the channel to exist, and ends when a call fails.\<close>

definition check_report :: "(u64 \<times> u64) option \<Rightarrow> app_event list" where
  "check_report report = (case report of Some (expected, received) \<Rightarrow> [Mismatch expected received] | None \<Rightarrow> [])"

fun reader_loop :: "(c_int \<times> byte list \<times> time_t) list \<Rightarrow> reader_state \<Rightarrow> app_status \<times> app_event list" where
  "reader_loop [] st = (App_running, [])"
| "reader_loop ((ret, buf, now) # rounds) st =
     (if ret \<noteq> 0 then (App_exit 1, [])
      else let (report, st1) = reader_iter now buf st; (status, ev) = reader_loop rounds st1
           in (status, check_report report @ ev))"

definition reader_main ::
  "app_opt list \<Rightarrow> c_int \<Rightarrow> c_ptr \<Rightarrow> dev_ctx \<Rightarrow> control_section \<Rightarrow> bool \<Rightarrow> time_t \<Rightarrow>
   (c_int \<times> byte list \<times> time_t) list \<Rightarrow> app_result" where
  "reader_main os fd m ctx cs malloc_ok start rounds =
     (case app_start os fd m ctx of
        Inl (code, calls) \<Rightarrow> (App_exit code, [], calls)
      | Inr (vms, ctx1) \<Rightarrow>
          (case ivshmem_find_channel cs (reader_key vms) of
             Inl e \<Rightarrow> (App_fault e, [], [])
           | Inr None \<Rightarrow> (App_exit 1, [], [])
           | Inr (Some c) \<Rightarrow>
               if \<not> malloc_ok then (App_exit 1, [], [])
               else let (status, ev) = reader_loop rounds \<lparr>r_expected = 0, r_total = 0, r_start = start\<rparr>
                    in (status, ev, [])))"

text \<open>The encrypting writer and reader, with the key that both contain.\<close>

definition aes_key :: "byte list" where
  "aes_key = [0x01, 0x23, 0x45, 0x67, 0x89, 0xAB, 0xCD, 0xEF, 0x10, 0x32, 0x54, 0x76, 0x98, 0xBA, 0xDC, 0xFE]"

record aes_state =
  a_counter :: u64
  a_total :: size_t
  a_crypto :: size_t
  a_start :: time_t

definition aes_report :: "time_t \<Rightarrow> aes_state \<Rightarrow> aes_state" where
  "aes_report now st =
     (if 1 \<le> now - a_start st then st\<lparr>a_start := now, a_total := 0, a_crypto := 0\<rparr> else st)"

definition aes_writer_iter ::
  "'c evp \<Rightarrow> channel_key \<Rightarrow> byte list \<Rightarrow> time_t \<Rightarrow> aes_state \<Rightarrow> app_event \<times> aes_state" where
  "aes_writer_iter E k iv now st =
     (let c = a_counter st;
          st1 = st\<lparr>a_crypto := a_crypto st + word_of_nat MESSAGE_SIZE\<rparr>;
          ct_len = fst (aes_gcm_encrypt E (fill_message c) (int MESSAGE_SIZE) None 0 aes_key iv (int IV_LEN));
          ev = Sent k (aes_writer_message E aes_key iv c) (size_of_int (int IV_LEN + ct_len + int TAG_LEN));
          st2 = st1\<lparr>a_total := a_total st1 + size_of_int ct_len, a_counter := c + 1\<rparr>
      in (ev, aes_report now st2))"

fun aes_writer_loop ::
  "'c evp \<Rightarrow> channel_key \<Rightarrow> (byte list \<times> c_int \<times> time_t) list \<Rightarrow> aes_state \<Rightarrow> app_event list" where
  "aes_writer_loop E k [] st = []"
| "aes_writer_loop E k ((iv, ret, now) # rounds) st =
     (let (ev, st1) = aes_writer_iter E k iv now st in ev # send_report ret @ aes_writer_loop E k rounds st1)"

definition aes_writer_main ::
  "'c evp \<Rightarrow> app_opt list \<Rightarrow> c_int \<Rightarrow> c_ptr \<Rightarrow> dev_ctx \<Rightarrow> u32 \<Rightarrow> bool \<times> bool \<times> bool \<Rightarrow> time_t \<Rightarrow>
   (byte list \<times> c_int \<times> time_t) list \<Rightarrow> app_result" where
  "aes_writer_main E os fd m ctx pid mallocs start rounds =
     (case app_start os fd m ctx of
        Inl (code, calls) \<Rightarrow> (App_exit code, [], calls)
      | Inr (vms, ctx1) \<Rightarrow>
          (case mallocs of (plaintext, cipher_buf, send_buf) \<Rightarrow>
             if \<not> plaintext \<or> \<not> cipher_buf \<or> \<not> send_buf then (App_exit 1, [], [])
             else (App_running,
                   aes_writer_loop E (writer_key vms pid) rounds \<lparr>a_counter = 0, a_total = 0, a_crypto = 0, a_start = start\<rparr>,
                   [])))"

definition aes_reader_iter ::
  "'c evp \<Rightarrow> byte list \<Rightarrow> time_t \<Rightarrow> aes_state \<Rightarrow> ((u64 \<times> u64) option \<times> aes_state) option" where
  "aes_reader_iter E buf now st =
     (case aes_reader_decrypt E aes_key buf of (pt_len, plain) \<Rightarrow>
        if pt_len < 0 then None
        else
          let (iv, ct, ct_len, tag) = aes_split buf;
              received = read_counter plain; expected = a_counter st;
              report = (if received \<noteq> expected then Some (expected, received) else None);
              st1 = st\<lparr>a_crypto := a_crypto st + size_of_int ct_len, a_total := a_total st + word_of_nat MESSAGE_SIZE,
                       a_counter := expected + 1\<rparr>
          in Some (report, aes_report now st1))"

fun aes_reader_loop ::
  "'c evp \<Rightarrow> (c_int \<times> byte list \<times> time_t) list \<Rightarrow> aes_state \<Rightarrow> app_status \<times> app_event list" where
  "aes_reader_loop E [] st = (App_running, [])"
| "aes_reader_loop E ((ret, buf, now) # rounds) st =
     (if ret \<noteq> 0 then (App_exit 1, [])
      else case aes_reader_iter E buf now st of
             None \<Rightarrow> (App_exit 1, [])
           | Some (report, st1) \<Rightarrow>
               let (status, ev) = aes_reader_loop E rounds st1 in (status, check_report report @ ev))"

definition aes_reader_main ::
  "'c evp \<Rightarrow> app_opt list \<Rightarrow> c_int \<Rightarrow> c_ptr \<Rightarrow> dev_ctx \<Rightarrow> bool \<times> bool \<Rightarrow> time_t \<Rightarrow>
   (c_int \<times> byte list \<times> time_t) list \<Rightarrow> app_result" where
  "aes_reader_main E os fd m ctx mallocs start rounds =
     (case app_start os fd m ctx of
        Inl (code, calls) \<Rightarrow> (App_exit code, [], calls)
      | Inr (vms, ctx1) \<Rightarrow>
          (case mallocs of (recv_buf, plain_buf) \<Rightarrow>
             if \<not> recv_buf \<or> \<not> plain_buf then (App_exit 1, [], [])
             else let (status, ev) = aes_reader_loop E rounds \<lparr>a_counter = 0, a_total = 0, a_crypto = 0, a_start = start\<rparr>
                  in (status, ev, [])))"

text \<open>
  The lock-based writer and reader put their keys into the control section before they
  allocate, close the device when the allocation fails, and the reader sleeps and tries
  again when a call fails.
\<close>

fun lock_writer_loop :: "lock_key \<Rightarrow> (c_int \<times> time_t) list \<Rightarrow> writer_state \<Rightarrow> app_event list" where
  "lock_writer_loop k [] st = []"
| "lock_writer_loop k ((ret, now) # rounds) st =
     (let (msg, st1) = writer_iter now st
      in Lock_sent k msg (word_of_nat MESSAGE_SIZE) # send_report ret @ lock_writer_loop k rounds st1)"

definition lock_writer_main ::
  "app_opt list \<Rightarrow> c_int \<Rightarrow> c_ptr \<Rightarrow> dev_ctx \<Rightarrow> u32 \<Rightarrow> lock_ctrl \<Rightarrow> bool \<Rightarrow> time_t \<Rightarrow> (c_int \<times> time_t) list \<Rightarrow>
   app_result \<times> lock_ctrl" where
  "lock_writer_main os fd m ctx pid cs malloc_ok start rounds =
     (case app_start os fd m ctx of
        Inl (code, calls) \<Rightarrow> ((App_exit code, [], calls), cs)
      | Inr (vms, ctx1) \<Rightarrow>
          (case lock_writer_setup vms pid cs of (key, cs1) \<Rightarrow>
             if \<not> malloc_ok then ((App_exit 1, [], snd (ivshmem_close_dev ctx1)), cs1)
             else ((App_running, lock_writer_loop key rounds \<lparr>w_counter = 0, w_total = 0, w_start = start\<rparr>, []), cs1)))"

fun lock_reader_loop :: "(c_int \<times> byte list \<times> time_t) list \<Rightarrow> reader_state \<Rightarrow> app_event list" where
  "lock_reader_loop [] st = []"
| "lock_reader_loop ((ret, buf, now) # rounds) st =
     (if ret \<noteq> 0 then Slept 1 # lock_reader_loop rounds st
      else let (report, st1) = reader_iter now buf st in check_report report @ lock_reader_loop rounds st1)"

definition lock_reader_main ::
  "app_opt list \<Rightarrow> c_int \<Rightarrow> c_ptr \<Rightarrow> dev_ctx \<Rightarrow> lock_ctrl \<Rightarrow> bool \<Rightarrow> time_t \<Rightarrow>
   (c_int \<times> byte list \<times> time_t) list \<Rightarrow> app_result \<times> lock_ctrl" where
  "lock_reader_main os fd m ctx cs malloc_ok start rounds =
     (case app_start os fd m ctx of
        Inl (code, calls) \<Rightarrow> ((App_exit code, [], calls), cs)
      | Inr (vms, ctx1) \<Rightarrow>
          (case lock_reader_setup vms cs of (key, cs1) \<Rightarrow>
             if \<not> malloc_ok then ((App_exit 1, [], snd (ivshmem_close_dev ctx1)), cs1)
             else ((App_running, lock_reader_loop rounds \<lparr>r_expected = 0, r_total = 0, r_start = start\<rparr>, []), cs1)))"

text \<open>The messages that the visible actions of a writer contain.\<close>

fun sent_messages :: "app_event list \<Rightarrow> byte list list" where
  "sent_messages [] = []"
| "sent_messages (Sent k msg sz # ev) = msg # sent_messages ev"
| "sent_messages (Lock_sent k msg sz # ev) = msg # sent_messages ev"
| "sent_messages (_ # ev) = sent_messages ev"

section \<open>Properties\<close>

lemma app_start_eq:
  "app_start os fd m ctx =
     (case app_vms os of
        None \<Rightarrow> Inl (0, [])
      | Some vms \<Rightarrow>
          if fd < 0 then Inl (1, [])
          else if m = Map_failed then Inl (1, [Os_close fd])
          else Inr (vms, (ivshmem_init_dev_ctx ctx)\<lparr>bar2_fd := fd, p_shmem := m\<rparr>))"
  by (simp add: app_start_def ivshmem_open_dev_def init_dev_ctx_eq Let_def split: option.split)

lemma find_channel_no_fault:
  assumes "wf_ctrl cs"
  shows "\<exists>r. ivshmem_find_channel cs k = Inr r"
proof -
  have "num_active_channels cs \<le> int (length (channels cs))" using assms by (simp add: wf_ctrl_def)
  then show ?thesis by (cases rule: find_channel_cases [where k = k]) auto
qed

lemma reader_loop_status:
  "fst (reader_loop rounds st) = (if \<exists>x \<in> set rounds. fst x \<noteq> 0 then App_exit 1 else App_running)"
proof (induction rounds arbitrary: st)
  case (Cons a rounds)
  then show ?case by (cases a) (simp add: Let_def case_prod_beta)
qed simp

text \<open>
  C22.  The reader's exit status: 0 exactly for a request for help, 1 exactly when the
  device, the channel or the buffer is missing or some receive call fails, and otherwise it
  is still running.
\<close>

theorem reader_main_exits:
  assumes "wf_ctrl cs"
  shows "fst (reader_main os fd m ctx cs malloc_ok start rounds) =
    (case app_vms os of
       None \<Rightarrow> App_exit 0
     | Some vms \<Rightarrow>
         if fd < 0 \<or> m = Map_failed \<or> ivshmem_find_channel cs (reader_key vms) = Inr None \<or> \<not> malloc_ok \<or>
            (\<exists>x \<in> set rounds. fst x \<noteq> 0)
         then App_exit 1 else App_running)"
proof (cases "app_vms os")
  case (Some vms)
  obtain r where "ivshmem_find_channel cs (reader_key vms) = Inr r"
    using find_channel_no_fault [OF assms] by blast
  then show ?thesis
    using Some reader_loop_status [of rounds]
    by (cases r) (simp_all add: reader_main_def app_start_eq case_prod_beta)
qed (simp add: reader_main_def app_start_eq)

theorem reader_main_exits_witness:
  "fst (reader_main [Opt_sender 1] 3 (Ptr 4096) stack_ctx demo_ctrl True 0 [(0, replicate 8 0, 0), (- 1, [], 1)]) = App_exit 1"
  using reader_main_exits [OF demo_wf, of "[Opt_sender 1]" 3 "Ptr 4096" stack_ctx True 0 "[(0, replicate 8 0, 0), (- 1, [], 1)]"]
  by (simp add: app_vms_def)

lemma sent_messages_append: "sent_messages (ev @ ev') = sent_messages ev @ sent_messages ev'"
  by (induction ev rule: sent_messages.induct) simp_all

lemma sent_messages_writer_loop: "sent_messages (writer_loop k rounds st) = writer_run (map snd rounds) st"
  by (induction k rounds st rule: writer_loop.induct)
    (auto simp: Let_def send_report_def sent_messages_append split: prod.split)

lemma sent_messages_lock_writer_loop: "sent_messages (lock_writer_loop k rounds st) = writer_run (map snd rounds) st"
  by (induction k rounds st rule: lock_writer_loop.induct)
    (auto simp: Let_def send_report_def sent_messages_append split: prod.split)

lemma sent_messages_writer_main:
  assumes "app_vms os = Some vms" and "0 \<le> fd" and "m \<noteq> Map_failed"
  shows "sent_messages (fst (snd (writer_main os fd m ctx pid True start rounds))) =
    writer_run (map snd rounds) \<lparr>w_counter = 0, w_total = 0, w_start = start\<rparr>"
  using assms by (simp add: writer_main_def app_start_eq sent_messages_writer_loop)

lemma take_writer_run: "take k (writer_run ts st) = writer_run (take k ts) st"
  by (induction ts st arbitrary: k rule: writer_run.induct) (auto simp: Let_def take_Cons split: prod.split nat.split)

lemma length_writer_run [simp]: "length (writer_run ts st) = length ts"
  by (induction ts st rule: writer_run.induct) (auto simp: Let_def split: prod.split)

lemma writer_run_lengths: "msg \<in> set (writer_run ts st) \<Longrightarrow> length msg = 268435456"
  by (induction ts st rule: writer_run.induct) (auto simp: Let_def writer_iter_def split: prod.splits if_splits)

lemma writer_run_first: "ts \<noteq> [] \<Longrightarrow> writer_run ts st ! 0 = fill_message (w_counter st)"
  by (cases ts) (simp_all add: writer_iter_def Let_def)

lemma reader_loop_run:
  "reader_loop (map (\<lambda>(now, buf). (0, buf, now)) bufs) st =
     (App_running, map (\<lambda>(expected, received). Mismatch expected received) (reader_run bufs st))"
  by (induction bufs st rule: reader_run.induct)
    (auto simp: Let_def check_report_def split: prod.splits option.splits)

lemma lock_reader_loop_run:
  "lock_reader_loop (map (\<lambda>(now, buf). (0, buf, now)) bufs) st =
     map (\<lambda>(expected, received). Mismatch expected received) (reader_run bufs st)"
  by (induction bufs st rule: reader_run.induct)
    (auto simp: Let_def check_report_def split: prod.splits option.splits)

lemma aes_programs_decrypt:
  assumes gcm: "evp_gcm E stream mac" and iv: "length iv = IV_LEN"
    and tag: "take 16 (drop 268435428 (stream aes_key iv (fill_message c))) \<noteq>
      mac aes_key iv [] (take 268435428 (stream aes_key iv (fill_message c)))"
  shows "fst (aes_reader_decrypt E aes_key (aes_writer_message E aes_key iv c)) = - 1"
proof -
  have "length aes_key = KEY_LEN" by (simp add: aes_key_def KEY_LEN_def)
  then show ?thesis using aes_reader_misaligned [OF gcm _ iv, of aes_key c] tag by (simp add: Let_def)
qed

text \<open>
  C23.  The encrypting programs do not work together: from the first message that the
  encrypting writer sends, the encrypting reader ends with status 1, unless 16 bytes of
  ciphertext happen to be the tag of the shortened ciphertext.
\<close>

theorem aes_programs_stop:
  assumes gcm: "evp_gcm E stream mac" and iv: "length iv = IV_LEN"
    and "app_vms os = Some vms" and "0 \<le> fd" and "m \<noteq> Map_failed"
    and tag: "take 16 (drop 268435428 (stream aes_key iv (fill_message 0))) \<noteq>
      mac aes_key iv [] (take 268435428 (stream aes_key iv (fill_message 0)))"
  shows "\<exists>msg sz ev.
    aes_writer_main E os fd m ctx pid (True, True, True) start ((iv, ret, now) # rounds) =
      (App_running, Sent (writer_key vms pid) msg sz # ev, []) \<and>
    aes_reader_main E os fd m ctx (True, True) start' ((0, msg, now') # rounds') = (App_exit 1, [], [])"
proof -
  let ?msg = "aes_writer_message E aes_key iv 0"
  have "fst (aes_reader_decrypt E aes_key ?msg) = - 1" by (rule aes_programs_decrypt [OF gcm iv tag])
  then have "aes_reader_iter E ?msg now' st = None" for st
    by (cases "aes_reader_decrypt E aes_key ?msg") (simp add: aes_reader_iter_def)
  then show ?thesis
    using assms(3-5)
    by (simp add: aes_writer_main_def aes_reader_main_def app_start_eq aes_writer_iter_def Let_def)
qed

lemma toy_tag_differs:
  "take 16 (drop 268435428 (fill_message 0)) \<noteq> toy_mac aes_key (replicate 12 2) [] (take 268435428 (fill_message 0))"
proof -
  have "hd (take 16 (drop 268435428 (fill_message 0))) = 0"
    by (simp add: fill_message_0 take_replicate drop_replicate)
  moreover have "hd (toy_mac aes_key (replicate 12 2) [] (take 268435428 (fill_message 0))) = sum_list aes_key + 24"
    by (simp add: toy_mac_def fill_message_0 take_replicate sum_list_replicate)
  moreover have "sum_list aes_key + 24 \<noteq> 0" by (simp add: aes_key_def)
  ultimately show ?thesis by metis
qed

theorem aes_programs_stop_witness:
  "\<exists>msg sz ev.
    aes_writer_main toy_evp [] 3 (Ptr 4096) stack_ctx 7 (True, True, True) 0 [(replicate 12 2, 0, 0)] =
      (App_running, Sent (writer_key (1, 2) 7) msg sz # ev, []) \<and>
    aes_reader_main toy_evp [] 3 (Ptr 4096) stack_ctx (True, True) 0 [(0, msg, 0)] = (App_exit 1, [], [])"
  using aes_programs_stop [OF toy_gcm, of "replicate 12 2" "[]" "(1, 2)" 3 "Ptr 4096" stack_ctx 7 0 0 0 "[]" 0 0 "[]"]
    toy_tag_differs by (simp add: IV_LEN_def app_vms_def)
end
