(* ===== verification/Ivshmem_Demos.thy ===== *)
theory Ivshmem_Demos
  imports Ivshmem_Apps
begin

text \<open>
  The experiments under \<^verbatim>\<open>examples\<close> that exchange data without the library's transports: the
  round-trip measurement \<^verbatim>\<open>latency_test\<close> (a sequence word that is echoed), the bandwidth
  measurement \<^verbatim>\<open>shm_test\<close> (two semaphores), and \<^verbatim>\<open>no_lock_test\<close>, which copies without any
  protection to show what goes wrong.  In each, the two processes are step functions over
  the shared area, one step for an access or for a byte of a copy.  The invariants and
  progress measures follow the definitions of each test.
\<close>

section \<open>The latency test\<close>

definition ITERATIONS :: u64 where [ivshmem_consts]: "ITERATIONS = 100000"

record shm_region =
  lt_seq :: u64
  lt_ack :: u64
  lt_data :: u64

datatype lw_pc = Lw_data | Lw_seq | Lw_wait | Lw_done

record lt_writer =
  lw_pc :: lw_pc
  lw_i :: u64

datatype ld_pc = Ld_wait | Ld_load | Ld_data | Ld_ack

text \<open>The reader's values \<^verbatim>\<open>v\<close> are kept, the last one at the end.\<close>

record lt_reader =
  ld_pc :: ld_pc
  ld_last :: u64
  ld_vs :: "u64 list"

definition lt_writer_step :: "lt_writer \<Rightarrow> shm_region \<Rightarrow> lt_writer \<times> shm_region" where
  "lt_writer_step t sh =
     (case lw_pc t of
        Lw_data \<Rightarrow> (t\<lparr>lw_pc := Lw_seq\<rparr>, sh\<lparr>lt_data := lw_i t\<rparr>)
      | Lw_seq \<Rightarrow> (t\<lparr>lw_pc := Lw_wait\<rparr>, sh\<lparr>lt_seq := lw_i t\<rparr>)
      | Lw_wait \<Rightarrow>
          if lt_ack sh \<noteq> lw_i t then (t, sh)
          else (t\<lparr>lw_i := lw_i t + 1, lw_pc := (if lw_i t + 1 \<le> ITERATIONS then Lw_data else Lw_done)\<rparr>, sh)
      | Lw_done \<Rightarrow> (t, sh))"

definition lt_reader_step :: "lt_reader \<Rightarrow> shm_region \<Rightarrow> lt_reader \<times> shm_region" where
  "lt_reader_step r sh =
     (case ld_pc r of
        Ld_wait \<Rightarrow> if lt_seq sh = ld_last r then (r, sh) else (r\<lparr>ld_pc := Ld_load\<rparr>, sh)
      | Ld_load \<Rightarrow> (r\<lparr>ld_last := lt_seq sh, ld_pc := Ld_data\<rparr>, sh)
      | Ld_data \<Rightarrow> (r\<lparr>ld_vs := ld_vs r @ [lt_data sh], ld_pc := Ld_ack\<rparr>, sh)
      | Ld_ack \<Rightarrow> (r\<lparr>ld_pc := Ld_wait\<rparr>, sh\<lparr>lt_ack := ld_last r\<rparr>))"

record latency =
  la_writer :: lt_writer
  la_reader :: lt_reader
  la_shm :: shm_region

inductive latency_step :: "latency \<Rightarrow> latency \<Rightarrow> bool" where
  latency_write: "lt_writer_step (la_writer s) (la_shm s) = (t, sh) \<Longrightarrow>
     latency_step s (s\<lparr>la_writer := t, la_shm := sh\<rparr>)"
| latency_read: "lt_reader_step (la_reader s) (la_shm s) = (r, sh) \<Longrightarrow>
     latency_step s (s\<lparr>la_reader := r, la_shm := sh\<rparr>)"

text \<open>The state in which \<^verbatim>\<open>main\<close> forks; the data word has not been written.\<close>

definition latency_start :: "u64 \<Rightarrow> latency" where
  "latency_start d =
     \<lparr>la_writer = \<lparr>lw_pc = Lw_data, lw_i = 1\<rparr>, la_reader = \<lparr>ld_pc = Ld_wait, ld_last = 0, ld_vs = []\<rparr>,
      la_shm = \<lparr>lt_seq = 0, lt_ack = 0, lt_data = d\<rparr>\<rparr>"

definition latency_init :: "latency \<Rightarrow> bool" where
  "latency_init s \<longleftrightarrow> s = latency_start (lt_data (la_shm s))"

definition first_words :: "nat \<Rightarrow> u64 list" where
  "first_words n = map (\<lambda>i. word_of_nat (Suc i)) [0..<n]"

definition latency_stream :: "latency \<Rightarrow> u64 list" where
  "latency_stream s = first_words (unat ITERATIONS)"

definition latency_seen :: "latency \<Rightarrow> u64 list" where
  "latency_seen s = ld_vs (la_reader s)"

definition latency_done :: "latency \<Rightarrow> bool" where
  "latency_done s \<longleftrightarrow> lw_pc (la_writer s) = Lw_done"

text \<open>\<open>n\<close> rounds are complete: before, during and after the exchange of the next word.\<close>

definition latency_at :: "nat \<Rightarrow> latency \<Rightarrow> bool" where
  "latency_at n s \<longleftrightarrow>
     (let t = la_writer s; r = la_reader s; sh = la_shm s; w = word_of_nat n; w1 = word_of_nat (Suc n) in
      lw_i t = w1 \<and>
      (case lw_pc t of
         Lw_data \<Rightarrow> n < unat ITERATIONS \<and> lt_seq sh = w
       | Lw_seq \<Rightarrow> n < unat ITERATIONS \<and> lt_seq sh = w \<and> lt_data sh = w1
       | Lw_wait \<Rightarrow> n < unat ITERATIONS \<and> lt_seq sh = w1 \<and> lt_data sh = w1
       | Lw_done \<Rightarrow> n = unat ITERATIONS \<and> lt_seq sh = w) \<and>
      (case ld_pc r of
         Ld_wait \<Rightarrow> ld_last r = w \<and> lt_ack sh = w \<and> ld_vs r = first_words n \<or>
           lw_pc t = Lw_wait \<and> ld_last r = w1 \<and> lt_ack sh = w1 \<and> ld_vs r = first_words (Suc n)
       | Ld_load \<Rightarrow> lw_pc t = Lw_wait \<and> ld_last r = w \<and> lt_ack sh = w \<and> ld_vs r = first_words n
       | Ld_data \<Rightarrow> lw_pc t = Lw_wait \<and> ld_last r = w1 \<and> lt_ack sh = w \<and> ld_vs r = first_words n
       | Ld_ack \<Rightarrow> lw_pc t = Lw_wait \<and> ld_last r = w1 \<and> lt_ack sh = w \<and> ld_vs r = first_words (Suc n)))"

definition latency_inv :: "latency \<Rightarrow> bool" where
  "latency_inv s \<longleftrightarrow> (\<exists>n \<le> unat ITERATIONS. latency_at n s)"

definition latency_work :: "latency \<Rightarrow> nat" where
  "latency_work s =
     8 * (unat ITERATIONS - length (ld_vs (la_reader s)))
     + (case lw_pc (la_writer s) of
          Lw_data \<Rightarrow> 7
        | Lw_seq \<Rightarrow> 6
        | Lw_wait \<Rightarrow>
            (case ld_pc (la_reader s) of
               Ld_wait \<Rightarrow> if lt_ack (la_shm s) = lw_i (la_writer s) then 8 else 5
             | Ld_load \<Rightarrow> 4 | Ld_data \<Rightarrow> 3 | Ld_ack \<Rightarrow> 9)
        | Lw_done \<Rightarrow> 0)"

section \<open>The semaphore test\<close>

definition CHUNK_SIZE :: nat where [ivshmem_consts]: "CHUNK_SIZE = 16777216"

record sem_shm =
  sem_w :: nat
  sem_r :: nat
  sm_data :: "nat \<Rightarrow> byte"

datatype sw_pc = Sw_wait | Sw_copy nat | Sw_post

record sem_writer =
  sw_pc :: sw_pc
  sw_seq :: u64

datatype sr_pc = Sr_wait | Sr_copy nat | Sr_check | Sr_post

text \<open>The mismatches that the reader reports are kept, with what it saw and what it expected.\<close>

record sem_reader =
  sr_pc :: sr_pc
  sr_seen :: "byte list"
  sr_expected :: u64
  sr_reports :: "(u64 \<times> u64) list"

definition chunk_byte :: "u64 \<Rightarrow> nat \<Rightarrow> byte" where
  "chunk_byte q j = (if j < 8 then counter_bytes q ! j else ucast (and q 255))"

definition sem_writer_step :: "sem_writer \<Rightarrow> sem_shm \<Rightarrow> sem_writer \<times> sem_shm" where
  "sem_writer_step t sh =
     (case sw_pc t of
        Sw_wait \<Rightarrow> if sem_w sh = 0 then (t, sh) else (t\<lparr>sw_pc := Sw_copy 0\<rparr>, sh\<lparr>sem_w := sem_w sh - 1\<rparr>)
      | Sw_copy j \<Rightarrow>
          (t\<lparr>sw_pc := (if Suc j < CHUNK_SIZE then Sw_copy (Suc j) else Sw_post)\<rparr>,
           sh\<lparr>sm_data := (sm_data sh)(j := chunk_byte (sw_seq t) j)\<rparr>)
      | Sw_post \<Rightarrow> (t\<lparr>sw_pc := Sw_wait, sw_seq := sw_seq t + 1\<rparr>, sh\<lparr>sem_r := sem_r sh + 1\<rparr>))"

definition sem_reader_step :: "sem_reader \<Rightarrow> sem_shm \<Rightarrow> sem_reader \<times> sem_shm" where
  "sem_reader_step r sh =
     (case sr_pc r of
        Sr_wait \<Rightarrow> if sem_r sh = 0 then (r, sh) else (r\<lparr>sr_pc := Sr_copy 0\<rparr>, sh\<lparr>sem_r := sem_r sh - 1\<rparr>)
      | Sr_copy j \<Rightarrow>
          (r\<lparr>sr_seen := (sr_seen r)[j := sm_data sh j], sr_pc := (if Suc j < 8 then Sr_copy (Suc j) else Sr_check)\<rparr>, sh)
      | Sr_check \<Rightarrow>
          let seen = read_counter (sr_seen r) in
          if seen \<noteq> sr_expected r
          then (r\<lparr>sr_pc := Sr_post, sr_reports := sr_reports r @ [(seen, sr_expected r)], sr_expected := seen + 1\<rparr>, sh)
          else (r\<lparr>sr_pc := Sr_post, sr_expected := sr_expected r + 1\<rparr>, sh)
      | Sr_post \<Rightarrow> (r\<lparr>sr_pc := Sr_wait\<rparr>, sh\<lparr>sem_w := sem_w sh + 1\<rparr>))"

record sem_sys =
  se_writer :: sem_writer
  se_reader :: sem_reader
  se_shm :: sem_shm

inductive sem_step :: "sem_sys \<Rightarrow> sem_sys \<Rightarrow> bool" where
  sem_write: "sem_writer_step (se_writer s) (se_shm s) = (t, sh) \<Longrightarrow>
     sem_step s (s\<lparr>se_writer := t, se_shm := sh\<rparr>)"
| sem_read: "sem_reader_step (se_reader s) (se_shm s) = (r, sh) \<Longrightarrow>
     sem_step s (s\<lparr>se_reader := r, se_shm := sh\<rparr>)"

text \<open>The state in which \<^verbatim>\<open>main\<close> forks; the data area and the variable \<^verbatim>\<open>seen\<close> hold anything.\<close>

definition sem_start :: "byte list \<Rightarrow> (nat \<Rightarrow> byte) \<Rightarrow> sem_sys" where
  "sem_start seen d =
     \<lparr>se_writer = \<lparr>sw_pc = Sw_wait, sw_seq = 0\<rparr>,
      se_reader = \<lparr>sr_pc = Sr_wait, sr_seen = seen, sr_expected = 0, sr_reports = []\<rparr>,
      se_shm = \<lparr>sem_w = 1, sem_r = 0, sm_data = d\<rparr>\<rparr>"

definition sem_init :: "sem_sys \<Rightarrow> bool" where
  "sem_init s \<longleftrightarrow> length (sr_seen (se_reader s)) = 8 \<and> s = sem_start (sr_seen (se_reader s)) (sm_data (se_shm s))"

fun sw_crit :: "sw_pc \<Rightarrow> nat" where
  "sw_crit Sw_wait = 0"
| "sw_crit (Sw_copy _) = 1"
| "sw_crit Sw_post = 1"

fun sr_crit :: "sr_pc \<Rightarrow> nat" where
  "sr_crit Sr_wait = 0"
| "sr_crit (Sr_copy _) = 1"
| "sr_crit Sr_check = 1"
| "sr_crit Sr_post = 1"

definition holds_word :: "nat \<Rightarrow> (nat \<Rightarrow> byte) \<Rightarrow> u64 \<Rightarrow> bool" where
  "holds_word n d q \<longleftrightarrow> (\<forall>j < n. j < 8 \<longrightarrow> d j = counter_bytes q ! j)"

definition sem_inv :: "sem_sys \<Rightarrow> bool" where
  "sem_inv s \<longleftrightarrow>
     (let t = se_writer s; r = se_reader s; sh = se_shm s in
      sem_w sh + sem_r sh + sw_crit (sw_pc t) + sr_crit (sr_pc r) = 1 \<and>
      sr_reports r = [] \<and> length (sr_seen r) = 8 \<and>
      (case sw_pc t of
         Sw_wait \<Rightarrow> (if sem_w sh = 1 \<or> sr_pc r = Sr_post then sw_seq t = sr_expected r
                     else sw_seq t = sr_expected r + 1 \<and> holds_word 8 (sm_data sh) (sr_expected r))
       | Sw_copy j \<Rightarrow> j < CHUNK_SIZE \<and> sw_seq t = sr_expected r \<and> holds_word j (sm_data sh) (sr_expected r)
       | Sw_post \<Rightarrow> sw_seq t = sr_expected r \<and> holds_word 8 (sm_data sh) (sr_expected r)) \<and>
      (case sr_pc r of
         Sr_copy j \<Rightarrow> j < 8 \<and> take j (sr_seen r) = take j (counter_bytes (sr_expected r))
       | Sr_check \<Rightarrow> sr_seen r = counter_bytes (sr_expected r)
       | _ \<Rightarrow> True))"

text \<open>Steps until the reader compares: over what it does, and over what the writer has left.\<close>

definition sem_work :: "sem_sys \<Rightarrow> nat" where
  "sem_work s =
     (case sr_pc (se_reader s) of
        Sr_post \<Rightarrow> CHUNK_SIZE + 20
      | Sr_wait \<Rightarrow>
          if sem_r (se_shm s) = 1 then 10
          else (case sw_pc (se_writer s) of
                  Sw_wait \<Rightarrow> CHUNK_SIZE + 19 | Sw_copy j \<Rightarrow> CHUNK_SIZE - j + 12 | Sw_post \<Rightarrow> 11)
      | Sr_copy j \<Rightarrow> 9 - j
      | Sr_check \<Rightarrow> 1)"

section \<open>The test without a lock\<close>

definition nl_message_size :: nat where
  "nl_message_size = nat IVSHMEM_SIZE - sizeof_struct control_section_layout"

datatype nw_pc = Nw_fill | Nw_copy nat

record nl_writer =
  nw_pc :: nw_pc
  nw_counter :: u64
  nw_byte :: byte

datatype nl_report = Consistent | Corrupt nat byte byte

datatype nr_pc = Nr_poll | Nr_copy nat | Nr_verify

record nl_reader =
  nr_pc :: nr_pc
  nr_prev :: c_int
  nr_current :: c_int
  nr_buf :: "nat \<Rightarrow> byte"
  nr_reports :: "nl_report list"

text \<open>Every byte of the writer's buffer is the same, so the buffer is that byte.\<close>

definition nl_writer_step :: "nl_writer \<Rightarrow> (nat \<Rightarrow> byte) \<Rightarrow> nl_writer \<times> (nat \<Rightarrow> byte)" where
  "nl_writer_step t mem =
     (case nw_pc t of
        Nw_fill \<Rightarrow> (t\<lparr>nw_byte := ucast (nw_counter t mod 256), nw_pc := Nw_copy 0\<rparr>, mem)
      | Nw_copy j \<Rightarrow>
          (if Suc j < nl_message_size then t\<lparr>nw_pc := Nw_copy (Suc j)\<rparr>
           else t\<lparr>nw_pc := Nw_fill, nw_counter := nw_counter t + 1\<rparr>,
           mem(j := nw_byte t)))"

definition nl_reader_step :: "nl_reader \<Rightarrow> (nat \<Rightarrow> byte) \<Rightarrow> nl_reader" where
  "nl_reader_step r mem =
     (case nr_pc r of
        Nr_poll \<Rightarrow>
          let current = uint (mem 0) in
          if current = nr_prev r then r\<lparr>nr_current := current\<rparr>
          else r\<lparr>nr_current := current, nr_prev := current, nr_pc := Nr_copy 0\<rparr>
      | Nr_copy j \<Rightarrow>
          r\<lparr>nr_buf := (nr_buf r)(j := mem j), nr_pc := (if Suc j < nl_message_size then Nr_copy (Suc j) else Nr_verify)\<rparr>
      | Nr_verify \<Rightarrow>
          r\<lparr>nr_reports := nr_reports r @
              [case List.find (\<lambda>i. nr_buf r i \<noteq> word_of_int (nr_current r)) [0..<nl_message_size] of
                 None \<Rightarrow> Consistent | Some i \<Rightarrow> Corrupt i (word_of_int (nr_current r)) (nr_buf r i)],
            nr_pc := Nr_poll\<rparr>)"

record nl_sys =
  nl_w :: nl_writer
  nl_r :: nl_reader
  nl_mem :: "nat \<Rightarrow> byte"

inductive nl_step :: "nl_sys \<Rightarrow> nl_sys \<Rightarrow> bool" where
  nl_write: "nl_writer_step (nl_w s) (nl_mem s) = (t, mem) \<Longrightarrow> nl_step s (s\<lparr>nl_w := t, nl_mem := mem\<rparr>)"
| nl_read: "nl_reader_step (nl_r s) (nl_mem s) = r \<Longrightarrow> nl_step s (s\<lparr>nl_r := r\<rparr>)"

definition nl_start :: nl_sys where
  "nl_start =
     \<lparr>nl_w = \<lparr>nw_pc = Nw_fill, nw_counter = 0, nw_byte = 0\<rparr>,
      nl_r = \<lparr>nr_pc = Nr_poll, nr_prev = - 1, nr_current = 0, nr_buf = (\<lambda>_. 0), nr_reports = []\<rparr>,
      nl_mem = (\<lambda>_. 0)\<rparr>"

definition between :: "nat \<Rightarrow> nat \<Rightarrow> 'b \<Rightarrow> (nat \<Rightarrow> 'b) \<Rightarrow> nat \<Rightarrow> 'b" where
  "between j k v f = (\<lambda>a. if j \<le> a \<and> a < k then v else f a)"

section \<open>Properties\<close>

lemma unat_iterations: "unat ITERATIONS = 100000"
  by (simp add: ITERATIONS_def)

lemma small_words:
  assumes "a \<le> Suc (unat ITERATIONS)" and "b \<le> Suc (unat ITERATIONS)"
  shows "(word_of_nat a :: u64) = word_of_nat b \<longleftrightarrow> a = b"
proof -
  have "unat (word_of_nat a :: u64) = a" "unat (word_of_nat b :: u64) = b"
    using assms by (auto simp: unat_of_nat_small unat_iterations)
  then show ?thesis by metis
qed

lemma word_Suc_le: "n \<le> unat ITERATIONS \<Longrightarrow> (word_of_nat (Suc n) :: u64) + 1 \<le> ITERATIONS \<longleftrightarrow> Suc n < unat ITERATIONS"
proof -
  assume n: "n \<le> unat ITERATIONS"
  have "unat ((word_of_nat (Suc (Suc n))) :: u64) = Suc (Suc n)"
    using n by (subst unat_of_nat_small) (auto simp: unat_iterations)
  moreover have "(word_of_nat (Suc n) :: u64) + 1 = word_of_nat (Suc (Suc n))" by simp
  ultimately show ?thesis by (simp add: word_le_nat_alt Suc_le_eq)
qed

lemma first_words_Suc: "first_words (Suc n) = first_words n @ [word_of_nat (Suc n)]"
  by (simp add: first_words_def)

lemma length_first_words [simp]: "length (first_words n) = n"
  by (simp add: first_words_def)

lemma prefix_first_words: "n \<le> m \<Longrightarrow> prefix (first_words n) (first_words m)"
  by (rule prefix_nthI) (auto simp: first_words_def)

lemma latency_writer_inv:
  assumes at: "latency_at n s" and n: "n \<le> unat ITERATIONS" and st: "lt_writer_step (la_writer s) (la_shm s) = (t, sh)"
  shows "latency_inv (s\<lparr>la_writer := t, la_shm := sh\<rparr>)"
proof (cases "lw_pc (la_writer s) = Lw_wait \<and> lt_ack (la_shm s) = lw_i (la_writer s)")
  case True
  have ne: "(word_of_nat n :: u64) \<noteq> word_of_nat (Suc n)" using n by (subst small_words) auto
  have N: "Suc n \<le> unat ITERATIONS" using at True by (simp add: latency_at_def Let_def)
  have "latency_at (Suc n) (s\<lparr>la_writer := t, la_shm := sh\<rparr>)"
    using at st True ne word_Suc_le [OF n] N
    by (auto simp: latency_at_def lt_writer_step_def Let_def split: ld_pc.splits)
  then show ?thesis using N latency_inv_def by blast
next
  case False
  have "latency_at n (s\<lparr>la_writer := t, la_shm := sh\<rparr>)"
    using at st False by (auto simp: latency_at_def lt_writer_step_def Let_def split: lw_pc.splits ld_pc.splits if_splits)
  then show ?thesis using n latency_inv_def by blast
qed

lemma latency_reader_inv:
  assumes at: "latency_at n s" and n: "n \<le> unat ITERATIONS" and st: "lt_reader_step (la_reader s) (la_shm s) = (r, sh)"
  shows "latency_inv (s\<lparr>la_reader := r, la_shm := sh\<rparr>)"
proof -
  have ne: "(word_of_nat n :: u64) \<noteq> word_of_nat (Suc n)" using n by (subst small_words) auto
  have "latency_at n (s\<lparr>la_reader := r, la_shm := sh\<rparr>)"
    using at st ne
    by (auto simp: latency_at_def lt_reader_step_def Let_def first_words_Suc split: lw_pc.splits ld_pc.splits if_splits)
  then show ?thesis using n latency_inv_def by blast
qed

lemma latency_inv_init:
  assumes "latency_init s"
  shows "latency_inv s"
proof -
  have "latency_at 0 (latency_start d)" for d
    by (simp add: latency_start_def latency_at_def first_words_def unat_iterations)
  then show ?thesis using assms unfolding latency_init_def latency_inv_def by (metis le0)
qed

lemma latency_seen_words:
  assumes "latency_inv s"
  obtains n where "n \<le> unat ITERATIONS" "ld_vs (la_reader s) = first_words n" "latency_done s \<Longrightarrow> n = unat ITERATIONS"
proof -
  obtain n where n: "n \<le> unat ITERATIONS" and at: "latency_at n s" using assms by (auto simp: latency_inv_def)
  have "\<exists>m \<le> unat ITERATIONS. ld_vs (la_reader s) = first_words m \<and> (latency_done s \<longrightarrow> m = unat ITERATIONS)"
    using n at
    by (cases "lw_pc (la_writer s)"; cases "ld_pc (la_reader s)")
      (auto simp: latency_at_def latency_done_def Let_def Suc_le_eq less_imp_le intro: exI [of _ n] exI [of _ "Suc n"])
  then show ?thesis using that by blast
qed

lemma latency_progress:
  assumes "latency_inv s" and "\<not> latency_done s"
  shows "\<exists>t. latency_step s t \<and> latency_work t < latency_work s"
proof -
  obtain n where n: "n \<le> unat ITERATIONS" and at: "latency_at n s" using assms(1) by (auto simp: latency_inv_def)
  have ne: "(word_of_nat n :: u64) \<noteq> word_of_nat (Suc n)" using n by (subst small_words) auto
  show ?thesis
  proof (cases "lw_pc (la_writer s) = Lw_wait \<and> lt_ack (la_shm s) \<noteq> lw_i (la_writer s)")
    case True
    obtain r sh where st: "lt_reader_step (la_reader s) (la_shm s) = (r, sh)" by force
    have "latency_work (s\<lparr>la_reader := r, la_shm := sh\<rparr>) < latency_work s"
      using at st True ne
      by (auto simp: latency_at_def lt_reader_step_def latency_work_def Let_def split: ld_pc.splits if_splits)
    then show ?thesis using latency_read [OF st] by blast
  next
    case False
    obtain t sh where st: "lt_writer_step (la_writer s) (la_shm s) = (t, sh)" by force
    have "latency_work (s\<lparr>la_writer := t, la_shm := sh\<rparr>) < latency_work s"
      using at st False assms(2) ne
      by (auto simp: latency_at_def lt_writer_step_def latency_work_def latency_done_def Let_def
          split: lw_pc.splits ld_pc.splits if_splits)
    then show ?thesis using latency_write [OF st] by blast
  qed
qed

interpretation latency: live_transport latency_init latency_step latency_inv latency_stream latency_seen
  latency_done latency_done latency_work
proof unfold_locales
  show "latency_inv s" if "latency_init s" for s using that by (rule latency_inv_init)
  show "latency_inv t" if "latency_inv s" "latency_step s t" for s t
    using that(2,1) by cases (auto simp: latency_inv_def [of s] intro: latency_writer_inv latency_reader_inv)
  show "latency_stream t = latency_stream s" for s t by (simp add: latency_stream_def)
  show "prefix (latency_seen s) (latency_stream s)" if "latency_inv s" for s
    using that by (rule latency_seen_words) (simp add: latency_seen_def latency_stream_def prefix_first_words)
  show "latency_seen s = latency_stream s" if "latency_inv s" "latency_done s" for s
    using that(1) by (rule latency_seen_words) (use that(2) in \<open>simp add: latency_seen_def latency_stream_def\<close>)
  show "\<exists>t. latency_step s t \<and> latency_work t < latency_work s" if "latency_inv s" "\<not> latency_done s" for s
    using that by (rule latency_progress)
qed simp

lemma holds_word_mono: "holds_word n d q \<Longrightarrow> n' \<le> n \<or> 8 \<le> n \<Longrightarrow> holds_word n' d q"
  by (auto simp: holds_word_def)

lemma holds_word_Suc: "holds_word j d q \<Longrightarrow> holds_word (Suc j) (d(j := chunk_byte q j)) q"
  by (auto simp: holds_word_def chunk_byte_def less_Suc_eq)

lemma read_counter_counter_bytes: "read_counter (counter_bytes c) = c"
  using read_counter_bytes [of c "[]"] by simp

lemma sem_inv_write:
  assumes "sem_inv s" and st: "sem_writer_step (se_writer s) (se_shm s) = (t, sh)"
  shows "sem_inv (s\<lparr>se_writer := t, se_shm := sh\<rparr>)"
proof (cases "sw_pc (se_writer s)")
  case (Sw_copy j)
  have h: "holds_word (Suc j) ((sm_data (se_shm s))(j := chunk_byte (sw_seq (se_writer s)) j)) (sr_expected (se_reader s))"
    using assms(1) Sw_copy holds_word_Suc by (simp add: sem_inv_def Let_def)
  have "8 \<le> CHUNK_SIZE" by (simp add: CHUNK_SIZE_def)
  then have "holds_word 8 ((sm_data (se_shm s))(j := chunk_byte (sw_seq (se_writer s)) j)) (sr_expected (se_reader s))"
    if "\<not> Suc j < CHUNK_SIZE" using h that by (auto intro: holds_word_mono)
  then show ?thesis using assms Sw_copy h
    by (auto simp: sem_inv_def sem_writer_step_def Let_def split: sr_pc.splits)
qed (use assms in \<open>auto simp: sem_inv_def sem_writer_step_def Let_def holds_word_def [of 0] CHUNK_SIZE_def
      split: sr_pc.splits if_splits\<close>)

lemma sem_inv_read:
  assumes "sem_inv s" and st: "sem_reader_step (se_reader s) (se_shm s) = (r, sh)"
  shows "sem_inv (s\<lparr>se_reader := r, se_shm := sh\<rparr>)"
proof (cases "sr_pc (se_reader s)")
  case (Sr_copy j)
  let ?q = "sr_expected (se_reader s)" and ?seen = "sr_seen (se_reader s)"
  have w: "sw_pc (se_writer s) = Sw_wait" "sem_w (se_shm s) = 0" and j: "j < 8" "take j ?seen = take j (counter_bytes ?q)"
    and h: "holds_word 8 (sm_data (se_shm s)) ?q" and l: "length ?seen = 8"
    using assms(1) Sr_copy by (auto simp: sem_inv_def Let_def split: sw_pc.splits)
  have b: "sm_data (se_shm s) j = counter_bytes ?q ! j" using h j(1) by (simp add: holds_word_def)
  have tk: "take (Suc j) (?seen[j := sm_data (se_shm s) j]) = take (Suc j) (counter_bytes ?q)"
    using j l b by (simp add: take_Suc_conv_app_nth)
  have "?seen[j := sm_data (se_shm s) j] = counter_bytes ?q" if "\<not> Suc j < 8"
  proof -
    have "Suc j = 8" using that j(1) by simp
    then show ?thesis using tk l by simp
  qed
  then show ?thesis using assms Sr_copy tk w
    by (auto simp: sem_inv_def sem_reader_step_def Let_def split: if_splits)
qed (use assms in \<open>auto simp: sem_inv_def sem_reader_step_def Let_def read_counter_counter_bytes
      split: sw_pc.splits if_splits\<close>)

interpretation sem: safe_system sem_init sem_step sem_inv
proof unfold_locales
  show "sem_inv s" if "sem_init s" for s
  proof -
    have "sem_inv (sem_start seen d)" if "length seen = 8" for seen d
      using that by (simp add: sem_inv_def sem_start_def)
    then show ?thesis using that unfolding sem_init_def by metis
  qed
  show "sem_inv t" if "sem_inv s" "sem_step s t" for s t
    using that(2,1) by cases (auto intro: sem_inv_write sem_inv_read)
qed

lemma sem_progress:
  assumes inv: "sem_inv s" and nc: "sr_pc (se_reader s) \<noteq> Sr_check"
  shows "\<exists>t. sem_step s t \<and> sem_work t < sem_work s \<and> sr_expected (se_reader t) = sr_expected (se_reader s)"
proof (cases "sr_pc (se_reader s) = Sr_wait \<and> sem_r (se_shm s) = 0")
  case True
  obtain t sh where st: "sem_writer_step (se_writer s) (se_shm s) = (t, sh)" by force
  have "sem_work (s\<lparr>se_writer := t, se_shm := sh\<rparr>) < sem_work s"
    using inv st True
    by (auto simp: sem_inv_def sem_writer_step_def sem_work_def Let_def split: sw_pc.splits if_splits)
  then show ?thesis using sem_write [OF st] by force
next
  case False
  obtain r sh where st: "sem_reader_step (se_reader s) (se_shm s) = (r, sh)" by force
  have "sem_work (s\<lparr>se_reader := r, se_shm := sh\<rparr>) < sem_work s \<and> sr_expected r = sr_expected (se_reader s)"
    using inv st False nc
    by (auto simp: sem_inv_def sem_reader_step_def sem_work_def Let_def split: sr_pc.splits sw_pc.splits if_splits)
  then show ?thesis using sem_read [OF st] by force
qed

lemma sem_next:
  "sem_inv s \<Longrightarrow> \<exists>t. steps sem_step s t \<and> sr_expected (se_reader t) = sr_expected (se_reader s) + 1"
proof (induction "sem_work s" arbitrary: s rule: less_induct)
  case less
  show ?case
  proof (cases "sr_pc (se_reader s) = Sr_check")
    case True
    obtain r sh where st: "sem_reader_step (se_reader s) (se_shm s) = (r, sh)" by force
    have "sr_expected r = sr_expected (se_reader s) + 1"
      using st less.prems True
      by (auto simp: sem_inv_def sem_reader_step_def Let_def read_counter_counter_bytes)
    then show ?thesis using steps_one [of sem_step, OF sem_read [OF st]] by force
  next
    case False
    from sem_progress [OF less.prems False] obtain t where
      t: "sem_step s t" "sem_work t < sem_work s" "sr_expected (se_reader t) = sr_expected (se_reader s)" by blast
    from less.hyps [OF t(2) sem.inv_step [OF less.prems t(1)]] t(1,3) show ?thesis
      by (auto intro: steps_step)
  qed
qed

lemma between_empty: "between j j v f = f"
  by (rule ext) (auto simp: between_def)

lemma nl_message_size_eq: "nl_message_size = 4192224"
  by (simp add: nl_message_size_def IVSHMEM_SIZE_def sizeof_control_section)

lemma nl_writer_copies:
  "nw_pc (nl_w s) = Nw_copy j \<Longrightarrow> j + n < nl_message_size \<Longrightarrow>
   steps nl_step s (s\<lparr>nl_w := (nl_w s)\<lparr>nw_pc := Nw_copy (j + n)\<rparr>, nl_mem := between j (j + n) (nw_byte (nl_w s)) (nl_mem s)\<rparr>)"
proof (induction n)
  case 0
  have "s\<lparr>nl_w := (nl_w s)\<lparr>nw_pc := Nw_copy j\<rparr>, nl_mem := between j j (nw_byte (nl_w s)) (nl_mem s)\<rparr> = s"
    using 0 by (cases s) (simp add: between_empty)
  then show ?case by (simp add: steps_refl)
next
  case (Suc n)
  let ?m = "s\<lparr>nl_w := (nl_w s)\<lparr>nw_pc := Nw_copy (j + n)\<rparr>, nl_mem := between j (j + n) (nw_byte (nl_w s)) (nl_mem s)\<rparr>"
  let ?t = "s\<lparr>nl_w := (nl_w s)\<lparr>nw_pc := Nw_copy (j + Suc n)\<rparr>, nl_mem := between j (j + Suc n) (nw_byte (nl_w s)) (nl_mem s)\<rparr>"
  have b: "(between j (j + n) v f)(j + n := v) = between j (j + Suc n) v f" for v :: byte and f
    by (auto simp: between_def fun_eq_iff)
  have "nl_writer_step (nl_w ?m) (nl_mem ?m) = (nl_w ?t, nl_mem ?t)"
    using Suc.prems(2) by (simp add: nl_writer_step_def b [simplified])
  from nl_write [of ?m, OF this] have "nl_step ?m ?t" by simp
  moreover have "steps nl_step s ?m" using Suc by simp
  ultimately show ?case using steps_trans [OF _ steps_one [of nl_step]] by blast
qed

lemma nl_reader_copies:
  "nr_pc (nl_r s) = Nr_copy j \<Longrightarrow> j + n < nl_message_size \<Longrightarrow>
   \<exists>buf. steps nl_step s (s\<lparr>nl_r := (nl_r s)\<lparr>nr_pc := Nr_copy (j + n), nr_buf := buf\<rparr>\<rparr>) \<and>
     (\<forall>i < j. buf i = nr_buf (nl_r s) i) \<and> (\<forall>i. j \<le> i \<and> i < j + n \<longrightarrow> buf i = nl_mem s i)"
proof (induction n)
  case 0
  have "s\<lparr>nl_r := (nl_r s)\<lparr>nr_pc := Nr_copy j, nr_buf := nr_buf (nl_r s)\<rparr>\<rparr> = s" using 0 by (cases s) simp
  then have "steps nl_step s (s\<lparr>nl_r := (nl_r s)\<lparr>nr_pc := Nr_copy (j + 0), nr_buf := nr_buf (nl_r s)\<rparr>\<rparr>)"
    by (simp add: steps_refl)
  then show ?case by (intro exI [of _ "nr_buf (nl_r s)"]) auto
next
  case (Suc n)
  then obtain buf where b: "steps nl_step s (s\<lparr>nl_r := (nl_r s)\<lparr>nr_pc := Nr_copy (j + n), nr_buf := buf\<rparr>\<rparr>)"
    "\<forall>i < j. buf i = nr_buf (nl_r s) i" "\<forall>i. j \<le> i \<and> i < j + n \<longrightarrow> buf i = nl_mem s i" by auto
  let ?m = "s\<lparr>nl_r := (nl_r s)\<lparr>nr_pc := Nr_copy (j + n), nr_buf := buf\<rparr>\<rparr>"
  let ?t = "s\<lparr>nl_r := (nl_r s)\<lparr>nr_pc := Nr_copy (j + Suc n), nr_buf := buf(j + n := nl_mem s (j + n))\<rparr>\<rparr>"
  have "nl_reader_step (nl_r ?m) (nl_mem ?m) = nl_r ?t"
    using Suc.prems(2) by (simp add: nl_reader_step_def)
  from nl_read [of ?m, OF this] have "nl_step ?m ?t" by simp
  from steps_trans [OF b(1) steps_one [of nl_step, OF this]] have "steps nl_step s ?t" .
  moreover have "\<forall>i < j. (buf(j + n := nl_mem s (j + n))) i = nr_buf (nl_r s) i"
    and "\<forall>i. j \<le> i \<and> i < j + Suc n \<longrightarrow> (buf(j + n := nl_mem s (j + n))) i = nl_mem s i"
    using b(2,3) by auto
  ultimately show ?case by blast
qed

lemma nl_after_first_message:
  "\<exists>s. steps nl_step nl_start s \<and> nl_w s = \<lparr>nw_pc = Nw_fill, nw_counter = 1, nw_byte = 0\<rparr> \<and>
     nl_r s = nl_r nl_start \<and> nl_mem s = (\<lambda>_. 0)"
proof -
  let ?s1 = "nl_start\<lparr>nl_w := \<lparr>nw_pc = Nw_copy 0, nw_counter = 0, nw_byte = 0\<rparr>\<rparr>"
  let ?n = "nl_message_size - 1"
  let ?s2 = "?s1\<lparr>nl_w := (nl_w ?s1)\<lparr>nw_pc := Nw_copy ?n\<rparr>, nl_mem := between 0 ?n 0 (nl_mem ?s1)\<rparr>"
  let ?s3 = "nl_start\<lparr>nl_w := \<lparr>nw_pc = Nw_fill, nw_counter = 1, nw_byte = 0\<rparr>\<rparr>"
  have z: "between 0 n 0 (\<lambda>_. 0 :: byte) = (\<lambda>_. 0)" for n by (auto simp: between_def)
  have "nl_writer_step (nl_w nl_start) (nl_mem nl_start) = (nl_w ?s1, nl_mem nl_start)"
    by (simp add: nl_writer_step_def nl_start_def)
  from nl_write [OF this] have 1: "nl_step nl_start ?s1" by (simp add: nl_start_def)
  have 2: "steps nl_step ?s1 ?s2" using nl_writer_copies [of ?s1 0 ?n] by (simp add: nl_message_size_eq)
  have "nl_writer_step (nl_w ?s2) (nl_mem ?s2) = (nl_w ?s3, nl_mem ?s3)"
    by (simp add: nl_writer_step_def nl_start_def z nl_message_size_eq fun_upd_idem)
  from nl_write [of ?s2, OF this] have 3: "nl_step ?s2 ?s3" by (simp add: nl_start_def)
  have "steps nl_step nl_start ?s3" by (rule steps_step [OF 1 steps_trans [OF 2 steps_one [of nl_step, OF 3]]])
  then show ?thesis by (intro exI [of _ ?s3]) (simp add: nl_start_def)
qed

lemma find_second:
  assumes "\<not> P 0" and "P (Suc 0)" and "2 \<le> n"
  shows "List.find P [0..<n] = Some (Suc 0)"
proof -
  have "[0..<n] = 0 # Suc 0 # [Suc (Suc 0)..<n]" using assms(3) by (simp add: upt_conv_Cons)
  then show ?thesis using assms(1,2) by simp
qed

text \<open>
  Without a lock the reader can take a torn message: after the first byte of the
  second message it copies the area and reports the first byte that still belongs to the
  first message.
\<close>

theorem unlocked_copy_torn:
  "\<exists>s. steps nl_step nl_start s \<and> nr_reports (nl_r s) = [Corrupt 1 1 0]"
proof -
  let ?n = "nl_message_size - 1"
  obtain s0 where s0: "steps nl_step nl_start s0" "nl_w s0 = \<lparr>nw_pc = Nw_fill, nw_counter = 1, nw_byte = 0\<rparr>"
    "nl_r s0 = nl_r nl_start" "nl_mem s0 = (\<lambda>_. 0)" using nl_after_first_message by blast
  let ?s1 = "s0\<lparr>nl_w := \<lparr>nw_pc = Nw_copy 0, nw_counter = 1, nw_byte = 1\<rparr>\<rparr>"
  let ?s2 = "?s1\<lparr>nl_w := \<lparr>nw_pc = Nw_copy 1, nw_counter = 1, nw_byte = 1\<rparr>, nl_mem := (\<lambda>_. 0)(0 := 1)\<rparr>"
  let ?r3 = "(nl_r nl_start)\<lparr>nr_current := 1, nr_prev := 1, nr_pc := Nr_copy 0\<rparr>"
  let ?s3 = "?s2\<lparr>nl_r := ?r3\<rparr>"
  have "nl_writer_step (nl_w s0) (nl_mem s0) = (nl_w ?s1, nl_mem s0)" by (simp add: nl_writer_step_def s0(2))
  from nl_write [OF this] have 1: "nl_step s0 ?s1" by simp
  have "nl_writer_step (nl_w ?s1) (nl_mem ?s1) = (nl_w ?s2, nl_mem ?s2)"
    by (simp add: nl_writer_step_def s0(4) nl_message_size_eq)
  from nl_write [of ?s1, OF this] have 2: "nl_step ?s1 ?s2" by simp
  have "nl_reader_step (nl_r ?s2) (nl_mem ?s2) = ?r3" by (simp add: nl_reader_step_def s0(3) nl_start_def)
  from nl_read [of ?s2, OF this] have 3: "nl_step ?s2 ?s3" by simp
  obtain buf where b: "steps nl_step ?s3 (?s3\<lparr>nl_r := ?r3\<lparr>nr_pc := Nr_copy ?n, nr_buf := buf\<rparr>\<rparr>)"
    "\<forall>i < ?n. buf i = nl_mem ?s3 i"
    using nl_reader_copies [of ?s3 0 ?n] by (auto simp: nl_message_size_eq)
  let ?s4 = "?s3\<lparr>nl_r := ?r3\<lparr>nr_pc := Nr_copy ?n, nr_buf := buf\<rparr>\<rparr>"
  let ?r5 = "?r3\<lparr>nr_pc := Nr_verify, nr_buf := buf(?n := nl_mem ?s3 ?n)\<rparr>"
  let ?s5 = "?s3\<lparr>nl_r := ?r5\<rparr>"
  have "nl_reader_step (nl_r ?s4) (nl_mem ?s4) = ?r5" by (simp add: nl_reader_step_def nl_message_size_eq)
  from nl_read [of ?s4, OF this] have 5: "nl_step ?s4 ?s5" by simp
  have v: "nr_buf ?r5 0 = 1" "nr_buf ?r5 (Suc 0) = 0" using b(2) by (auto simp: nl_message_size_eq)
  have "List.find (\<lambda>i. nr_buf ?r5 i \<noteq> word_of_int (nr_current ?r5)) [0..<nl_message_size] = Some (Suc 0)"
    by (rule find_second) (use v in \<open>simp_all add: nl_message_size_eq\<close>)
  then have "nl_reader_step (nl_r ?s5) (nl_mem ?s5) = ?r5\<lparr>nr_reports := [Corrupt 1 1 0], nr_pc := Nr_poll\<rparr>"
    using v by (simp add: nl_reader_step_def nl_start_def)
  then have six: "nl_step ?s5 (?s5\<lparr>nl_r := ?r5\<lparr>nr_reports := [Corrupt 1 1 0], nr_pc := Nr_poll\<rparr>\<rparr>)"
    by (rule nl_read)
  let ?s6 = "?s5\<lparr>nl_r := ?r5\<lparr>nr_reports := [Corrupt 1 1 0], nr_pc := Nr_poll\<rparr>\<rparr>"
  have "steps nl_step nl_start ?s6"
    by (rule steps_trans [OF s0(1) steps_step [OF 1 steps_step [OF 2 steps_step [OF 3 steps_trans [OF b(1)
          steps_step [OF 5 steps_one [of nl_step, OF six]]]]]]])
  moreover have "nr_reports (nl_r ?s6) = [Corrupt 1 1 0]" by simp
  ultimately have "steps nl_step nl_start ?s6 \<and> nr_reports (nl_r ?s6) = [Corrupt 1 1 0]" by (rule conjI)
  then show ?thesis by (rule exI [of "\<lambda>s. steps nl_step nl_start s \<and> nr_reports (nl_r s) = [Corrupt 1 1 0]"])
qed

end
