(* ===== verification/Ivshmem_Setups.thy ===== *)
theory Ivshmem_Setups
  imports Ivshmem_Demos Ivshmem_Lib
begin

text \<open>
  The main functions of the experiments up to the point where their processes start, with
  every exit on the way, and the end of the latency test.  What the system calls return is an
  argument; the calls that release something are listed.
\<close>

section \<open>Setting up\<close>

datatype demo_call = Demo_close c_int | Demo_munmap c_ptr | Demo_kill c_int

datatype 's demo_start = Demo_exit c_int | Demo_started 's

text \<open>
  \<^verbatim>\<open>latency_test.c\<close>: the device's page is mapped, and \<open>d\<close> is what its third word holds.  The
  parent is the writer; when it is done it releases the page and ends the reader.
\<close>

definition latency_main :: "c_int \<Rightarrow> c_ptr \<Rightarrow> c_int \<Rightarrow> u64 \<Rightarrow> latency demo_start \<times> demo_call list" where
  "latency_main fd m pid d =
     (if fd < 0 then (Demo_exit 1, [])
      else if m = Map_failed then (Demo_exit 1, [Demo_close fd])
      else if pid < 0 then (Demo_exit 1, [Demo_close fd, Demo_munmap m])
      else (Demo_started (latency_start d), [Demo_close fd]))"

definition latency_end :: "c_ptr \<Rightarrow> c_int \<Rightarrow> lt_writer \<Rightarrow> (c_int \<times> demo_call list) option" where
  "latency_end m pid t = (if lw_pc t = Lw_done then Some (0, [Demo_munmap m, Demo_kill pid]) else None)"

text \<open>
  \<^verbatim>\<open>shm_comm.c\<close>: a named area is created, sized and mapped, and the semaphores are initialised
  in it.  Nothing is released on any path.
\<close>

definition sem_main :: "c_int \<Rightarrow> c_int \<Rightarrow> c_ptr \<Rightarrow> c_int \<Rightarrow> byte list \<Rightarrow> (nat \<Rightarrow> byte) \<Rightarrow> sem_sys demo_start" where
  "sem_main fd truncated base pid seen d =
     (if fd < 0 then Demo_exit 1
      else if truncated < 0 then Demo_exit 1
      else if base = Map_failed then Demo_exit 1
      else if pid < 0 then Demo_exit 1
      else Demo_started (sem_start seen d))"

text \<open>
  \<^verbatim>\<open>no_lock_test\<close>: writer and reader open the device through the library.  The reader's option
  \<^verbatim>\<open>-s\<close> sets an interval that is not used; any other option ends it.
\<close>

datatype nr_opt = Nr_opt_s string | Nr_opt_other

fun nr_opts_ok :: "nr_opt list \<Rightarrow> bool" where
  "nr_opts_ok [] = True"
| "nr_opts_ok (Nr_opt_s arg # os) = nr_opts_ok os"
| "nr_opts_ok (Nr_opt_other # os) = False"

definition nl_writer_main :: "c_int \<Rightarrow> c_ptr \<Rightarrow> dev_ctx \<Rightarrow> bool \<Rightarrow> byte \<Rightarrow> nl_writer demo_start \<times> os_call list" where
  "nl_writer_main fd m ctx malloc_ok b =
     (case ivshmem_open_dev fd m (ivshmem_init_dev_ctx ctx) of
        (ret, ctx1, calls) \<Rightarrow>
          if ret \<noteq> 0 then (Demo_exit 1, calls)
          else if \<not> malloc_ok then (Demo_exit 1, calls)
          else (Demo_started \<lparr>nw_pc = Nw_fill, nw_counter = 0, nw_byte = b\<rparr>, calls))"

definition nl_reader_main ::
  "nr_opt list \<Rightarrow> c_int \<Rightarrow> c_ptr \<Rightarrow> dev_ctx \<Rightarrow> bool \<Rightarrow> (nat \<Rightarrow> byte) \<Rightarrow> c_int \<Rightarrow> nl_reader demo_start \<times> os_call list" where
  "nl_reader_main os fd m ctx malloc_ok buf cur =
     (if \<not> nr_opts_ok os then (Demo_exit 1, [])
      else
        case ivshmem_open_dev fd m (ivshmem_init_dev_ctx ctx) of
          (ret, ctx1, calls) \<Rightarrow>
            if ret \<noteq> 0 then (Demo_exit 1, calls)
            else if \<not> malloc_ok then (Demo_exit 1, calls)
            else (Demo_started \<lparr>nr_pc = Nr_poll, nr_prev = - 1, nr_current = cur, nr_buf = buf, nr_reports = []\<rparr>, calls))"

section \<open>From the main functions to the exchanges\<close>

lemma latency_main_init: "latency_main fd m pid d = (Demo_started s, calls) \<Longrightarrow> latency_init s"
  by (auto simp: latency_main_def latency_init_def latency_start_def split: if_splits)

lemma sem_main_init: "sem_main fd tr base pid seen d = Demo_started s \<Longrightarrow> length seen = 8 \<Longrightarrow> sem_init s"
  by (auto simp: sem_main_def sem_init_def sem_start_def split: if_splits)

text \<open>
  C32.  The latency test from its main function: once it has forked, the reader sees the
  values 1, 2, ... in order, none twice and none skipped, and from every reachable state the
  writer can complete all 100000 rounds, with every value seen, and then releases the page,
  ends the reader and returns 0.
\<close>

theorem latency_program:
  assumes "latency_main fd m pid d = (Demo_started s0, calls)" and "steps latency_step s0 s"
  shows "prefix (latency_seen s) (first_words 100000) \<and>
    (\<exists>t. steps latency_step s t \<and> latency_seen t = first_words 100000 \<and>
       latency_end m pid (la_writer t) = Some (0, [Demo_munmap m, Demo_kill pid]))"
proof -
  have r: "reach latency_init latency_step s"
    using reach_steps [OF assms(2) reach_init [of latency_init, OF latency_main_init [OF assms(1)]]] .
  show ?thesis
    using latency.reach_prefix [OF r] latency.reach_can_finish [OF r]
    by (auto simp: latency_stream_def latency_done_def latency_end_def unat_iterations)
qed

theorem latency_program_witness:
  "\<exists>t. steps latency_step (latency_start 5) t \<and> latency_end (Ptr 4096) 77 (la_writer t) = Some (0, [Demo_munmap (Ptr 4096), Demo_kill 77])"
  using latency_program [of 3 "Ptr 4096" 77 5 "latency_start 5" "[Demo_close 3]" "latency_start 5"]
  by (auto simp: latency_main_def intro: steps_refl)

text \<open>
  C33.  The bandwidth test from its main function: once it has forked, the reader never
  reports a mismatch, writer and reader are never both in the chunk, also across the
  wrap-around of the counter, and from every reachable state the next chunk can be received.
\<close>

theorem sem_program:
  assumes "sem_main fd tr base pid seen d = Demo_started s0" and "length seen = 8" and "steps sem_step s0 s"
  shows "sr_reports (se_reader s) = [] \<and> \<not> (sw_crit (sw_pc (se_writer s)) = 1 \<and> sr_crit (sr_pc (se_reader s)) = 1) \<and>
    (\<exists>t. steps sem_step s t \<and> sr_expected (se_reader t) = sr_expected (se_reader s) + 1)"
proof -
  have r: "reach sem_init sem_step s"
    using reach_steps [OF assms(3) reach_init [of sem_init, OF sem_main_init [OF assms(1,2)]]] .
  show ?thesis
    using sem.reach_inv [OF r] sem_next [OF sem.reach_inv [OF r]] by (auto simp: sem_inv_def Let_def)
qed

theorem sem_program_witness:
  "\<exists>t. steps sem_step (sem_start (replicate 8 7) (\<lambda>_. 9)) t \<and> sr_expected (se_reader t) = 1"
  using sem_program [of 3 0 "Ptr 4096" 77 "replicate 8 7" "\<lambda>_. 9" "sem_start (replicate 8 7) (\<lambda>_. 9)"
      "sem_start (replicate 8 7) (\<lambda>_. 9)"]
  by (auto simp: sem_main_def sem_start_def intro: steps_refl)

end
