(* ===== verification/Ivshmem_Chunk.thy ===== *)
theory Ivshmem_Chunk
  imports Ivshmem_Trusted Ivshmem_Sessions
begin

text \<open>
  The chunk variant of the channels, \<^verbatim>\<open>IVSHMEM_TYPE\<close> 1 (the header selects 2, the page
  variant of \<open>Ivshmem_Secure\<close>): a channel holds one chunk of a message at a time, and
  \<^verbatim>\<open>ref_count\<close> says whether it is there.  The search for the channel is the same code in both
  variants; the machines here start behind it, with \<^verbatim>\<open>p_chan\<close> found.

  The sender raises \<^verbatim>\<open>ref_count\<close> before it adds to \<^verbatim>\<open>data_size\<close>.  If the receiver does not
  look in between, the variant is a \<open>call_transport\<close>; if it does, the chunk is lost.
\<close>

section \<open>Shared data\<close>

record chunk_channel =
  ck_id :: u32
  ck_key :: channel_key
  ck_buf_offset :: size_t
  ck_buf_size :: size_t
  ck_data_size :: size_t
  ck_ref_count :: c_int
  ck_sent_count :: c_int
  ck_last_sent_at :: time_t

definition chunk_channel_layout :: "c_member list" where
  "chunk_channel_layout =
     [c_u32, c_struct channel_key_layout, c_u64, c_u64, c_u64, c_u32, c_u32, c_u64]"

definition chunk_section_layout :: "c_member list" where
  "chunk_section_layout =
     [c_u64, c_u32, c_u32, c_array IVSHMEM_MAX_CHANNELS (c_struct chunk_channel_layout),
      c_u8, c_u8, c_struct channel_key_layout]"

definition CHUNK_DATA_SECTION_SIZE :: size_t where
  "CHUNK_DATA_SECTION_SIZE = size_of_int IVSHMEM_SIZE - word_of_nat (sizeof_struct chunk_section_layout)"

text \<open>\<^verbatim>\<open>ivshmem_init_channel\<close>, for the given free offset and identifier of the control section.\<close>

definition chunk_init_channel ::
  "time_t \<Rightarrow> size_t \<Rightarrow> u32 \<Rightarrow> chunk_channel \<Rightarrow> channel_key \<Rightarrow> chunk_channel" where
  "chunk_init_channel now free last_id ch k =
     (let ch1 = ch\<lparr>ck_id := last_id,
                   ck_key := \<lparr>sender_vm = sender_vm k, sender_pid = sender_pid k, receiver_vm = receiver_vm k\<rparr>,
                   ck_buf_offset := free, ck_buf_size := size_of_int IVSHMEM_CHANNEL_INIT_SIZE,
                   ck_data_size := 0, ck_last_sent_at := now\<rparr>
      in ch1\<lparr>ck_ref_count := 0, ck_sent_count := 0, ck_last_sent_at := 0\<rparr>)"

text \<open>What the loops use of the shared memory: the mutex, the channel found and the data section.\<close>

record chunk_shm =
  ck_mutex :: byte
  ck_chan :: chunk_channel
  ck_data :: "nat \<Rightarrow> byte"

definition upd_chunk :: "(chunk_channel \<Rightarrow> chunk_channel) \<Rightarrow> chunk_shm \<Rightarrow> chunk_shm" where
  "upd_chunk f sh = sh\<lparr>ck_chan := f (ck_chan sh)\<rparr>"

section \<open>Sending\<close>

datatype cks_pc =
  Ck_mutex | Ck_size | Ck_ref | Ck_min | Ck_addr | Ck_copy nat nat | Ck_one | Ck_account | Ck_stamp
| Ck_ret c_int | Ck_fault c_fault

record chunk_sender =
  cks_pc :: cks_pc
  cks_buf :: "byte list"
  cks_size :: size_t
  cks_sent :: size_t
  cks_to_sent :: size_t

definition chunk_send_call :: "byte list \<Rightarrow> size_t \<Rightarrow> chunk_sender" where
  "chunk_send_call buf sz = \<lparr>cks_pc = Ck_mutex, cks_buf = buf, cks_size = sz, cks_sent = 0, cks_to_sent = 0\<rparr>"

definition chunk_send_step :: "time_t \<Rightarrow> chunk_sender \<Rightarrow> chunk_shm \<Rightarrow> chunk_sender \<times> chunk_shm" where
  "chunk_send_step now t sh =
     (let ch = ck_chan sh in
      case cks_pc t of
        Ck_mutex \<Rightarrow> (if ck_mutex sh \<noteq> 0 then (t, sh) else (t\<lparr>cks_pc := Ck_size\<rparr>, sh))
      | Ck_size \<Rightarrow>
          (if cks_size t \<le> cks_sent t then (t\<lparr>cks_pc := Ck_ret 0\<rparr>, sh) else (t\<lparr>cks_pc := Ck_ref\<rparr>, sh))
      | Ck_ref \<Rightarrow>
          (if 0 < ck_ref_count ch then (t\<lparr>cks_pc := Ck_mutex\<rparr>, sh) else (t\<lparr>cks_pc := Ck_min\<rparr>, sh))
      | Ck_min \<Rightarrow> (t\<lparr>cks_pc := Ck_addr, cks_to_sent := min (cks_size t - cks_sent t) (ck_buf_size ch)\<rparr>, sh)
      | Ck_addr \<Rightarrow> (t\<lparr>cks_pc := Ck_copy (unat (ck_buf_offset ch)) 0\<rparr>, sh)
      | Ck_copy dst j \<Rightarrow>
          (if j < unat (cks_to_sent t) then
             if length (cks_buf t) \<le> unat (cks_sent t) + j \<or> unat CHUNK_DATA_SECTION_SIZE \<le> dst + j
             then (t\<lparr>cks_pc := Ck_fault OutOfBounds\<rparr>, sh)
             else (t\<lparr>cks_pc := Ck_copy dst (Suc j)\<rparr>,
                   sh\<lparr>ck_data := (ck_data sh)(dst + j := cks_buf t ! (unat (cks_sent t) + j))\<rparr>)
           else (t\<lparr>cks_pc := Ck_one\<rparr>, sh))
      | Ck_one \<Rightarrow> (t\<lparr>cks_pc := Ck_account\<rparr>, upd_chunk (\<lambda>c. c\<lparr>ck_ref_count := 1\<rparr>) sh)
      | Ck_account \<Rightarrow>
          (t\<lparr>cks_pc := Ck_stamp, cks_sent := cks_sent t + cks_to_sent t\<rparr>,
           upd_chunk (\<lambda>c. c\<lparr>ck_data_size := ck_data_size c + cks_to_sent t\<rparr>) sh)
      | Ck_stamp \<Rightarrow> (t\<lparr>cks_pc := Ck_mutex\<rparr>, upd_chunk (\<lambda>c. c\<lparr>ck_last_sent_at := now\<rparr>) sh)
      | _ \<Rightarrow> (t, sh))"

section \<open>Receiving\<close>

text \<open>
  \<^verbatim>\<open>int to_receive = MIN(size - data_received, p_chan->data_size)\<close> reads \<^verbatim>\<open>data_size\<close> for the
  comparison and, when that is not larger, once more for the value.  The conversion to
  \<^verbatim>\<open>int\<close> keeps the low 32 bits.
\<close>

definition int_of_size :: "size_t \<Rightarrow> c_int" where
  "int_of_size w = sint (ucast w :: 32 word)"

datatype ckr_pc =
  Cr_mutex | Cr_size | Cr_ref | Cr_less | Cr_take | Cr_addr | Cr_copy nat nat | Cr_zero | Cr_dec
| Cr_ret c_int | Cr_fault c_fault

record chunk_receiver =
  ckr_pc :: ckr_pc
  ckr_buf :: "byte list"
  ckr_size :: size_t
  ckr_received :: c_int
  ckr_to_receive :: c_int

definition chunk_recv_call :: "byte list \<Rightarrow> size_t \<Rightarrow> chunk_receiver" where
  "chunk_recv_call buf sz = \<lparr>ckr_pc = Cr_mutex, ckr_buf = buf, ckr_size = sz, ckr_received = 0, ckr_to_receive = 0\<rparr>"

definition chunk_recv_step :: "chunk_receiver \<Rightarrow> chunk_shm \<Rightarrow> chunk_receiver \<times> chunk_shm" where
  "chunk_recv_step r sh =
     (let ch = ck_chan sh; left = ckr_size r - size_of_int (ckr_received r) in
      case ckr_pc r of
        Cr_mutex \<Rightarrow> (if ck_mutex sh \<noteq> 0 then (r, sh) else (r\<lparr>ckr_pc := Cr_size\<rparr>, sh))
      | Cr_size \<Rightarrow>
          (if ckr_size r \<le> size_of_int (ckr_received r) then (r\<lparr>ckr_pc := Cr_ret 0\<rparr>, sh)
           else (r\<lparr>ckr_pc := Cr_ref\<rparr>, sh))
      | Cr_ref \<Rightarrow>
          (if ck_ref_count ch = 0 then (r\<lparr>ckr_pc := Cr_mutex\<rparr>, sh) else (r\<lparr>ckr_pc := Cr_less\<rparr>, sh))
      | Cr_less \<Rightarrow>
          (if left < ck_data_size ch then (r\<lparr>ckr_pc := Cr_addr, ckr_to_receive := int_of_size left\<rparr>, sh)
           else (r\<lparr>ckr_pc := Cr_take\<rparr>, sh))
      | Cr_take \<Rightarrow> (r\<lparr>ckr_pc := Cr_addr, ckr_to_receive := int_of_size (ck_data_size ch)\<rparr>, sh)
      | Cr_addr \<Rightarrow> (r\<lparr>ckr_pc := Cr_copy (unat (ck_buf_offset ch)) 0\<rparr>, sh)
      | Cr_copy src j \<Rightarrow>
          (if j < unat (size_of_int (ckr_to_receive r)) then
             if length (ckr_buf r) \<le> nat (ckr_received r) + j \<or> unat CHUNK_DATA_SECTION_SIZE \<le> src + j
             then (r\<lparr>ckr_pc := Cr_fault OutOfBounds\<rparr>, sh)
             else (r\<lparr>ckr_pc := Cr_copy src (Suc j),
                     ckr_buf := (ckr_buf r)[nat (ckr_received r) + j := ck_data sh (src + j)]\<rparr>, sh)
           else (r\<lparr>ckr_pc := Cr_zero\<rparr>, sh))
      | Cr_zero \<Rightarrow>
          (if in_c_int (ckr_received r + ckr_to_receive r)
           then (r\<lparr>ckr_pc := Cr_dec, ckr_received := ckr_received r + ckr_to_receive r\<rparr>,
                 upd_chunk (\<lambda>c. c\<lparr>ck_data_size := 0\<rparr>) sh)
           else (r\<lparr>ckr_pc := Cr_fault SignedOverflow\<rparr>, sh))
      | Cr_dec \<Rightarrow>
          (if in_c_int (ck_ref_count ch - 1)
           then (r\<lparr>ckr_pc := Cr_mutex\<rparr>, upd_chunk (\<lambda>c. c\<lparr>ck_ref_count := ck_ref_count c - 1\<rparr>) sh)
           else (r\<lparr>ckr_pc := Cr_fault SignedOverflow\<rparr>, sh))
      | _ \<Rightarrow> (r, sh))"

section \<open>One sender and one receiver\<close>

record chunk_sys =
  cy_snd :: chunk_sender
  cy_rcv :: chunk_receiver
  cy_shm :: chunk_shm

inductive chunk_step :: "chunk_sys \<Rightarrow> chunk_sys \<Rightarrow> bool" where
  chunk_send: "chunk_send_step now (cy_snd s) (cy_shm s) = (t, sh) \<Longrightarrow>
     chunk_step s (s\<lparr>cy_snd := t, cy_shm := sh\<rparr>)"
| chunk_recv: "chunk_recv_step (cy_rcv s) (cy_shm s) = (r, sh) \<Longrightarrow>
     chunk_step s (s\<lparr>cy_rcv := r, cy_shm := sh\<rparr>)"

text \<open>The receiver does not run between the two accesses that publish a chunk.\<close>

inductive chunk_ordered_step :: "chunk_sys \<Rightarrow> chunk_sys \<Rightarrow> bool" where
  ordered_send: "chunk_send_step now (cy_snd s) (cy_shm s) = (t, sh) \<Longrightarrow>
     chunk_ordered_step s (s\<lparr>cy_snd := t, cy_shm := sh\<rparr>)"
| ordered_recv: "cks_pc (cy_snd s) \<noteq> Ck_account \<Longrightarrow> chunk_recv_step (cy_rcv s) (cy_shm s) = (r, sh) \<Longrightarrow>
     chunk_ordered_step s (s\<lparr>cy_rcv := r, cy_shm := sh\<rparr>)"

text \<open>
  The invariant counts bytes over all calls: \<open>B\<close> is the stream, the sender has published \<open>P\<close>
  bytes of it and the receiver has taken \<open>Q\<close>; messages have \<open>N\<close> bytes, the sender is in its
  call \<open>i\<close> and the receiver in its call \<open>j\<close>.  A published chunk lies within one message.
\<close>

definition in_message :: "nat \<Rightarrow> nat \<Rightarrow> nat \<Rightarrow> nat" where
  "in_message N i P = P - N * i"

definition chunk_send_ok :: "nat \<Rightarrow> nat \<Rightarrow> nat \<Rightarrow> (nat \<Rightarrow> byte) \<Rightarrow> chunk_shm \<Rightarrow> chunk_sender \<Rightarrow> bool" where
  "chunk_send_ok N i P B sh t \<longleftrightarrow>
     (let u = in_message N i P; off = unat (ck_buf_offset (ck_chan sh));
          own = (unat (cks_sent t) = u \<and> u < N \<and> ck_ref_count (ck_chan sh) = 0);
          cut = (own \<and> unat (cks_to_sent t) = min (N - u) (unat (ck_buf_size (ck_chan sh))))
      in unat (cks_size t) = N \<and> N \<le> length (cks_buf t) \<and> (\<forall>k < N. cks_buf t ! k = B (N * i + k)) \<and>
      N * i \<le> P \<and> u \<le> N \<and>
      (case cks_pc t of
         Ck_mutex \<Rightarrow> unat (cks_sent t) = u
       | Ck_size \<Rightarrow> unat (cks_sent t) = u
       | Ck_ref \<Rightarrow> unat (cks_sent t) = u \<and> u < N
       | Ck_min \<Rightarrow> own
       | Ck_addr \<Rightarrow> cut
       | Ck_copy dst m \<Rightarrow> cut \<and> dst = off \<and> m \<le> unat (cks_to_sent t) \<and> (\<forall>k < m. ck_data sh (off + k) = B (P + k))
       | Ck_one \<Rightarrow> cut \<and> (\<forall>k < unat (cks_to_sent t). ck_data sh (off + k) = B (P + k))
       | Ck_account \<Rightarrow> unat (cks_sent t) + unat (cks_to_sent t) = u
       | Ck_stamp \<Rightarrow> unat (cks_sent t) = u
       | Ck_ret v \<Rightarrow> v = 0 \<and> u = N
       | Ck_fault e \<Rightarrow> False))"

definition ckr_progress :: "chunk_receiver \<Rightarrow> nat" where
  "ckr_progress r = nat (ckr_received r) +
     (case ckr_pc r of Cr_copy src m \<Rightarrow> m | Cr_zero \<Rightarrow> nat (ckr_to_receive r) | _ \<Rightarrow> 0)"

definition chunk_recv_ok :: "nat \<Rightarrow> nat \<Rightarrow> nat \<Rightarrow> nat \<Rightarrow> (nat \<Rightarrow> byte) \<Rightarrow> size_t \<Rightarrow> chunk_receiver \<Rightarrow> bool" where
  "chunk_recv_ok N j P Q B off r \<longleftrightarrow>
     (let v = in_message N j Q; there = (v < N \<and> Q < P); taking = (there \<and> ckr_to_receive r = int (P - Q))
      in unat (ckr_size r) = N \<and> N \<le> length (ckr_buf r) \<and> N < 2 ^ 31 \<and> N * j \<le> Q \<and> v \<le> N \<and>
      ckr_received r = int v \<and>
      (case ckr_pc r of
         Cr_mutex \<Rightarrow> True
       | Cr_size \<Rightarrow> True
       | Cr_ref \<Rightarrow> v < N
       | Cr_less \<Rightarrow> there
       | Cr_take \<Rightarrow> there
       | Cr_addr \<Rightarrow> taking
       | Cr_copy src m \<Rightarrow> taking \<and> src = unat off \<and> m \<le> P - Q
       | Cr_zero \<Rightarrow> taking
       | Cr_dec \<Rightarrow> True
       | Cr_ret x \<Rightarrow> x = 0 \<and> v = N
       | Cr_fault e \<Rightarrow> False) \<and>
      (\<forall>k < ckr_progress r. ckr_buf r ! k = B (N * j + k)))"

definition chunk_shared :: "nat \<Rightarrow> (nat \<Rightarrow> byte) \<Rightarrow> nat \<Rightarrow> nat \<Rightarrow> chunk_sys \<Rightarrow> bool" where
  "chunk_shared N B P Q s \<longleftrightarrow>
     (let sh = cy_shm s; ch = ck_chan sh; off = unat (ck_buf_offset ch); S = unat (ck_buf_size ch);
          dec = (ckr_pc (cy_rcv s) = Cr_dec)
      in ck_mutex sh = 0 \<and> 0 < S \<and> off + S \<le> unat CHUNK_DATA_SECTION_SIZE \<and>
      Q \<le> P \<and> P \<le> Q + S \<and> P \<le> N * (Q div N) + N \<and> (dec \<longrightarrow> P = Q) \<and>
      ck_ref_count ch = (if Q < P \<or> dec then 1 else 0) \<and>
      unat (ck_data_size ch) = (if cks_pc (cy_snd s) = Ck_account then 0 else P - Q) \<and>
      (cks_pc (cy_snd s) = Ck_account \<longrightarrow> P = Q + unat (cks_to_sent (cy_snd s)) \<and> Q < P \<and>
         ckr_pc (cy_rcv s) \<in> {Cr_mutex, Cr_size, Cr_ref, Cr_ret 0}) \<and>
      (\<forall>k < P - Q. ck_data sh (off + k) = B (Q + k)))"

definition chunk_inv_at :: "nat \<Rightarrow> nat \<Rightarrow> nat \<Rightarrow> (nat \<Rightarrow> byte) \<Rightarrow> nat \<Rightarrow> nat \<Rightarrow> chunk_sys \<Rightarrow> bool" where
  "chunk_inv_at N i j B P Q s \<longleftrightarrow>
     chunk_send_ok N i P B (cy_shm s) (cy_snd s) \<and>
     chunk_recv_ok N j P Q B (ck_buf_offset (ck_chan (cy_shm s))) (cy_rcv s) \<and> chunk_shared N B P Q s"

definition chunk_inv :: "nat \<Rightarrow> nat \<Rightarrow> nat \<Rightarrow> (nat \<Rightarrow> byte) \<Rightarrow> chunk_sys \<Rightarrow> bool" where
  "chunk_inv N i j B s \<longleftrightarrow> 0 < N \<and> (\<exists>P Q. chunk_inv_at N i j B P Q s)"

text \<open>A session starts with an empty channel and a message of \<open>N\<close> bytes.\<close>

definition chunk_begin :: "nat \<Rightarrow> byte list \<Rightarrow> chunk_sys \<Rightarrow> bool" where
  "chunk_begin N m s \<longleftrightarrow>
     (let t = cy_snd s; r = cy_rcv s; ch = ck_chan (cy_shm s) in
      t = chunk_send_call m (cks_size t) \<and> r = chunk_recv_call (ckr_buf r) (ckr_size r) \<and>
      unat (cks_size t) = N \<and> ckr_size r = cks_size t \<and> 0 < N \<and> N < 2 ^ 31 \<and> N \<le> length (ckr_buf r) \<and>
      ck_mutex (cy_shm s) = 0 \<and> ck_ref_count ch = 0 \<and> ck_data_size ch = 0 \<and> 0 < unat (ck_buf_size ch) \<and>
      unat (ck_buf_offset ch) + unat (ck_buf_size ch) \<le> unat CHUNK_DATA_SECTION_SIZE)"

definition chunk_sent :: "chunk_sys \<Rightarrow> bool" where
  "chunk_sent s \<longleftrightarrow> (case cks_pc (cy_snd s) of Ck_ret v \<Rightarrow> True | _ \<Rightarrow> False)"

definition chunk_received :: "chunk_sys \<Rightarrow> bool" where
  "chunk_received s \<longleftrightarrow> ckr_pc (cy_rcv s) = Cr_ret 0"

definition chunk_next_send :: "byte list \<Rightarrow> chunk_sys \<Rightarrow> chunk_sys" where
  "chunk_next_send m s = s\<lparr>cy_snd := chunk_send_call m (cks_size (cy_snd s))\<rparr>"

definition chunk_next_recv :: "chunk_sys \<Rightarrow> chunk_sys" where
  "chunk_next_recv s = s\<lparr>cy_rcv := chunk_recv_call (ckr_buf (cy_rcv s)) (ckr_size (cy_rcv s))\<rparr>"

definition chunk_delivered :: "chunk_sys \<Rightarrow> byte list" where
  "chunk_delivered s = take (ckr_progress (cy_rcv s)) (ckr_buf (cy_rcv s))"

definition chunk_fetch :: "chunk_sys \<Rightarrow> byte list" where
  "chunk_fetch s = take (unat (ckr_size (cy_rcv s))) (ckr_buf (cy_rcv s))"

fun cks_rank :: "cks_pc \<Rightarrow> nat" where
  "cks_rank (Ck_copy dst j) = (if j = 0 then 1 else 15)"
| "cks_rank Ck_one = 14"
| "cks_rank Ck_account = 13"
| "cks_rank Ck_stamp = 12"
| "cks_rank Ck_mutex = 11"
| "cks_rank Ck_size = 10"
| "cks_rank Ck_ref = 9"
| "cks_rank Ck_min = 3"
| "cks_rank Ck_addr = 2"
| "cks_rank _ = 0"

fun ckr_rank :: "ckr_pc \<Rightarrow> nat" where
  "ckr_rank (Cr_copy src j) = (if j = 0 then 1 else 15)"
| "ckr_rank Cr_zero = 14"
| "ckr_rank Cr_dec = 13"
| "ckr_rank Cr_mutex = 12"
| "ckr_rank Cr_size = 11"
| "ckr_rank Cr_ref = 10"
| "ckr_rank Cr_less = 9"
| "ckr_rank Cr_take = 8"
| "ckr_rank Cr_addr = 2"
| "ckr_rank _ = 0"

definition cks_work :: "chunk_sender \<Rightarrow> nat" where
  "cks_work t =
     (unat (cks_size t) - unat (cks_sent t) -
       (case cks_pc t of Ck_copy dst j \<Rightarrow> j | Ck_one \<Rightarrow> unat (cks_to_sent t) | Ck_account \<Rightarrow> unat (cks_to_sent t) | _ \<Rightarrow> 0)) * 20 +
     cks_rank (cks_pc t)"

definition ckr_work :: "chunk_receiver \<Rightarrow> nat" where
  "ckr_work r = (unat (ckr_size r) - ckr_progress r) * 20 + ckr_rank (ckr_pc r)"

definition chunk_work :: "chunk_sys \<Rightarrow> nat" where
  "chunk_work s = cks_work (cy_snd s) + ckr_work (cy_rcv s)"

abbreviation chunk_session_step :: "chunk_sys session \<Rightarrow> chunk_sys session \<Rightarrow> bool" where
  "chunk_session_step \<equiv>
     session_step chunk_ordered_step chunk_sent chunk_received chunk_next_send chunk_next_recv chunk_fetch"

section \<open>The invariant is kept\<close>

lemma unat_chunk_data_size [simp]: "unat CHUNK_DATA_SECTION_SIZE = 4192480"
  by (simp add: CHUNK_DATA_SECTION_SIZE_def chunk_section_layout_def chunk_channel_layout_def channel_key_layout_def
      c_layout ivshmem_consts size_of_int_def)

lemma upd_chunk_sel [simp]:
  "ck_chan (upd_chunk f sh) = f (ck_chan sh)" "ck_data (upd_chunk f sh) = ck_data sh" "ck_mutex (upd_chunk f sh) = ck_mutex sh"
  by (simp_all add: upd_chunk_def)

lemma int_of_size_small:
  assumes "unat w < 2 ^ 31"
  shows "int_of_size w = int (unat w)"
proof -
  have "uint w < 2 ^ 31" using assms by (metis of_nat_less_numeral_power_cancel_iff uint_nat)
  moreover have "- (2 ^ 31) \<le> uint w" by (rule order_trans [OF _ uint_ge_0]) simp
  ultimately have "take_bit 32 (uint w) = uint w" "signed_take_bit 31 (uint w) = uint w"
    by (auto intro: take_bit_int_eq_self signed_take_bit_int_eq_self)
  then show ?thesis by (simp add: int_of_size_def sint_uint unsigned_ucast_eq)
qed

lemma in_message_eq: "N * i \<le> P \<Longrightarrow> N * i + in_message N i P = P" and in_message_0 [simp]: "in_message N 0 P = P"
  by (simp_all add: in_message_def)

lemma in_message_div: "N * i \<le> P \<Longrightarrow> in_message N i P < N \<Longrightarrow> P div N = i"
  by (rule div_nat_eqI) (auto simp: in_message_def)

lemmas chunk_ok_defs = chunk_inv_at_def chunk_send_ok_def chunk_shared_def Let_def
lemmas chunk_recv_defs = chunk_inv_at_def chunk_recv_ok_def chunk_shared_def Let_def ckr_progress_def

lemma chunk_recv_ok_mono:
  assumes "chunk_recv_ok N j P Q B off r" and "ckr_pc r \<in> {Cr_mutex, Cr_size, Cr_ref, Cr_dec, Cr_ret 0}"
  shows "chunk_recv_ok N j P' Q B off r"
  using assms by (auto simp: chunk_recv_ok_def Let_def)

lemma chunk_recv_idle:
  assumes "chunk_recv_ok N j P Q B off r" and "P = Q" and "ckr_pc r \<noteq> Cr_dec"
  shows "ckr_pc r \<in> {Cr_mutex, Cr_size, Cr_ref, Cr_ret 0}"
  using assms by (auto simp: chunk_recv_ok_def Let_def split: ckr_pc.splits)

lemma chunk_send_cases:
  assumes inv: "chunk_inv_at N i j B P Q s" and step: "chunk_send_step now (cy_snd s) (cy_shm s) = (t', sh')"
    and pc: "cks_pc (cy_snd s) \<noteq> Ck_one" "cks_pc (cy_snd s) \<noteq> Ck_account" "\<And>d m. cks_pc (cy_snd s) \<noteq> Ck_copy d m"
  shows "chunk_inv_at N i j B P Q (s\<lparr>cy_snd := t', cy_shm := sh'\<rparr>)"
proof (cases "cks_pc (cy_snd s)")
  case Ck_mutex
  then show ?thesis using inv step by (auto simp: chunk_send_step_def chunk_ok_defs)
next
  case Ck_size
  then show ?thesis using inv step by (auto simp: chunk_send_step_def chunk_ok_defs word_le_nat_alt split: if_splits)
next
  case Ck_ref
  then show ?thesis using inv step by (auto simp: chunk_send_step_def chunk_ok_defs split: if_splits)
next
  case Ck_min
  then have "unat (cks_size (cy_snd s) - cks_sent (cy_snd s)) = N - (in_message N i P)"
    using inv by (subst unat_sub_no_wrap) (auto simp: chunk_ok_defs)
  then have cut: "unat (min (cks_size (cy_snd s) - cks_sent (cy_snd s)) x) = min (N - (in_message N i P)) (unat x)" for x
    by (simp add: min_def word_le_nat_alt)
  have "t' = (cy_snd s)\<lparr>cks_pc := Ck_addr,
      cks_to_sent := min (cks_size (cy_snd s) - cks_sent (cy_snd s)) (ck_buf_size (ck_chan (cy_shm s)))\<rparr>" "sh' = cy_shm s"
    using step Ck_min by (auto simp: chunk_send_step_def Let_def)
  then show ?thesis using inv Ck_min by (simp add: chunk_ok_defs cut)
next
  case Ck_addr
  then show ?thesis using inv step by (auto simp: chunk_send_step_def chunk_ok_defs)
next
  case Ck_stamp
  then show ?thesis using inv step by (auto simp: chunk_send_step_def chunk_ok_defs)
qed (use inv step pc in \<open>simp_all add: chunk_send_step_def chunk_ok_defs\<close>)

lemma chunk_send_copy_inv:
  assumes inv: "chunk_inv_at N i j B P Q s" and step: "chunk_send_step now (cy_snd s) (cy_shm s) = (t', sh')"
    and pc: "cks_pc (cy_snd s) = Ck_copy d m"
  shows "chunk_inv_at N i j B P Q (s\<lparr>cy_snd := t', cy_shm := sh'\<rparr>)"
proof -
  let ?t = "cy_snd s" and ?sh = "cy_shm s"
  have o: "unat (cks_sent ?t) = in_message N i P" "in_message N i P < N" "ck_ref_count (ck_chan ?sh) = 0" "d = unat (ck_buf_offset (ck_chan ?sh))"
    "unat (cks_to_sent ?t) = min (N - (in_message N i P)) (unat (ck_buf_size (ck_chan ?sh)))" "m \<le> unat (cks_to_sent ?t)"
    and sz: "N \<le> length (cks_buf ?t)" "\<forall>k < N. cks_buf ?t ! k = B (N * i + k)" "N * i \<le> P"
    and S: "d + unat (ck_buf_size (ck_chan ?sh)) \<le> unat CHUNK_DATA_SECTION_SIZE"
    using inv pc by (auto simp: chunk_ok_defs)
  have "\<not> Q < P" using inv o(3) by (auto simp: chunk_shared_def chunk_inv_at_def Let_def split: if_splits)
  then have PQ: "P = Q" using inv by (simp add: chunk_shared_def chunk_inv_at_def Let_def)
  show ?thesis
  proof (cases "m < unat (cks_to_sent ?t)")
    case True
    then have "\<not> (length (cks_buf ?t) \<le> unat (cks_sent ?t) + m \<or> unat CHUNK_DATA_SECTION_SIZE \<le> d + m)"
      using o sz S by auto
    then have e: "t' = ?t\<lparr>cks_pc := Ck_copy d (Suc m)\<rparr>"
       "sh' = ?sh\<lparr>ck_data := (ck_data ?sh)(d + m := cks_buf ?t ! (unat (cks_sent ?t) + m))\<rparr>"
      using step pc True by (auto simp: chunk_send_step_def Let_def)
    have "m < N - (in_message N i P)" using True o(5) by simp
    then have "in_message N i P + m < N" using o(2) by linarith
    then have "cks_buf ?t ! (in_message N i P + m) = B (P + m)"
      using sz(2) in_message_eq [OF sz(3)] by (metis add.assoc)
    then show ?thesis using inv pc True o(1,4) PQ by (simp add: e chunk_ok_defs less_Suc_eq)
  next
    case False
    then have e: "t' = ?t\<lparr>cks_pc := Ck_one\<rparr>" "sh' = ?sh" using step pc by (simp_all add: chunk_send_step_def Let_def)
    have m: "m = unat (cks_to_sent ?t)" using False o(6) by simp
    show ?thesis using inv pc by (simp add: e chunk_ok_defs m)
  qed
qed

lemma chunk_send_publish_inv:
  assumes inv: "chunk_inv_at N i j B P Q s" and step: "chunk_send_step now (cy_snd s) (cy_shm s) = (t', sh')"
    and pc: "cks_pc (cy_snd s) = Ck_one"
  shows "chunk_inv_at N i j B (P + unat (cks_to_sent (cy_snd s))) Q (s\<lparr>cy_snd := t', cy_shm := sh'\<rparr>)"
proof -
  let ?t = "cy_snd s" and ?sh = "cy_shm s" and ?P = "P + unat (cks_to_sent (cy_snd s))"
  have e: "t' = ?t\<lparr>cks_pc := Ck_account\<rparr>" "sh' = upd_chunk (\<lambda>c. c\<lparr>ck_ref_count := 1\<rparr>) ?sh"
    using step pc by (simp_all add: chunk_send_step_def Let_def)
  have t: "chunk_send_ok N i P B ?sh ?t" and r: "chunk_recv_ok N j P Q B (ck_buf_offset (ck_chan ?sh)) (cy_rcv s)"
    and h: "chunk_shared N B P Q s"
    using inv by (simp_all add: chunk_inv_at_def)
  have o: "unat (cks_sent ?t) = in_message N i P" "in_message N i P < N" "ck_ref_count (ck_chan ?sh) = 0" "N * i \<le> P"
    "unat (cks_to_sent ?t) = min (N - (in_message N i P)) (unat (ck_buf_size (ck_chan ?sh)))"
    using t pc by (simp_all add: chunk_send_ok_def Let_def)
  have PQ: "P = Q" "ckr_pc (cy_rcv s) \<noteq> Cr_dec" "0 < unat (ck_buf_size (ck_chan ?sh))"
    using h o(3) by (auto simp: chunk_shared_def Let_def split: if_splits)
  have idle: "ckr_pc (cy_rcv s) \<in> {Cr_mutex, Cr_size, Cr_ref, Cr_ret 0}" by (rule chunk_recv_idle [OF r PQ(1,2)])
  have "Q div N = i" using in_message_div [OF o(4,2)] PQ(1) by simp
  moreover have n: "in_message N i ?P = in_message N i P + unat (cks_to_sent ?t)" using o(4) by (simp add: in_message_def)
  moreover have P: "in_message N i ?P \<le> N" "?P \<le> N * i + N" "P < ?P" using o(2,5) PQ(3) in_message_eq [OF o(4)] unfolding n by auto
  ultimately have "chunk_shared N B ?P Q (s\<lparr>cy_snd := t', cy_shm := sh'\<rparr>)"
    using h t pc idle PQ(1) o(5) by (auto simp: e chunk_shared_def chunk_send_ok_def Let_def)
  moreover have "chunk_recv_ok N j ?P Q B (ck_buf_offset (ck_chan sh')) (cy_rcv s)"
    using chunk_recv_ok_mono [OF r] idle by (auto simp: e)
  moreover have "chunk_send_ok N i ?P B sh' t'"
    using t pc P(1) n by (simp add: e chunk_send_ok_def Let_def)
  ultimately show ?thesis by (simp add: chunk_inv_at_def)
qed

lemma chunk_send_account_inv:
  assumes inv: "chunk_inv_at N i j B P Q s" and step: "chunk_send_step now (cy_snd s) (cy_shm s) = (t', sh')"
    and pc: "cks_pc (cy_snd s) = Ck_account"
  shows "chunk_inv_at N i j B P Q (s\<lparr>cy_snd := t', cy_shm := sh'\<rparr>)"
proof -
  let ?t = "cy_snd s" and ?sh = "cy_shm s"
  have e: "t' = ?t\<lparr>cks_pc := Ck_stamp, cks_sent := cks_sent ?t + cks_to_sent ?t\<rparr>"
    "sh' = upd_chunk (\<lambda>c. c\<lparr>ck_data_size := ck_data_size c + cks_to_sent ?t\<rparr>) ?sh"
    using step pc by (simp_all add: chunk_send_step_def Let_def)
  have o: "unat (cks_sent ?t) + unat (cks_to_sent ?t) = in_message N i P" "unat (cks_size ?t) = N" "in_message N i P \<le> N"
    "unat (ck_data_size (ck_chan ?sh)) = 0" "P = Q + unat (cks_to_sent ?t)"
    using inv pc by (auto simp: chunk_ok_defs)
  have "unat (cks_size ?t) < 2 ^ 64" using unsigned_less [of "cks_size ?t"] by simp
  then have "unat (cks_sent ?t + cks_to_sent ?t) = in_message N i P"
    using o by (subst unat_add_no_wrap) simp_all
  moreover have "ck_data_size (ck_chan ?sh) + cks_to_sent ?t = cks_to_sent ?t" using o(4) by (simp add: unat_eq_0)
  ultimately show ?thesis using inv pc o(5) by (auto simp: e chunk_ok_defs)
qed

lemma chunk_send_inv:
  assumes "chunk_inv_at N i j B P Q s" and "chunk_send_step now (cy_snd s) (cy_shm s) = (t', sh')"
  shows "\<exists>P'. chunk_inv_at N i j B P' Q (s\<lparr>cy_snd := t', cy_shm := sh'\<rparr>)"
  using chunk_send_cases [OF assms] chunk_send_copy_inv [OF assms] chunk_send_publish_inv [OF assms]
    chunk_send_account_inv [OF assms] by blast

lemma chunk_send_ok_frame:
  "chunk_send_ok N i P B sh t \<Longrightarrow> ck_data sh' = ck_data sh \<Longrightarrow>
   ck_buf_offset (ck_chan sh') = ck_buf_offset (ck_chan sh) \<Longrightarrow> ck_buf_size (ck_chan sh') = ck_buf_size (ck_chan sh) \<Longrightarrow>
   (ck_ref_count (ck_chan sh) = 0 \<Longrightarrow> ck_ref_count (ck_chan sh') = 0) \<Longrightarrow> chunk_send_ok N i P B sh' t"
  by (auto simp: chunk_send_ok_def Let_def split: cks_pc.splits)

lemma chunk_recv_cases:
  assumes inv: "chunk_inv_at N i j B P Q s" and step: "chunk_recv_step (cy_rcv s) (cy_shm s) = (r', sh')"
    and ord: "cks_pc (cy_snd s) \<noteq> Ck_account"
    and pc: "ckr_pc (cy_rcv s) \<noteq> Cr_zero" "ckr_pc (cy_rcv s) \<noteq> Cr_dec" "\<And>d m. ckr_pc (cy_rcv s) \<noteq> Cr_copy d m"
  shows "chunk_inv_at N i j B P Q (s\<lparr>cy_rcv := r', cy_shm := sh'\<rparr>)"
proof -
  let ?r = "cy_rcv s" and ?ch = "ck_chan (cy_shm s)"
  have t: "chunk_send_ok N i P B (cy_shm s) (cy_snd s)" using inv by (simp add: chunk_inv_at_def)
  have sz: "unat (ckr_size ?r) = N" "N < 2 ^ 31" "N * j \<le> Q" "in_message N j Q \<le> N" "ckr_received ?r = int (in_message N j Q)"
     "P \<le> N * (Q div N) + N" "unat (ck_data_size ?ch) = P - Q"
    using inv ord by (simp_all add: chunk_recv_defs)
  have u: "unat (size_of_int (ckr_received ?r)) = in_message N j Q" using sz by (subst unat_size_of_int) auto
  have fits: "P - Q \<le> N - (in_message N j Q) \<and> P - Q < 2 ^ 31" if "in_message N j Q < N"
  proof -
    have "Q div N = j" by (rule in_message_div [OF sz(3) that])
    then have "P \<le> N * j + N" using sz(6) by simp
    then show ?thesis using sz(2) that in_message_eq [OF sz(3)] by linarith
  qed
  show ?thesis
  proof (cases "ckr_pc ?r")
    case Cr_size
    then show ?thesis using inv step u sz(1) by (auto simp: chunk_recv_step_def chunk_recv_defs word_le_nat_alt split: if_splits)
  next
    case Cr_mutex
    then show ?thesis using inv step by (auto simp: chunk_recv_step_def chunk_recv_defs split: if_splits)
  next
    case Cr_ref
    then show ?thesis using inv step ord by (auto simp: chunk_recv_step_def chunk_recv_defs split: if_splits)
  next
    case Cr_less
    then have v: "in_message N j Q < N" using inv by (simp add: chunk_recv_defs)
    have "unat (ckr_size ?r - size_of_int (ckr_received ?r)) = N - (in_message N j Q)"
      using sz(1) u v by (subst unat_sub_no_wrap) auto
    then have "\<not> ckr_size ?r - size_of_int (ckr_received ?r) < ck_data_size ?ch"
      using fits [OF v] sz(7) by (simp add: word_less_nat_alt)
    then have "r' = ?r\<lparr>ckr_pc := Cr_take\<rparr>" "sh' = cy_shm s" using step Cr_less by (simp_all add: chunk_recv_step_def Let_def)
    then show ?thesis using inv Cr_less by (simp add: chunk_recv_defs)
  next
    case Cr_take
    then have v: "in_message N j Q < N" using inv by (simp add: chunk_recv_defs)
    have "int_of_size (ck_data_size ?ch) = int (P - Q)" using fits [OF v] sz(7) by (simp add: int_of_size_small)
    then have "r' = ?r\<lparr>ckr_pc := Cr_addr, ckr_to_receive := int (P - Q)\<rparr>" "sh' = cy_shm s"
      using step Cr_take by (simp_all add: chunk_recv_step_def Let_def)
    then show ?thesis using inv Cr_take by (simp add: chunk_recv_defs)
  next
    case Cr_addr
    then show ?thesis using inv step by (auto simp: chunk_recv_step_def chunk_recv_defs)
  qed (use inv step ord pc in \<open>simp_all add: chunk_recv_step_def chunk_recv_defs\<close>)
qed

lemma chunk_recv_copy_inv:
  assumes inv: "chunk_inv_at N i j B P Q s" and step: "chunk_recv_step (cy_rcv s) (cy_shm s) = (r', sh')"
    and pc: "ckr_pc (cy_rcv s) = Cr_copy d m"
  shows "chunk_inv_at N i j B P Q (s\<lparr>cy_rcv := r', cy_shm := sh'\<rparr>)"
proof -
  let ?r = "cy_rcv s" and ?sh = "cy_shm s" and ?v = "in_message N j Q"
  have o: "?v < N" "ckr_to_receive ?r = int (P - Q)" "d = unat (ck_buf_offset (ck_chan ?sh))" "m \<le> P - Q"
    "N \<le> length (ckr_buf ?r)" "N < 2 ^ 31" "N * j \<le> Q" "ckr_received ?r = int ?v" "P \<le> N * (Q div N) + N"
    and got: "\<forall>k < ?v + m. ckr_buf ?r ! k = B (N * j + k)"
    and S: "d + unat (ck_buf_size (ck_chan ?sh)) \<le> unat CHUNK_DATA_SECTION_SIZE" "P \<le> Q + unat (ck_buf_size (ck_chan ?sh))"
    and data: "\<forall>k < P - Q. ck_data ?sh (d + k) = B (Q + k)"
    using inv pc by (auto simp: chunk_recv_defs)
  have "Q div N = j" by (rule in_message_div [OF o(7,1)])
  then have PN: "P - Q \<le> N - ?v" using o(9) in_message_eq [OF o(7)] by simp
  then have n: "unat (size_of_int (ckr_to_receive ?r)) = P - Q" using o(2,6) by (subst unat_size_of_int) auto
  show ?thesis
  proof (cases "m < P - Q")
    case True
    then have b: "?v + m < length (ckr_buf ?r)" using PN o(1,5) by linarith
    then have "\<not> (length (ckr_buf ?r) \<le> nat (ckr_received ?r) + m \<or> unat CHUNK_DATA_SECTION_SIZE \<le> d + m)"
      using o(8) S True by auto
    then have e: "r' = ?r\<lparr>ckr_pc := Cr_copy d (Suc m), ckr_buf := (ckr_buf ?r)[?v + m := ck_data ?sh (d + m)]\<rparr>" "sh' = ?sh"
      using step pc True n o(8) by (auto simp: chunk_recv_step_def Let_def)
    have "ck_data ?sh (d + m) = B (N * j + (?v + m))" using data True in_message_eq [OF o(7)] by (simp add: add.assoc [symmetric])
    then have "\<forall>k < ?v + Suc m. (ckr_buf ?r)[?v + m := ck_data ?sh (d + m)] ! k = B (N * j + k)"
      using got b by (auto simp: nth_list_update less_Suc_eq)
    then show ?thesis using inv pc True o(8) by (simp add: e chunk_recv_defs)
  next
    case False
    then have "r' = ?r\<lparr>ckr_pc := Cr_zero\<rparr>" "sh' = ?sh" "m = P - Q"
      using step pc n o(4) by (simp_all add: chunk_recv_step_def Let_def)
    then show ?thesis using inv pc by (simp add: chunk_recv_defs nat_diff_distrib')
  qed
qed

lemma chunk_recv_zero_inv:
  assumes inv: "chunk_inv_at N i j B P Q s" and step: "chunk_recv_step (cy_rcv s) (cy_shm s) = (r', sh')"
    and ord: "cks_pc (cy_snd s) \<noteq> Ck_account" and pc: "ckr_pc (cy_rcv s) = Cr_zero"
  shows "chunk_inv_at N i j B P P (s\<lparr>cy_rcv := r', cy_shm := sh'\<rparr>)"
proof -
  let ?r = "cy_rcv s" and ?sh = "cy_shm s" and ?v = "in_message N j Q"
  have o: "?v < N" "ckr_to_receive ?r = int (P - Q)" "N < 2 ^ 31" "N * j \<le> Q" "ckr_received ?r = int ?v"
    "P \<le> N * (Q div N) + N" "Q < P"
    and got: "\<forall>k < ?v + (P - Q). ckr_buf ?r ! k = B (N * j + k)"
    using inv pc by (auto simp: chunk_recv_defs)
  have "Q div N = j" by (rule in_message_div [OF o(4,1)])
  moreover have v: "?v + (P - Q) = in_message N j P" using o(4,7) by (simp add: in_message_def)
  ultimately have PN: "in_message N j P \<le> N" using o(4,6) by (simp add: in_message_def)
  have "ckr_received ?r + ckr_to_receive ?r = int (in_message N j P)" using o(2,5) v by simp
  moreover have "in_c_int (int (in_message N j P))" using PN o(3) by (simp add: in_c_int_def)
  ultimately have e: "r' = ?r\<lparr>ckr_pc := Cr_dec, ckr_received := int (in_message N j P)\<rparr>"
    "sh' = upd_chunk (\<lambda>c. c\<lparr>ck_data_size := 0\<rparr>) ?sh"
    using step pc by (simp_all add: chunk_recv_step_def Let_def)
  have "chunk_send_ok N i P B sh' (cy_snd s)"
    using inv by (auto simp: e chunk_inv_at_def intro: chunk_send_ok_frame)
  moreover have "P \<le> N * (P div N) + N" using dividend_less_times_div [of N P] o(1) by (simp add: less_imp_le)
  ultimately show ?thesis using inv pc ord PN o(4,7) got [unfolded v] by (simp add: e chunk_recv_defs)
qed

lemma chunk_recv_dec_inv:
  assumes inv: "chunk_inv_at N i j B P Q s" and step: "chunk_recv_step (cy_rcv s) (cy_shm s) = (r', sh')"
    and ord: "cks_pc (cy_snd s) \<noteq> Ck_account" and pc: "ckr_pc (cy_rcv s) = Cr_dec"
  shows "chunk_inv_at N i j B P Q (s\<lparr>cy_rcv := r', cy_shm := sh'\<rparr>)"
proof -
  have "ck_ref_count (ck_chan (cy_shm s)) = 1" using inv pc by (simp add: chunk_recv_defs)
  then have e: "r' = (cy_rcv s)\<lparr>ckr_pc := Cr_mutex\<rparr>"
    "sh' = upd_chunk (\<lambda>c. c\<lparr>ck_ref_count := ck_ref_count c - 1\<rparr>) (cy_shm s)"
    using step pc by (simp_all add: chunk_recv_step_def in_c_int_def Let_def)
  have "chunk_send_ok N i P B sh' (cy_snd s)"
    using inv \<open>ck_ref_count _ = 1\<close> by (auto simp: e chunk_inv_at_def intro: chunk_send_ok_frame)
  then show ?thesis using inv pc ord by (simp add: e chunk_recv_defs)
qed

lemma chunk_inv_step: "chunk_inv N i j B s \<Longrightarrow> chunk_ordered_step s s' \<Longrightarrow> chunk_inv N i j B s'"
  unfolding chunk_inv_def
  using chunk_send_inv chunk_recv_cases chunk_recv_copy_inv chunk_recv_zero_inv chunk_recv_dec_inv
  by (elim chunk_ordered_step.cases conjE exE) (metis, metis)

section \<open>Sequences of calls\<close>

lemma chunk_send_call_iff:
  "t = chunk_send_call (cks_buf t) (cks_size t) \<longleftrightarrow> cks_pc t = Ck_mutex \<and> cks_sent t = 0 \<and> cks_to_sent t = 0"
  by (cases t) (auto simp: chunk_send_call_def)

lemma chunk_begin_inv:
  assumes "chunk_begin N m s" and "\<forall>k < N. m ! k = B k" and "length m = N"
  shows "chunk_inv N 0 0 B s"
proof -
  let ?t = "cy_snd s" and ?r = "cy_rcv s"
  have t: "?t = chunk_send_call m (cks_size ?t)" and r: "?r = chunk_recv_call (ckr_buf ?r) (ckr_size ?r)"
    using assms(1) unfolding chunk_begin_def Let_def by blast+
  have pc: "cks_pc ?t = Ck_mutex" "cks_sent ?t = 0" "cks_buf ?t = m"
    by (subst t, simp add: chunk_send_call_def)+
  have pc': "ckr_pc ?r = Cr_mutex" "ckr_received ?r = 0"
    by (subst r, simp add: chunk_recv_call_def)+
  have "chunk_inv_at N 0 0 B 0 0 s"
    using assms pc pc' by (simp add: chunk_begin_def chunk_ok_defs chunk_recv_defs)
  then show ?thesis using assms(1) unfolding chunk_inv_def by (auto simp: chunk_begin_def Let_def)
qed

lemma chunk_next_send_inv:
  assumes inv: "chunk_inv_at N i j B P Q s" and "chunk_sent s" and "length m = N" and "\<forall>k < N. m ! k = B (N * Suc i + k)"
  shows "chunk_inv_at N (Suc i) j B P Q (chunk_next_send m s)"
proof -
  obtain v where v: "cks_pc (cy_snd s) = Ck_ret v" using assms(2) by (auto simp: chunk_sent_def split: cks_pc.splits)
  then have "P = N * Suc i" "unat (cks_size (cy_snd s)) = N"
    using inv in_message_eq [of N i P] by (auto simp: chunk_ok_defs)
  then show ?thesis
    using inv v assms(3,4) by (simp add: chunk_next_send_def chunk_send_call_def chunk_ok_defs in_message_def)
qed

lemma chunk_next_recv_inv:
  assumes inv: "chunk_inv_at N i j B P Q s" and "chunk_received s"
  shows "chunk_inv_at N i (Suc j) B P Q (chunk_next_recv s)"
proof -
  have v: "ckr_pc (cy_rcv s) = Cr_ret 0" using assms(2) by (simp add: chunk_received_def)
  then have "Q = N * Suc j" using inv in_message_eq [of N j Q] by (auto simp: chunk_recv_defs)
  then show ?thesis
    using inv v by (auto simp: chunk_next_recv_def chunk_recv_call_def chunk_recv_defs in_message_def)
qed

lemma chunk_send_progress:
  assumes inv: "chunk_inv_at N i j B P Q s" and step: "chunk_send_step now (cy_snd s) (cy_shm s) = (t', sh')"
    and go: "\<not> chunk_sent s" "cks_pc (cy_snd s) = Ck_ref \<Longrightarrow> ck_ref_count (ck_chan (cy_shm s)) = 0"
  shows "cks_work t' < cks_work (cy_snd s)"
proof -
  let ?t = "cy_snd s"
  obtain P' where inv': "chunk_inv_at N i j B P' Q (s\<lparr>cy_snd := t', cy_shm := sh'\<rparr>)"
    using chunk_send_inv [OF inv step] by blast
  have nf: "cks_pc t' \<noteq> Ck_fault e" for e using inv' by (auto simp: chunk_ok_defs)
  have mx: "ck_mutex (cy_shm s) = 0" "cks_pc ?t \<noteq> Ck_fault e" for e using inv by (auto simp: chunk_ok_defs)
  have nr: "cks_pc ?t \<noteq> Ck_ret v" for v using go(1) by (auto simp: chunk_sent_def)
  show ?thesis
  proof (cases "cks_pc ?t")
    case (Ck_copy d m)
    then have o: "unat (cks_sent ?t) = in_message N i P" "unat (cks_to_sent ?t) \<le> N - in_message N i P"
       "in_message N i P < N" "m \<le> unat (cks_to_sent ?t)" "unat (cks_size ?t) = N" "0 < unat (cks_to_sent ?t)"
      using inv by (auto simp: chunk_ok_defs)
    show ?thesis
    proof (cases "m < unat (cks_to_sent ?t)")
      case True
      then have "t' = ?t\<lparr>cks_pc := Ck_copy d (Suc m)\<rparr>"
        using step Ck_copy nf [of OutOfBounds] by (auto simp: chunk_send_step_def Let_def split: if_splits)
      then show ?thesis using Ck_copy True o by (simp add: cks_work_def)
    next
      case False
      then have "t' = ?t\<lparr>cks_pc := Ck_one\<rparr>" using step Ck_copy by (auto simp: chunk_send_step_def Let_def)
      then show ?thesis using Ck_copy False o by (simp add: cks_work_def)
    qed
  next
    case Ck_account
    then have o: "unat (cks_sent ?t) + unat (cks_to_sent ?t) = in_message N i P" "in_message N i P \<le> N" "unat (cks_size ?t) = N"
      using inv by (auto simp: chunk_ok_defs)
    have "unat (cks_size ?t) < 2 ^ 64" using unsigned_less [of "cks_size ?t"] by simp
    then have "unat (cks_sent ?t + cks_to_sent ?t) = in_message N i P" using o by (subst unat_add_no_wrap) simp_all
    then show ?thesis using step Ck_account o by (auto simp: chunk_send_step_def cks_work_def Let_def)
  qed (use step go mx nr in \<open>auto simp: chunk_send_step_def cks_work_def Let_def split: if_splits\<close>)
qed

lemma chunk_recv_progress:
  assumes inv: "chunk_inv_at N i j B P Q s" and step: "chunk_recv_step (cy_rcv s) (cy_shm s) = (r', sh')"
    and ord: "cks_pc (cy_snd s) \<noteq> Ck_account"
    and go: "\<not> chunk_received s" "ckr_pc (cy_rcv s) = Cr_ref \<Longrightarrow> ck_ref_count (ck_chan (cy_shm s)) \<noteq> 0"
  shows "ckr_work r' < ckr_work (cy_rcv s)"
proof -
  let ?r = "cy_rcv s"
  have inv': "\<exists>Q'. chunk_inv_at N i j B P Q' (s\<lparr>cy_rcv := r', cy_shm := sh'\<rparr>)"
    using chunk_recv_cases [OF inv step ord] chunk_recv_copy_inv [OF inv step] chunk_recv_zero_inv [OF inv step ord]
      chunk_recv_dec_inv [OF inv step ord] by blast
  have nf: "ckr_pc r' \<noteq> Cr_fault e" for e using inv' by (auto simp: chunk_recv_defs)
  have mx: "ck_mutex (cy_shm s) = 0" "ckr_pc ?r \<noteq> Cr_fault e" "ckr_pc ?r = Cr_ret v \<Longrightarrow> v = 0" for e v
    using inv by (auto simp: chunk_recv_defs)
  have nr: "ckr_pc ?r \<noteq> Cr_ret v" for v using go(1) mx(3) by (auto simp: chunk_received_def)
  show ?thesis
  proof (cases "ckr_pc ?r")
    case (Cr_copy d m)
    then have o: "in_message N j Q < N" "ckr_to_receive ?r = int (P - Q)" "m \<le> P - Q" "ckr_received ?r = int (in_message N j Q)"
      "unat (ckr_size ?r) = N" "N < 2 ^ 31" "N * j \<le> Q" "P \<le> N * (Q div N) + N" "Q < P"
      using inv by (auto simp: chunk_recv_defs)
    have "P - Q \<le> N - in_message N j Q"
      using o(8) in_message_div [OF o(7,1)] in_message_eq [OF o(7)] by simp
    then have n: "in_message N j Q + (P - Q) \<le> N" "unat (size_of_int (ckr_to_receive ?r)) = P - Q"
      using o(1,2,6) by (simp, subst unat_size_of_int) auto
    show ?thesis
    proof (cases "m < P - Q")
      case True
      then have "\<exists>x. r' = ?r\<lparr>ckr_pc := Cr_copy d (Suc m), ckr_buf := x\<rparr>"
        using step Cr_copy n(2) nf [of OutOfBounds] by (auto simp: chunk_recv_step_def Let_def split: if_splits)
      then show ?thesis using Cr_copy True o(4,5) n(1) by (auto simp: ckr_work_def ckr_progress_def)
    next
      case False
      then have "r' = ?r\<lparr>ckr_pc := Cr_zero\<rparr>" using step Cr_copy n(2) by (auto simp: chunk_recv_step_def Let_def)
      then show ?thesis using Cr_copy False o(2-5,9) n(1) by (simp add: ckr_work_def ckr_progress_def nat_diff_distrib')
    qed
  next
    case Cr_zero
    then have o: "ckr_to_receive ?r = int (P - Q)" "ckr_received ?r = int (in_message N j Q)"
      using inv by (auto simp: chunk_recv_defs)
    have "r' = ?r\<lparr>ckr_pc := Cr_dec, ckr_received := ckr_received ?r + ckr_to_receive ?r\<rparr>"
      using step Cr_zero nf [of SignedOverflow] by (auto simp: chunk_recv_step_def Let_def split: if_splits)
    then show ?thesis using Cr_zero o by (simp add: ckr_work_def ckr_progress_def nat_add_distrib)
  next
    case Cr_dec
    then show ?thesis using step nf [of SignedOverflow]
      by (auto simp: chunk_recv_step_def ckr_work_def ckr_progress_def Let_def split: if_splits)
  qed (use step go mx nr in \<open>auto simp: chunk_recv_step_def ckr_work_def ckr_progress_def Let_def split: if_splits\<close>)
qed

lemma chunk_progress_at:
  assumes inv: "chunk_inv_at N i j B P Q s" and N: "0 < N"
    and go: "\<not> chunk_received s" "\<not> (chunk_sent s \<and> i < j)"
  shows "\<exists>s'. chunk_ordered_step s s' \<and> chunk_work s' < chunk_work s"
proof -
  let ?t = "cy_snd s" and ?r = "cy_rcv s" and ?ch = "ck_chan (cy_shm s)"
  obtain t' sh1 where t': "chunk_send_step 0 ?t (cy_shm s) = (t', sh1)" by fastforce
  obtain r' sh2 where r': "chunk_recv_step ?r (cy_shm s) = (r', sh2)" by fastforce
  show ?thesis
  proof (cases "\<not> chunk_sent s \<and> (cks_pc ?t = Ck_ref \<longrightarrow> ck_ref_count ?ch = 0)")
    case True
    then have "cks_work t' < cks_work ?t" using chunk_send_progress [OF inv t'] by blast
    then show ?thesis
      using ordered_send [OF t'] by (intro exI [of _ "s\<lparr>cy_snd := t', cy_shm := sh1\<rparr>"] conjI) (simp_all add: chunk_work_def)
  next
    case blocked: False
    have ord: "cks_pc ?t \<noteq> Ck_account" using blocked by (auto simp: chunk_sent_def)
    have "ck_ref_count ?ch \<noteq> 0" if w: "ckr_pc ?r = Cr_ref"
    proof
      assume e: "ck_ref_count ?ch = 0"
      then have "chunk_sent s" using blocked by blast
      then obtain v where "cks_pc ?t = Ck_ret v" by (auto simp: chunk_sent_def split: cks_pc.splits)
      then have P: "P = N * Suc i" using inv in_message_eq [of N i P] by (auto simp: chunk_ok_defs)
      have q: "N * j \<le> Q" "in_message N j Q < N" "P \<le> Q" using inv w e by (auto simp: chunk_recv_defs split: if_splits)
      then have "N * Suc i < N * j + N" using P in_message_eq [OF q(1)] by linarith
      then have "N * Suc i < N * Suc j" by (metis add.commute mult_Suc_right)
      then have "i < j" by (simp only: nat_mult_less_cancel_disj Suc_less_eq)
      then show False using go(2) \<open>chunk_sent s\<close> by blast
    qed
    then have "ckr_work r' < ckr_work ?r" using chunk_recv_progress [OF inv r' ord go(1)] by blast
    then show ?thesis
      using ordered_recv [OF ord r'] by (intro exI [of _ "s\<lparr>cy_rcv := r', cy_shm := sh2\<rparr>"] conjI) (simp_all add: chunk_work_def)
  qed
qed

lemma chunk_taken:
  assumes inv: "chunk_inv_at N i j B P Q s"
  shows "length (chunk_delivered s) = ckr_progress (cy_rcv s)" and "N * j + ckr_progress (cy_rcv s) \<le> P" and "P \<le> N * Suc i"
    and "k < ckr_progress (cy_rcv s) \<Longrightarrow> ckr_buf (cy_rcv s) ! k = B (N * j + k)"
    and "chunk_received s \<Longrightarrow> ckr_progress (cy_rcv s) = N"
    and "unat (cks_size (cy_snd s)) = N" and "unat (ckr_size (cy_rcv s)) = N"
proof -
  let ?r = "cy_rcv s" and ?v = "in_message N j Q"
  have q: "N * j \<le> Q" "?v \<le> N" "Q \<le> P" "P \<le> N * (Q div N) + N" "N \<le> length (ckr_buf ?r)" "ckr_received ?r = int ?v"
    using inv by (simp_all add: chunk_recv_defs)
  have c: "ckr_progress ?r = ?v \<or> (ckr_progress ?r \<le> ?v + (P - Q) \<and> ?v < N)"
    using inv by (auto simp: chunk_recv_defs nat_diff_distrib' split: ckr_pc.splits)
  have "?v + (P - Q) \<le> N" if "?v < N" using q in_message_div [OF q(1) that] in_message_eq [OF q(1)] that by simp
  then have n: "ckr_progress ?r \<le> N" using c q(2) by linarith
  then show "length (chunk_delivered s) = ckr_progress ?r" using q(5) by (simp add: chunk_delivered_def)
  show "N * j + ckr_progress ?r \<le> P" using c q(3) in_message_eq [OF q(1)] by linarith
  show "P \<le> N * Suc i" using inv in_message_eq [of N i P] by (simp add: chunk_ok_defs)
  show "chunk_received s \<Longrightarrow> ckr_progress ?r = N"
    using inv by (auto simp: chunk_received_def chunk_recv_defs)
qed (use inv in \<open>simp_all add: chunk_recv_ok_def chunk_ok_defs\<close>)

interpretation chunk_calls: call_transport chunk_ordered_step chunk_begin chunk_inv chunk_sent chunk_received chunk_next_send
  chunk_next_recv chunk_fetch chunk_delivered chunk_work "\<lambda>N. N * 20 + 12"
proof unfold_locales
  show "chunk_inv N 0 0 B s" if "chunk_begin N m s" "length m = N" "\<forall>k < N. m ! k = B k" for N m s B
    using that(1,3,2) by (rule chunk_begin_inv)
  show "chunk_inv N i j B t" if "chunk_inv N i j B s" "chunk_ordered_step s t" for N i j B s t
    using that by (rule chunk_inv_step)
  show "chunk_inv N (Suc i) j B (chunk_next_send m s)"
    if "chunk_inv N i j B s" "chunk_sent s" "length m = N" "\<forall>k < N. m ! k = B (N * Suc i + k)" for N i j B s m
    using that chunk_next_send_inv unfolding chunk_inv_def by blast
  show "chunk_inv N i (Suc j) B (chunk_next_recv s)" if "chunk_inv N i j B s" "chunk_received s" for N i j B s
    using that chunk_next_recv_inv unfolding chunk_inv_def by blast
  fix N i j B s
  assume "chunk_inv N i j B s"
  then obtain P Q where inv: "chunk_inv_at N i j B P Q s" and N: "0 < N" by (auto simp: chunk_inv_def)
  note t = chunk_taken [OF inv]
  show "0 < N" by (rule N)
  show "N * j + length (chunk_delivered s) \<le> N * Suc i" using order_trans [OF t(2,3)] t(1) by simp
  show "chunk_delivered s ! k = B (N * j + k)" if "k < length (chunk_delivered s)" for k
    using that t(1,4) by (simp add: chunk_delivered_def)
  show "length (chunk_delivered s) = N \<and> chunk_fetch s = chunk_delivered s" if "chunk_received s"
    using that t(1,5,7) by (simp add: chunk_fetch_def chunk_delivered_def)
  show "\<exists>t. chunk_ordered_step s t \<and> chunk_work t < chunk_work s" if "\<not> chunk_received s" "\<not> (chunk_sent s \<and> i < j)"
    using that by (rule chunk_progress_at [OF inv N])
  show "chunk_work (chunk_next_send m s) \<le> chunk_work s + (N * 20 + 12)" if "chunk_sent s" for m
    using t(6) by (simp add: chunk_work_def chunk_next_send_def cks_work_def chunk_send_call_def)
  show "chunk_work (chunk_next_recv s) \<le> chunk_work s + (N * 20 + 12)" if "chunk_received s"
    using t(7) by (simp add: chunk_work_def chunk_next_recv_def ckr_work_def ckr_progress_def chunk_recv_call_def)
qed

lemma chunk_calls_returns:
  assumes "session_inv chunk_inv s"
  shows "cks_pc (cy_snd (se_sys s)) = Ck_ret v \<Longrightarrow> v = 0" and "ckr_pc (cy_rcv (se_sys s)) = Cr_ret v \<Longrightarrow> v = 0"
    and "cks_pc (cy_snd (se_sys s)) \<noteq> Ck_fault e" and "ckr_pc (cy_rcv (se_sys s)) \<noteq> Cr_fault e"
    and "se_got s = take (length (se_got s)) (se_msgs s)"
  using assms
  by (auto simp: session_inv_def chunk_inv_def chunk_inv_at_def chunk_send_ok_def chunk_recv_ok_def Let_def)

text \<open>A message of three bytes over a channel just initialised, and a second one.\<close>

definition chunk_demo :: chunk_sys where
  "chunk_demo =
     \<lparr>cy_snd = chunk_send_call [5, 6, 7] 3, cy_rcv = chunk_recv_call [0, 0, 0] 3,
      cy_shm =
        \<lparr>ck_mutex = 0,
         ck_chan = chunk_init_channel 0 0 1
           \<lparr>ck_id = 0, ck_key = zero_key, ck_buf_offset = 0, ck_buf_size = 0, ck_data_size = 0, ck_ref_count = 0,
            ck_sent_count = 0, ck_last_sent_at = 0\<rparr> zero_key,
         ck_data = (\<lambda>_. 0)\<rparr>\<rparr>"

definition chunk_session_demo :: "chunk_sys session" where
  "chunk_session_demo = \<lparr>se_sys = chunk_demo, se_msgs = [[5, 6, 7], [8, 9, 10]], se_next = 1, se_got = []\<rparr>"

lemmas chunk_demo_defs = chunk_demo_def chunk_send_call_def chunk_recv_call_def chunk_init_channel_def ivshmem_consts
  size_of_int_def

lemma chunk_session_demo_init: "session_init chunk_begin chunk_session_demo"
  by (simp add: session_init_def chunk_session_demo_def chunk_begin_def chunk_demo_defs Let_def)

section \<open>The lost chunk\<close>

text \<open>The sender takes the steps \<open>True\<close> of a schedule, the receiver the others.\<close>

fun chunk_run :: "bool list \<Rightarrow> chunk_sys \<Rightarrow> chunk_sys" where
  "chunk_run [] s = s"
| "chunk_run (True # ps) s =
     (let (t, sh) = chunk_send_step 0 (cy_snd s) (cy_shm s) in chunk_run ps (s\<lparr>cy_snd := t, cy_shm := sh\<rparr>))"
| "chunk_run (False # ps) s =
     (let (r, sh) = chunk_recv_step (cy_rcv s) (cy_shm s) in chunk_run ps (s\<lparr>cy_rcv := r, cy_shm := sh\<rparr>))"

lemma chunk_run_steps: "steps chunk_step s (chunk_run ps s)"
proof (induction ps s rule: chunk_run.induct)
  case (2 ps s)
  then show ?case by (auto split: prod.split intro: steps_step chunk_send)
next
  case (3 ps s)
  then show ?case by (auto split: prod.split intro: steps_step chunk_recv)
qed (auto intro: steps_refl)

text \<open>
  The sender raises \<^verbatim>\<open>ref_count\<close>; the receiver takes what \<^verbatim>\<open>data_size\<close> says, no bytes, and
  lowers \<^verbatim>\<open>ref_count\<close>; the sender goes on and returns.
\<close>

definition chunk_lost :: "bool list" where
  "chunk_lost =
     [True, True, True, True, True, True, True, True, True, True,
      False, False, False, False, False, False, False, False, False, True, True, True, True]"

text \<open>Both calls are behind the exchange and nothing is marked as present.\<close>

definition chunk_stuck :: "chunk_sys \<Rightarrow> bool" where
  "chunk_stuck s \<longleftrightarrow>
     cks_pc (cy_snd s) = Ck_ret 0 \<and> ck_ref_count (ck_chan (cy_shm s)) = 0 \<and>
     \<not> ckr_size (cy_rcv s) \<le> size_of_int (ckr_received (cy_rcv s)) \<and>
     ckr_pc (cy_rcv s) \<in> {Cr_mutex, Cr_size, Cr_ref}"

lemma chunk_stuck_step: "chunk_step s t \<Longrightarrow> chunk_stuck s \<Longrightarrow> chunk_stuck t"
  by (induction rule: chunk_step.induct)
    (auto simp: chunk_stuck_def chunk_send_step_def chunk_recv_step_def Let_def split: if_splits)

lemma chunk_stuck_steps: "steps chunk_step s t \<Longrightarrow> chunk_stuck s \<Longrightarrow> chunk_stuck t"
  by (induction rule: steps.induct) (auto intro: chunk_stuck_step)

lemma chunk_lost_stuck: "chunk_stuck (chunk_run chunk_lost chunk_demo)"
  by (simp add: chunk_stuck_def chunk_lost_def chunk_demo_defs chunk_send_step_def chunk_recv_step_def upd_chunk_def
      in_c_int_def int_of_size_def)

section \<open>Properties\<close>

text \<open>
  C34.  The chunk variant (IVSHMEM_TYPE 1) over whole sessions of one sender and one
  receiver, when the receiver does not run between the two accesses that publish a chunk:
  the messages received are the first messages sent, every call that returns returns 0,
  nothing is accessed out of bounds, and from every reachable state all messages can still
  be delivered.
\<close>

theorem chunk_session_delivery:
  assumes "reach (session_init chunk_begin) chunk_session_step s"
  shows "se_got s = take (length (se_got s)) (se_msgs s) \<and>
    (\<forall>v. cks_pc (cy_snd (se_sys s)) = Ck_ret v \<or> ckr_pc (cy_rcv (se_sys s)) = Cr_ret v \<longrightarrow> v = 0) \<and>
    (\<forall>e. cks_pc (cy_snd (se_sys s)) \<noteq> Ck_fault e \<and> ckr_pc (cy_rcv (se_sys s)) \<noteq> Cr_fault e) \<and>
    (\<exists>t. steps chunk_session_step s t \<and> se_got t = se_msgs s \<and> chunk_sent (se_sys t))"
proof (intro conjI)
  note r = chunk_calls_returns [OF chunk_calls.session.reach_inv [OF assms]]
  show "se_got s = take (length (se_got s)) (se_msgs s)" by (rule r(5))
  show "\<forall>v. cks_pc (cy_snd (se_sys s)) = Ck_ret v \<or> ckr_pc (cy_rcv (se_sys s)) = Cr_ret v \<longrightarrow> v = 0"
    using r(1,2) by blast
  show "\<forall>e. cks_pc (cy_snd (se_sys s)) \<noteq> Ck_fault e \<and> ckr_pc (cy_rcv (se_sys s)) \<noteq> Cr_fault e" using r(3,4) by blast
  show "\<exists>t. steps chunk_session_step s t \<and> se_got t = se_msgs s \<and> chunk_sent (se_sys t)"
    using chunk_calls.session.reach_can_finish [OF assms] session_msgs_steps by (fastforce simp: session_done_def)
qed

theorem chunk_session_delivery_witness:
  "cks_pc (cy_snd (se_sys chunk_session_demo)) \<noteq> Ck_fault OutOfBounds \<and>
   (\<exists>t. steps chunk_session_step chunk_session_demo t \<and> se_got t = [[5, 6, 7], [8, 9, 10]])"
proof -
  note d = chunk_session_delivery [OF reach_init [where init = "session_init chunk_begin", OF chunk_session_demo_init]]
  have "se_msgs chunk_session_demo = [[5, 6, 7], [8, 9, 10]]" by (simp add: chunk_session_demo_def)
  then show ?thesis using d by auto
qed


end
