(* ===== verification/Ivshmem_Chunk_Trusted.thy ===== *)
theory Ivshmem_Chunk_Trusted
  imports Ivshmem_Chunk
begin

text \<open>
  The trusted host's library in the chunk variant, \<^verbatim>\<open>secure_ivshmem/src/ivshmem_trusted.c\<close>
  with \<^verbatim>\<open>IVSHMEM_TYPE\<close> 1.  The control section has the chunk variant's channels, the
  balanced size is not rounded to pages, and a rebalancing moves buffers without regard to a
  chunk that waits in one.  Lookup, and find-or-create over it, are the same code in both
  variants.
\<close>

section \<open>Operations\<close>

record chunk_section =
  cx_free :: size_t
  cx_num :: c_int
  cx_last_id :: u32
  cx_channels :: "chunk_channel list"
  cx_mutex :: byte
  cx_requested :: bool
  cx_candidate :: channel_key

definition zero_chunk :: chunk_channel where
  "zero_chunk =
     \<lparr>ck_id = 0, ck_key = zero_key, ck_buf_offset = 0, ck_buf_size = 0, ck_data_size = 0, ck_ref_count = 0,
      ck_sent_count = 0, ck_last_sent_at = 0\<rparr>"

definition chunk_init_section :: "chunk_section \<Rightarrow> (nat \<Rightarrow> byte) \<Rightarrow> c_int \<times> chunk_section \<times> (nat \<Rightarrow> byte)" where
  "chunk_init_section cs d =
     (0, cs\<lparr>cx_free := 0, cx_num := 0, cx_last_id := 1, cx_mutex := 0, cx_requested := False,
            cx_channels := replicate IVSHMEM_MAX_CHANNELS zero_chunk\<rparr>,
      \<lambda>a. if a < unat CHUNK_DATA_SECTION_SIZE then 0 else d a)"

definition chunk_create_channel ::
  "time_t \<Rightarrow> chunk_section \<Rightarrow> channel_key \<Rightarrow> (c_int \<times> chunk_section) c_result" where
  "chunk_create_channel now cs k =
     (if int IVSHMEM_MAX_CHANNELS \<le> cx_num cs then Inr (- 1, cs)
      else if CHUNK_DATA_SECTION_SIZE < cx_free cs + size_of_int IVSHMEM_CHANNEL_INIT_SIZE then Inr (- 1, cs)
      else if cx_num cs < 0 then Inl OutOfBounds
      else
        let n = nat (cx_num cs) in
        Inr (0, cs\<lparr>cx_channels := (cx_channels cs)
                      [n := chunk_init_channel now (cx_free cs) (cx_last_id cs) (cx_channels cs ! n) k],
                   cx_last_id := cx_last_id cs + 1,
                   cx_free := cx_free cs + size_of_int IVSHMEM_CHANNEL_INIT_SIZE,
                   cx_num := cx_num cs + 1\<rparr>))"

definition chunk_control :: "time_t \<Rightarrow> chunk_section \<Rightarrow> (c_int \<times> chunk_section) c_result" where
  "chunk_control now cs =
     (if \<not> cx_requested cs then Inr (0, cs)
      else
        case chunk_create_channel now (cs\<lparr>cx_mutex := 1\<rparr>) (cx_candidate cs) of
          Inl e \<Rightarrow> Inl e
        | Inr (ret, cs') \<Rightarrow> Inr (ret, cs'\<lparr>cx_requested := False, cx_mutex := 0\<rparr>))"

definition chunk_balanced_size :: "c_int \<Rightarrow> size_t" where
  "chunk_balanced_size n =
     (CHUNK_DATA_SECTION_SIZE - size_of_int IVSHMEM_CHANNEL_INIT_SIZE - 1) div size_of_int n"

fun chunk_rebalance_loop ::
  "size_t \<Rightarrow> chunk_channel list \<Rightarrow> nat \<Rightarrow> chunk_section \<Rightarrow> nat \<times> chunk_section" where
  "chunk_rebalance_loop sz [] cnt cs = (cnt, cs)"
| "chunk_rebalance_loop sz (ch # tmp) cnt cs =
     chunk_rebalance_loop sz tmp (Suc cnt)
       (cs\<lparr>cx_channels := (cx_channels cs)[cnt :=
             ch\<lparr>ck_buf_offset := cx_free cs, ck_buf_size := sz, ck_sent_count := 0\<rparr>],
           cx_free := cx_free cs + sz\<rparr>)"

definition chunk_rebalancing :: "bool \<Rightarrow> chunk_section \<Rightarrow> (c_int \<times> chunk_section) c_result" where
  "chunk_rebalancing malloc_ok cs =
     (let n = cx_num cs; sz = chunk_balanced_size n in
      if n \<le> 0 then Inr (0, cs)
      else if sz = ck_buf_size (cx_channels cs ! 0) then Inr (0, cs\<lparr>cx_mutex := 0\<rparr>)
      else if \<not> malloc_ok then Inr (- 1, cs\<lparr>cx_mutex := 1\<rparr>)
      else if length (cx_channels cs) < nat n then Inl OutOfBounds
      else
        case chunk_rebalance_loop sz (take (nat n) (cx_channels cs)) 0 (cs\<lparr>cx_mutex := 1, cx_free := 0\<rparr>) of
          (cnt, cs') \<Rightarrow>
            Inr (0, cs'\<lparr>cx_num := int cnt,
                        cx_channels := take cnt (cx_channels cs') @ replicate (IVSHMEM_MAX_CHANNELS - cnt) zero_chunk,
                        cx_mutex := 0\<rparr>))"

section \<open>Well-formedness\<close>

definition cx_active :: "chunk_section \<Rightarrow> chunk_channel list" where
  "cx_active cs = take (nat (cx_num cs)) (cx_channels cs)"

fun chunk_tiled :: "nat \<Rightarrow> chunk_channel list \<Rightarrow> nat \<Rightarrow> bool" where
  "chunk_tiled off [] e = (off = e)"
| "chunk_tiled off (ch # chs) e =
     (unat (ck_buf_offset ch) = off \<and> chunk_tiled (off + unat (ck_buf_size ch)) chs e)"

definition wf_chunks :: "chunk_section \<Rightarrow> bool" where
  "wf_chunks cs \<longleftrightarrow>
     length (cx_channels cs) = IVSHMEM_MAX_CHANNELS \<and> 0 \<le> cx_num cs \<and> cx_num cs \<le> int IVSHMEM_MAX_CHANNELS \<and>
     chunk_tiled 0 (cx_active cs) (unat (cx_free cs)) \<and> unat (cx_free cs) \<le> unat CHUNK_DATA_SECTION_SIZE"

text \<open>The channels after a rebalancing to the size \<open>sz\<close>.\<close>

definition chunk_moved :: "size_t \<Rightarrow> nat \<Rightarrow> chunk_channel \<Rightarrow> chunk_channel" where
  "chunk_moved sz i ch = ch\<lparr>ck_buf_offset := word_of_nat i * sz, ck_buf_size := sz, ck_sent_count := 0\<rparr>"

text \<open>
  A section with a large channel, in which 3000000 bytes wait, and a new one, for the examples.
\<close>

definition waiting_chunk :: chunk_channel where
  "waiting_chunk = zero_chunk\<lparr>ck_buf_size := 4176095, ck_data_size := 3000000, ck_ref_count := 1\<rparr>"

definition waiting_section :: chunk_section where
  "waiting_section =
     \<lparr>cx_free = 4192479, cx_num = 2, cx_last_id = 3,
      cx_channels = [waiting_chunk, zero_chunk\<lparr>ck_buf_offset := 4176095, ck_buf_size := 16384\<rparr>] @ replicate 30 zero_chunk,
      cx_mutex = 0, cx_requested = False, cx_candidate = zero_key\<rparr>"

section \<open>Properties\<close>

lemma chunk_tiled_append:
  "chunk_tiled off (xs @ ys) e \<longleftrightarrow> (\<exists>m. chunk_tiled off xs m \<and> chunk_tiled m ys e)"
  by (induction xs arbitrary: off) auto

lemma unat_chunk_balanced_size:
  assumes "0 < n" and "n \<le> 32"
  shows "unat (chunk_balanced_size n) = 4176095 div nat n"
proof -
  have "CHUNK_DATA_SECTION_SIZE - size_of_int IVSHMEM_CHANNEL_INIT_SIZE - 1 = 4176095"
    using unat_chunk_data_size by (simp add: word_unat_eq_iff unat_sub_if' size_of_int_def ivshmem_consts)
  moreover have "unat (size_of_int n) = nat n" using assms by (intro unat_size_of_int) auto
  ultimately show ?thesis by (simp add: chunk_balanced_size_def unat_div)
qed

lemma chunk_balanced_fits:
  assumes "0 < n" and "n \<le> 32" and "i \<le> nat n"
  shows "unat (word_of_nat i * chunk_balanced_size n) = i * (4176095 div nat n)"
    and "i * (4176095 div nat n) \<le> 4176095"
proof -
  have "i * (4176095 div nat n) \<le> nat n * (4176095 div nat n)" using assms(3) by (rule mult_le_mono1)
  also have "\<dots> \<le> 4176095" by (rule times_div_less_eq_dividend)
  finally show le: "i * (4176095 div nat n) \<le> 4176095" .
  have "unat (word_of_nat i :: size_t) = i" using assms by (intro unat_of_nat_small) simp
  then show "unat (word_of_nat i * chunk_balanced_size n) = i * (4176095 div nat n)"
    using le unat_chunk_balanced_size [OF assms(1,2)] by (subst unat_mult_no_wrap) auto
qed

lemma upt_length_Cons: "[i..<i + length (x # xs)] = i # [Suc i..<Suc i + length xs]"
proof -
  have "i < i + length (x # xs)" by simp
  from upt_conv_Cons [OF this] show ?thesis by (simp only: list.size add_Suc_right add_Suc add_0_right)
qed

lemma chunk_rebalance_loop_eq:
  assumes "cnt + length tmp \<le> length (cx_channels cs)" and "cx_free cs = word_of_nat cnt * sz"
  shows "chunk_rebalance_loop sz tmp cnt cs =
    (cnt + length tmp,
     cs\<lparr>cx_channels := take cnt (cx_channels cs) @ map2 (chunk_moved sz) [cnt..<cnt + length tmp] tmp
          @ drop (cnt + length tmp) (cx_channels cs),
        cx_free := word_of_nat (cnt + length tmp) * sz\<rparr>)"
  using assms
proof (induction tmp arbitrary: cnt cs)
  case (Cons ch tmp)
  have len: "Suc cnt + length tmp \<le> length (cx_channels cs)" "cnt < length (cx_channels cs)"
    using Cons.prems by simp_all
  have m: "ch\<lparr>ck_buf_offset := cx_free cs, ck_buf_size := sz, ck_sent_count := 0\<rparr> = chunk_moved sz cnt ch"
    using Cons.prems(2) by (simp add: chunk_moved_def)
  have f: "cx_free cs + sz = word_of_nat (Suc cnt) * sz" using Cons.prems(2) by (simp add: algebra_simps)
  show ?case
    using Cons.IH [of "Suc cnt" "cs\<lparr>cx_channels := (cx_channels cs)[cnt := chunk_moved sz cnt ch], cx_free := cx_free cs + sz\<rparr>"]
      len f unfolding upt_length_Cons
    by (simp add: m take_Suc_conv_app_nth take_update_swap list_update_append del: upt_Suc)
qed simp

lemma length_cx_active: "wf_chunks cs \<Longrightarrow> length (cx_active cs) = nat (cx_num cs)"
  by (auto simp: wf_chunks_def cx_active_def)

lemma chunk_rebalancing_eq:
  assumes wf: "wf_chunks cs" and n: "n = nat (cx_num cs)" "0 < n" and sz: "sz = chunk_balanced_size (cx_num cs)"
    and ne: "sz \<noteq> ck_buf_size (cx_channels cs ! 0)"
  shows "chunk_rebalancing True cs =
    Inr (0, cs\<lparr>cx_channels := map2 (chunk_moved sz) [0..<n] (cx_active cs) @ replicate (IVSHMEM_MAX_CHANNELS - n) zero_chunk,
               cx_free := word_of_nat n * sz, cx_mutex := 0\<rparr>)"
proof -
  have len: "length (cx_channels cs) = 32" "n \<le> 32" "cx_num cs = int n"
    using wf n by (auto simp: wf_chunks_def IVSHMEM_MAX_CHANNELS_def)
  show ?thesis
    using n len ne sz chunk_rebalance_loop_eq [of 0 "cx_active cs" "cs\<lparr>cx_mutex := 1, cx_free := 0\<rparr>" sz]
    by (simp add: chunk_rebalancing_def cx_active_def Let_def min_absorb2)
qed

lemma chunk_tiled_moved:
  assumes "\<And>j. j \<le> i + length chs \<Longrightarrow> unat (word_of_nat j * sz) = j * unat sz"
  shows "chunk_tiled (i * unat sz) (map2 (chunk_moved sz) [i..<i + length chs] chs) ((i + length chs) * unat sz)"
  using assms
proof (induction chs arbitrary: i)
  case (Cons ch chs)
  show ?case using Cons.IH [of "Suc i"] Cons.prems unfolding upt_length_Cons by (simp add: chunk_moved_def algebra_simps)
qed simp

lemma wf_chunks_frame [simp]:
  "wf_chunks (cs\<lparr>cx_mutex := m\<rparr>) = wf_chunks cs" "wf_chunks (cs\<lparr>cx_requested := b\<rparr>) = wf_chunks cs"
  by (simp_all add: wf_chunks_def cx_active_def)

lemma cx_active_frame [simp]:
  "cx_active (cs\<lparr>cx_mutex := m\<rparr>) = cx_active cs" "cx_active (cs\<lparr>cx_requested := b\<rparr>) = cx_active cs"
  by (simp_all add: cx_active_def)

lemma chunk_rebalanced:
  assumes wf: "wf_chunks cs" and n: "n = nat (cx_num cs)" "0 < n" and sz: "sz = chunk_balanced_size (cx_num cs)"
    and ne: "sz \<noteq> ck_buf_size (cx_channels cs ! 0)"
  obtains cs' where "chunk_rebalancing True cs = Inr (0, cs')" "wf_chunks cs'" "cx_mutex cs' = 0" "cx_num cs' = cx_num cs"
    "unat (cx_free cs') + 16384 \<le> unat CHUNK_DATA_SECTION_SIZE"
    "\<And>i. i < n \<Longrightarrow> cx_channels cs' ! i = chunk_moved sz i (cx_channels cs ! i)"
    "\<And>i. i < n \<Longrightarrow> unat (word_of_nat i * sz) = i * (4176095 div n) \<and> unat sz = 4176095 div n"
    "map ck_key (cx_active cs') = map ck_key (cx_active cs)"
proof
  let ?chs = "map2 (chunk_moved sz) [0..<n] (cx_active cs)"
  let ?cs = "cs\<lparr>cx_channels := ?chs @ replicate (IVSHMEM_MAX_CHANNELS - n) zero_chunk, cx_free := word_of_nat n * sz, cx_mutex := 0\<rparr>"
  have b: "0 < cx_num cs" "cx_num cs \<le> 32" "length (cx_channels cs) = 32" "n \<le> 32"
    using wf n by (auto simp: wf_chunks_def IVSHMEM_MAX_CHANNELS_def)
  have la: "length (cx_active cs) = n" using length_cx_active [OF wf] n by simp
  have u: "unat sz = 4176095 div n" using unat_chunk_balanced_size [OF b(1,2)] n sz by simp
  have fits: "unat (word_of_nat j * sz) = j * unat sz \<and> j * unat sz \<le> 4176095" if "j \<le> n" for j
    using chunk_balanced_fits [OF b(1,2), of j] that n sz u by simp
  have act: "cx_active ?cs = ?chs"
    using b(3,4) n(1) by (simp add: cx_active_def)
  have "chunk_tiled 0 ?chs (n * unat sz)"
    using chunk_tiled_moved [of 0 "cx_active cs" sz] la fits by simp
  then show "wf_chunks ?cs"
    using fits [of n] b la unfolding wf_chunks_def act by (simp add: IVSHMEM_MAX_CHANNELS_def)
  show "unat (cx_free ?cs) + 16384 \<le> unat CHUNK_DATA_SECTION_SIZE" using fits [of n] by simp
  show "map ck_key (cx_active ?cs) = map ck_key (cx_active cs)"
    unfolding act using la by (intro nth_equalityI) (simp_all add: chunk_moved_def)
  show "chunk_rebalancing True cs = Inr (0, ?cs)" by (rule chunk_rebalancing_eq [OF wf n sz ne])
  fix i
  assume i: "i < n"
  show "unat (word_of_nat i * sz) = i * (4176095 div n) \<and> unat sz = 4176095 div n" using fits [of i] u i by simp
  have "cx_active cs ! i = cx_channels cs ! i" using i n(1) by (simp add: cx_active_def)
  then show "cx_channels ?cs ! i = chunk_moved sz i (cx_channels cs ! i)" using la i by (simp add: nth_append)
qed simp_all

text \<open>
  Rebalancing in the chunk variant: the buffers become equal, disjoint and in order, with room
  for one more channel, and everything else about the channels is kept.
\<close>

theorem chunk_rebalancing_partitions:
  assumes wf: "wf_chunks cs" and n: "n = nat (cx_num cs)" "0 < n"
    and ne: "chunk_balanced_size (cx_num cs) \<noteq> ck_buf_size (cx_channels cs ! 0)"
  shows "\<exists>cs'. chunk_rebalancing True cs = Inr (0, cs') \<and> wf_chunks cs' \<and> cx_mutex cs' = 0 \<and> cx_num cs' = cx_num cs \<and>
     unat (cx_free cs') + 16384 \<le> unat CHUNK_DATA_SECTION_SIZE \<and>
     (\<forall>i < n. ck_key (cx_channels cs' ! i) = ck_key (cx_channels cs ! i) \<and> ck_id (cx_channels cs' ! i) = ck_id (cx_channels cs ! i) \<and>
        unat (ck_buf_offset (cx_channels cs' ! i)) = i * (4176095 div n) \<and>
        unat (ck_buf_size (cx_channels cs' ! i)) = 4176095 div n \<and>
        ck_data_size (cx_channels cs' ! i) = ck_data_size (cx_channels cs ! i) \<and>
        ck_ref_count (cx_channels cs' ! i) = ck_ref_count (cx_channels cs ! i))"
proof (cases rule: chunk_rebalanced [OF wf n refl ne])
  case (1 cs')
  show ?thesis by (rule exI [of _ cs']) (use 1(1-7) in \<open>simp add: chunk_moved_def\<close>)
qed

lemma chunk_create_wf:
  assumes wf: "wf_chunks cs"
  shows "\<exists>ret cs'. chunk_create_channel now cs k = Inr (ret, cs') \<and> wf_chunks cs' \<and>
     prefix (map ck_key (cx_active cs)) (map ck_key (cx_active cs'))"
proof (cases "int IVSHMEM_MAX_CHANNELS \<le> cx_num cs \<or> CHUNK_DATA_SECTION_SIZE < cx_free cs + size_of_int IVSHMEM_CHANNEL_INIT_SIZE")
  case True
  then show ?thesis using wf by (auto simp: chunk_create_channel_def)
next
  case False
  define n where "n = nat (cx_num cs)"
  define ch where "ch = chunk_init_channel now (cx_free cs) (cx_last_id cs) (cx_channels cs ! n) k"
  define cs' where "cs' = cs\<lparr>cx_channels := (cx_channels cs)[n := ch], cx_last_id := cx_last_id cs + 1,
     cx_free := cx_free cs + size_of_int IVSHMEM_CHANNEL_INIT_SIZE, cx_num := cx_num cs + 1\<rparr>"
  have b: "length (cx_channels cs) = 32" "cx_num cs = int n" "n < 32" "unat (cx_free cs) \<le> 4192480"
    using wf False by (auto simp: wf_chunks_def IVSHMEM_MAX_CHANNELS_def n_def)
  have f: "unat (cx_free cs + size_of_int IVSHMEM_CHANNEL_INIT_SIZE) = unat (cx_free cs) + 16384"
    using b(4) by (subst unat_add_no_wrap) simp_all
  then have room: "unat (cx_free cs) + 16384 \<le> 4192480" using False by (simp add: word_less_nat_alt)
  have act: "cx_active cs' = cx_active cs @ [ch]"
    using b by (simp add: cx_active_def cs'_def nat_add_distrib take_Suc_conv_app_nth)
  have c: "ck_buf_offset ch = cx_free cs" "unat (ck_buf_size ch) = 16384"
    by (simp_all add: ch_def chunk_init_channel_def Let_def)
  have "chunk_tiled 0 (cx_active cs') (unat (cx_free cs) + 16384)"
    using wf c by (auto simp: act chunk_tiled_append wf_chunks_def)
  then have "wf_chunks cs'"
    using b room f by (simp add: wf_chunks_def) (simp add: cs'_def IVSHMEM_MAX_CHANNELS_def)
  moreover have "chunk_create_channel now cs k = Inr (0, cs')"
    using False b by (simp add: chunk_create_channel_def cs'_def ch_def n_def [symmetric] Let_def)
  ultimately show ?thesis by (auto simp: act)
qed

text \<open>
  The operations of the host in the chunk variant never fault on a well-formed section, keep
  it well formed, and keep the channels there are.
\<close>

theorem chunk_trusted_wf:
  assumes wf: "wf_chunks cs"
  shows "\<exists>ret cs'. chunk_control now cs = Inr (ret, cs') \<and> wf_chunks cs' \<and>
       prefix (map ck_key (cx_active cs)) (map ck_key (cx_active cs'))"
    and "\<exists>ret cs'. chunk_rebalancing ok cs = Inr (ret, cs') \<and> wf_chunks cs' \<and>
       map ck_key (cx_active cs') = map ck_key (cx_active cs)"
    and "wf_chunks (fst (snd (chunk_init_section cs d)))"
proof -
  have "wf_chunks (cs\<lparr>cx_mutex := 1\<rparr>)" using wf by simp
  from chunk_create_wf [OF this, of now "cx_candidate cs"] wf
  show "\<exists>ret cs'. chunk_control now cs = Inr (ret, cs') \<and> wf_chunks cs' \<and>
       prefix (map ck_key (cx_active cs)) (map ck_key (cx_active cs'))"
    by (auto simp: chunk_control_def)
  show "\<exists>ret cs'. chunk_rebalancing ok cs = Inr (ret, cs') \<and> wf_chunks cs' \<and>
       map ck_key (cx_active cs') = map ck_key (cx_active cs)"
  proof (cases "0 < cx_num cs \<and> ok \<and> chunk_balanced_size (cx_num cs) \<noteq> ck_buf_size (cx_channels cs ! 0)")
    case True
    then have n: "0 < nat (cx_num cs)" and ne: "chunk_balanced_size (cx_num cs) \<noteq> ck_buf_size (cx_channels cs ! 0)" by simp_all
    show ?thesis using True by (cases rule: chunk_rebalanced [OF wf refl n refl ne]) simp
  next
    case False
    then show ?thesis using wf by (auto simp: chunk_rebalancing_def Let_def)
  qed
qed (simp add: chunk_init_section_def wf_chunks_def cx_active_def IVSHMEM_MAX_CHANNELS_def)

text \<open>
  A rebalancing keeps the size of a chunk that waits, also when the buffer becomes smaller
  than that: the receiver then reads on into the buffer of the next channel.
\<close>

theorem chunk_rebalancing_overreads:
  assumes wf: "wf_chunks cs" and n: "n = nat (cx_num cs)" and i: "Suc i < n"
    and ne: "chunk_balanced_size (cx_num cs) \<noteq> ck_buf_size (cx_channels cs ! 0)"
    and big: "4176095 div n < unat (ck_data_size (cx_channels cs ! i))"
  shows "\<exists>cs'. chunk_rebalancing True cs = Inr (0, cs') \<and>
     ck_ref_count (cx_channels cs' ! i) = ck_ref_count (cx_channels cs ! i) \<and>
     unat (ck_buf_offset (cx_channels cs' ! Suc i)) <
       unat (ck_buf_offset (cx_channels cs' ! i)) + unat (ck_data_size (cx_channels cs' ! i))"
proof (cases rule: chunk_rebalanced [OF wf n _ refl ne])
  case (2 cs')
  show ?thesis
    by (rule exI [of _ cs']) (use 2(1) 2(6,7) [of i] 2(6,7) [OF i] i big in \<open>simp add: chunk_moved_def\<close>)
qed (use i in simp)

lemma waiting_section_facts:
  "wf_chunks waiting_section" "chunk_balanced_size 2 \<noteq> 4176095" "cx_num waiting_section = 2"
  "cx_channels waiting_section ! 0 = waiting_chunk"
proof -
  show "wf_chunks waiting_section"
    by (simp add: wf_chunks_def cx_active_def waiting_section_def waiting_chunk_def zero_chunk_def IVSHMEM_MAX_CHANNELS_def)
  have "unat (chunk_balanced_size 2) \<noteq> unat (4176095 :: size_t)" by (subst unat_chunk_balanced_size) simp_all
  then show "chunk_balanced_size 2 \<noteq> 4176095" by metis
qed (simp_all add: waiting_section_def)

theorem chunk_rebalancing_partitions_witness:
  "\<exists>cs'. chunk_rebalancing True waiting_section = Inr (0, cs') \<and> wf_chunks cs' \<and>
     unat (ck_buf_offset (cx_channels cs' ! 1)) = 2088047"
proof -
  have "chunk_balanced_size (cx_num waiting_section) \<noteq> ck_buf_size (cx_channels waiting_section ! 0)"
    using waiting_section_facts by (simp add: waiting_chunk_def)
  from chunk_rebalancing_partitions [OF waiting_section_facts(1) refl _ this] show ?thesis
    using waiting_section_facts(3) by fastforce
qed

theorem chunk_trusted_wf_witness:
  "\<exists>ret cs'. chunk_rebalancing False waiting_section = Inr (ret, cs') \<and> wf_chunks cs'"
  using chunk_trusted_wf(2) [OF waiting_section_facts(1), of False] by blast

theorem chunk_rebalancing_overreads_witness:
  "\<exists>cs'. chunk_rebalancing True waiting_section = Inr (0, cs') \<and> ck_ref_count (cx_channels cs' ! 0) = 1 \<and>
     unat (ck_buf_offset (cx_channels cs' ! 1)) <
       unat (ck_buf_offset (cx_channels cs' ! 0)) + unat (ck_data_size (cx_channels cs' ! 0))"
proof -
  have "chunk_balanced_size (cx_num waiting_section) \<noteq> ck_buf_size (cx_channels waiting_section ! 0)"
    using waiting_section_facts by (simp add: waiting_chunk_def)
  from chunk_rebalancing_overreads [OF waiting_section_facts(1) refl _ this, of 0] waiting_section_facts(3,4)
  show ?thesis by (simp add: waiting_chunk_def)
qed

end
