(* ===== verification/Myshm.thy ===== *)
theory Myshm
  imports Ivshmem_Prelude
begin

text \<open>
  The character device that provides the shared memory, \<^verbatim>\<open>dev_shm/myshm.c\<close>: its
  \<^verbatim>\<open>mmap\<close> operation, and the loading and unloading of the module.  What the kernel
  functions return are arguments, and the calls that release a resource are collected.

  A mapping is a list of pairs of a user address and an offset into the device buffer, one
  pair for each page.  The loop of \<^verbatim>\<open>myshm_mmap\<close> counts a byte length down by pages, and
  would not end if the length were not a whole number of pages; it is a partial function, and
  that it ends is part of the theorem.
\<close>

section \<open>The driver\<close>

definition MEM_SIZE :: u64 where [ivshmem_consts]: "MEM_SIZE = 4 * 1024 * 1024"

record vm_area =
  vm_start :: u64
  vm_end :: u64
  vm_pgoff :: u64

type_synonym mapping_list = "(u64 \<times> u64) list"

partial_function (option) myshm_mmap_loop ::
  "(u64 \<Rightarrow> u64 \<Rightarrow> c_int) \<Rightarrow> u64 \<Rightarrow> u64 \<Rightarrow> u64 \<Rightarrow> mapping_list \<Rightarrow> (c_int \<times> mapping_list) option" where
  "myshm_mmap_loop remap cur offset sz maps =
     (if 0 < sz then
        if remap cur offset \<noteq> 0 then Some (- EAGAIN, maps)
        else myshm_mmap_loop remap (cur + 4096) (offset + 4096) (sz - 4096) (maps @ [(cur, offset)])
      else Some (0, maps))"

definition myshm_mmap :: "(u64 \<Rightarrow> u64 \<Rightarrow> c_int) \<Rightarrow> vm_area \<Rightarrow> (c_int \<times> mapping_list) option" where
  "myshm_mmap remap vma =
     (let offset = push_bit 12 (vm_pgoff vma); sz = vm_end vma - vm_start vma in
      if MEM_SIZE < offset + sz then Some (- EINVAL, [])
      else myshm_mmap_loop remap (vm_start vma) offset sz [])"

definition myshm_open :: c_int where "myshm_open = 0"

definition myshm_release :: c_int where "myshm_release = 0"

datatype dev_call =
  Unregister_region | Cdev_del | Class_destroy | Device_destroy | Vfree

datatype err_ptr = Good_ptr | Err_ptr c_int | Null_ptr

record shm_driver =
  drv_class :: err_ptr
  drv_buffer :: bool

definition myshm_init ::
  "c_int \<Rightarrow> c_int \<Rightarrow> err_ptr \<Rightarrow> err_ptr \<Rightarrow> bool \<Rightarrow> shm_driver \<Rightarrow> c_int \<times> shm_driver \<times> dev_call list" where
  "myshm_init region cdev cls dev vmalloc_ok st =
     (if region < 0 then (region, st, [])
      else if cdev < 0 then (cdev, st, [Unregister_region])
      else
        let st1 = st\<lparr>drv_class := cls\<rparr> in
        case cls of
          Err_ptr e \<Rightarrow> (e, st1, [Cdev_del, Unregister_region])
        | _ \<Rightarrow>
          if dev = Null_ptr then (- 1, st1, [Class_destroy, Cdev_del, Unregister_region])
          else
            let st2 = st1\<lparr>drv_buffer := vmalloc_ok\<rparr> in
            if \<not> vmalloc_ok
            then (- ENOMEM, st2, [Device_destroy, Class_destroy, Cdev_del, Unregister_region])
            else (0, st2, []))"

definition myshm_exit :: "shm_driver \<Rightarrow> dev_call list" where
  "myshm_exit st =
     (if drv_buffer st then [Vfree] else [])
     @ [Device_destroy, Class_destroy, Cdev_del, Unregister_region]"

text \<open>
  What the kernel guarantees for the areas it passes to a driver: whole pages, and an end
  offset that is a 64-bit number (the kernel's check of that name).
\<close>

definition vma_aligned :: "vm_area \<Rightarrow> bool" where
  "vma_aligned vma \<longleftrightarrow>
     vm_start vma \<le> vm_end vma \<and> 4096 dvd unat (vm_start vma) \<and> 4096 dvd unat (vm_end vma)"

definition file_mmap_ok :: "vm_area \<Rightarrow> bool" where
  "file_mmap_ok vma \<longleftrightarrow>
     unat (vm_pgoff vma) * 4096 + (unat (vm_end vma) - unat (vm_start vma)) < 2 ^ 64"

definition demo_vma :: vm_area where
  "demo_vma = \<lparr>vm_start = 0x10000, vm_end = 0x12000, vm_pgoff = 1\<rparr>"

text \<open>The calls that release what an initialisation has acquired, the first acquisition first.\<close>

definition acquired :: "c_int \<Rightarrow> c_int \<Rightarrow> err_ptr \<Rightarrow> err_ptr \<Rightarrow> bool \<Rightarrow> dev_call list" where
  "acquired region cdev cls dev vmalloc_ok =
     (if region < 0 then [] else Unregister_region #
      (if cdev < 0 then [] else Cdev_del #
       (case cls of Err_ptr _ \<Rightarrow> [] | _ \<Rightarrow> Class_destroy #
         (if dev = Null_ptr then [] else Device_destroy # (if vmalloc_ok then [Vfree] else [])))))"

section \<open>Properties\<close>

lemma mmap_loop_total:
  assumes "unat sz = 4096 * n"
  shows "\<exists>r k. myshm_mmap_loop remap cur off sz maps =
      Some (r, maps @ map (\<lambda>i. (cur + word_of_nat (4096 * i), off + word_of_nat (4096 * i))) [0..<k]) \<and>
    k \<le> n \<and> (r = 0 \<longleftrightarrow> k = n) \<and> (r \<noteq> 0 \<longrightarrow> r = - EAGAIN) \<and>
    (r = 0 \<longleftrightarrow> (\<forall>i < n. remap (cur + word_of_nat (4096 * i)) (off + word_of_nat (4096 * i)) = 0))"
  using assms
proof (induction n arbitrary: sz cur off maps)
  case 0
  then have "sz = 0" by (simp add: unat_eq_0)
  then show ?case by (subst myshm_mmap_loop.simps) (simp add: exI [of _ 0])
next
  case (Suc n)
  have pos: "0 < sz" using Suc.prems by (simp add: word_less_nat_alt)
  show ?case
  proof (cases "remap cur off = 0")
    case True
    have "unat (sz - 4096) = 4096 * n" using Suc.prems by (subst unat_sub_no_wrap) auto
    from Suc.IH [OF this, of "cur + 4096" "off + 4096" "maps @ [(cur, off)]"] obtain r k where
      k: "myshm_mmap_loop remap (cur + 4096) (off + 4096) (sz - 4096) (maps @ [(cur, off)]) =
        Some (r, (maps @ [(cur, off)]) @ map (\<lambda>i. (cur + 4096 + word_of_nat (4096 * i), off + 4096 + word_of_nat (4096 * i))) [0..<k])"
      "k \<le> n" "r = 0 \<longleftrightarrow> k = n" "r \<noteq> 0 \<longrightarrow> r = - EAGAIN"
      "r = 0 \<longleftrightarrow> (\<forall>i < n. remap (cur + 4096 + word_of_nat (4096 * i)) (off + 4096 + word_of_nat (4096 * i)) = 0)"
      by blast
    have m: "map f [0..<Suc k] = f 0 # map (\<lambda>i. f (Suc i)) [0..<k]" for f :: "nat \<Rightarrow> u64 \<times> u64"
      by (metis map_upt_Suc)
    have "myshm_mmap_loop remap cur off sz maps =
        Some (r, maps @ map (\<lambda>i. (cur + word_of_nat (4096 * i), off + word_of_nat (4096 * i))) [0..<Suc k])"
      using k(1) pos True unfolding m by (subst myshm_mmap_loop.simps) (simp add: algebra_simps)
    moreover have "(\<forall>i < Suc n. remap (cur + word_of_nat (4096 * i)) (off + word_of_nat (4096 * i)) = 0) \<longleftrightarrow>
        (\<forall>i < n. remap (cur + 4096 + word_of_nat (4096 * i)) (off + 4096 + word_of_nat (4096 * i)) = 0)"
      using True by (auto simp: All_less_Suc2 algebra_simps)
    ultimately show ?thesis using k by (intro exI [of _ r] exI [of _ "Suc k"]) simp
  next
    case False
    have "myshm_mmap_loop remap cur off sz maps = Some (- EAGAIN, maps)"
      using pos False by (subst myshm_mmap_loop.simps) simp
    then show ?thesis using False by (intro exI [of _ "- EAGAIN"] exI [of _ 0]) (auto simp: EAGAIN_def)
  qed
qed

lemma unat_mem_size [simp]: "unat MEM_SIZE = 4194304"
  by (simp add: MEM_SIZE_def)

lemma unat_offset:
  assumes "file_mmap_ok vma"
  shows "unat (push_bit 12 (vm_pgoff vma)) = unat (vm_pgoff vma) * 4096"
  using assms unat_mult_no_wrap [of "vm_pgoff vma" 4096] by (simp add: push_bit_eq_mult file_mmap_ok_def)

lemma vma_length:
  assumes "vma_aligned vma"
  shows "unat (vm_end vma - vm_start vma) = unat (vm_end vma) - unat (vm_start vma)"
    and "4096 dvd unat (vm_end vma) - unat (vm_start vma)"
  using assms by (auto simp: vma_aligned_def word_le_nat_alt unat_sub_no_wrap)

lemma myshm_mmap_pages:
  assumes "vma_aligned vma" and "file_mmap_ok vma"
  shows "let off = unat (vm_pgoff vma) * 4096; len = unat (vm_end vma) - unat (vm_start vma) in
    if 4194304 < off + len then myshm_mmap remap vma = Some (- EINVAL, [])
    else \<exists>r k. k \<le> len div 4096 \<and>
      myshm_mmap remap vma = Some (r, map (\<lambda>i. (vm_start vma + word_of_nat (4096 * i), word_of_nat (off + 4096 * i))) [0..<k]) \<and>
      (\<forall>i < k. off + 4096 * i + 4096 \<le> 4194304) \<and>
      (if \<forall>i < len div 4096. remap (vm_start vma + word_of_nat (4096 * i)) (word_of_nat (off + 4096 * i)) = 0
       then r = 0 \<and> k = len div 4096 else r = - EAGAIN)"
proof -
  let ?o = "push_bit 12 (vm_pgoff vma)" and ?len = "unat (vm_end vma) - unat (vm_start vma)"
  have o: "unat ?o = unat (vm_pgoff vma) * 4096" by (rule unat_offset [OF assms(2)])
  have l: "unat (vm_end vma - vm_start vma) = ?len" "4096 dvd ?len" by (rule vma_length [OF assms(1)])+
  have sum: "unat (?o + (vm_end vma - vm_start vma)) = unat (vm_pgoff vma) * 4096 + ?len"
    using o l(1) assms(2) by (subst unat_add_no_wrap) (simp_all add: file_mmap_ok_def)
  have w: "?o + word_of_nat (4096 * i) = word_of_nat (unat (vm_pgoff vma) * 4096 + 4096 * i)" for i
  proof -
    have "?o = word_of_nat (unat ?o)" by simp
    then show ?thesis unfolding o by (metis of_nat_add)
  qed
  show ?thesis
  proof (cases "4194304 < unat (vm_pgoff vma) * 4096 + ?len")
    case True
    then show ?thesis using sum by (simp add: myshm_mmap_def Let_def word_less_nat_alt)
  next
    case False
    have n: "unat (vm_end vma - vm_start vma) = 4096 * (?len div 4096)" using l by simp
    obtain r k where k: "myshm_mmap_loop remap (vm_start vma) ?o (vm_end vma - vm_start vma) [] =
        Some (r, map (\<lambda>i. (vm_start vma + word_of_nat (4096 * i), ?o + word_of_nat (4096 * i))) [0..<k])"
      "k \<le> ?len div 4096" "r = 0 \<longleftrightarrow> k = ?len div 4096" "r \<noteq> 0 \<longrightarrow> r = - EAGAIN"
      "r = 0 \<longleftrightarrow> (\<forall>i < ?len div 4096. remap (vm_start vma + word_of_nat (4096 * i)) (?o + word_of_nat (4096 * i)) = 0)"
      using mmap_loop_total [OF n, of remap "vm_start vma" ?o "[]"] by auto
    have "4096 * (?len div 4096) = ?len" using l(2) by simp
    then have "\<forall>i < k. unat (vm_pgoff vma) * 4096 + 4096 * i + 4096 \<le> 4194304" using False k(2) by auto
    moreover have "myshm_mmap remap vma = myshm_mmap_loop remap (vm_start vma) ?o (vm_end vma - vm_start vma) []"
      using False sum by (simp add: myshm_mmap_def Let_def word_less_nat_alt)
    ultimately show ?thesis using False k unfolding w by (simp add: Let_def) blast
  qed
qed

text \<open>
  C17.  The driver's mmap ends for every area the kernel passes to it. An area beyond 4 MB
  is refused; otherwise the pages are mapped in order to consecutive offsets, all within the
  buffer, until all are mapped or one fails, which gives -EAGAIN.
\<close>

theorem myshm_mmap_spec:
  assumes "vma_aligned vma" and "file_mmap_ok vma"
  shows "let off = unat (vm_pgoff vma) * 4096; len = unat (vm_end vma) - unat (vm_start vma) in
    if 4194304 < off + len then myshm_mmap remap vma = Some (- EINVAL, [])
    else \<exists>r k. k \<le> len div 4096 \<and>
      myshm_mmap remap vma = Some (r, map (\<lambda>i. (vm_start vma + word_of_nat (4096 * i), word_of_nat (off + 4096 * i))) [0..<k]) \<and>
      (\<forall>i < k. off + 4096 * i + 4096 \<le> 4194304) \<and>
      (if \<forall>i < len div 4096. remap (vm_start vma + word_of_nat (4096 * i)) (word_of_nat (off + 4096 * i)) = 0
       then r = 0 \<and> k = len div 4096 else r = - EAGAIN)"
  using assms by (rule myshm_mmap_pages)

theorem myshm_mmap_spec_witness:
  "myshm_mmap (\<lambda>_ _. 0) demo_vma = Some (0, [(0x10000, 4096), (0x11000, 8192)])"
proof -
  have "vma_aligned demo_vma" "file_mmap_ok demo_vma"
    by (simp_all add: vma_aligned_def file_mmap_ok_def demo_vma_def)
  from myshm_mmap_spec [OF this, of "\<lambda>_ _. 0"] show ?thesis
    by (simp add: demo_vma_def Let_def upt_rec)
qed



end
