(* ===== verification/Uio_Hook.thy ===== *)
theory Uio_Hook
  imports Myshm Ivshmem_Systems
begin

text \<open>
  The kernel module that guards the device's \<^verbatim>\<open>mmap\<close>, \<^verbatim>\<open>kernel_module/ivshmem_uio_hook.c\<close>
  (with \<^verbatim>\<open>HOOK_DEV\<close> 2): an ftrace callback on entry of the driver's function, which sends
  the call on to a wrapper of the original function or to a function that fails.

  The wrapper calls the original function again, which enters the callback again; the flag
  \<^verbatim>\<open>is_locked\<close> lets that nested call through.  The test of the flag comes before the spin
  lock is taken; what follows is done under the lock.  \<open>hook_step\<close> interleaves the tasks: the
  test, the locked part, the nested call and the release of the flag are steps of their own.
\<close>

section \<open>The callback\<close>

definition MIN_VALID_OFFSET :: int where [ivshmem_consts]: "MIN_VALID_OFFSET = 0x1000"

definition MAX_ALLOWED_MMAP_SIZE :: int where [ivshmem_consts]: "MAX_ALLOWED_MMAP_SIZE = 0x200000"

definition HOOK_DNAME :: string where "HOOK_DNAME = ''myshm''"

record hook_st =
  is_locked :: bool
  limit_map_size :: u64

datatype hook_target = Continue_mmap | Dummy_mmap | Origin_mmap

definition hook_offset :: "vm_area \<Rightarrow> u64" where "hook_offset vma = push_bit 12 (vm_pgoff vma)"

definition hook_length :: "vm_area \<Rightarrow> u64" where "hook_length vma = vm_end vma - vm_start vma"

definition ivshmem_mmap_guard :: "bool \<Rightarrow> c_int" where
  "ivshmem_mmap_guard condition = (if condition then - EINVAL else 0)"

definition guard_control :: "vm_area \<Rightarrow> bool" where
  "guard_control vma \<longleftrightarrow>
     sint (hook_offset vma) < MIN_VALID_OFFSET \<and>
     word_of_int MIN_VALID_OFFSET < hook_offset vma + hook_length vma"

definition guard_data :: "vm_area \<Rightarrow> bool" where
  "guard_data vma \<longleftrightarrow>
     MIN_VALID_OFFSET \<le> sint (hook_offset vma) \<and>
     word_of_int MAX_ALLOWED_MMAP_SIZE < hook_offset vma + hook_length vma"

text \<open>What the callback does under the spin lock.\<close>

definition hook_locked_part :: "hook_st \<Rightarrow> string option \<Rightarrow> vm_area \<Rightarrow> hook_st \<times> hook_target" where
  "hook_locked_part st dentry v =
     (let st1 = st\<lparr>is_locked := True\<rparr> in
      case dentry of
        None \<Rightarrow> (st1, Origin_mmap)
      | Some dname \<Rightarrow>
        if take (length HOOK_DNAME) dname = HOOK_DNAME then
          if ivshmem_mmap_guard (guard_control v) < 0 then (st1, Dummy_mmap)
          else if ivshmem_mmap_guard (guard_data v) < 0 then (st1, Dummy_mmap)
          else if ivshmem_mmap_guard (limit_map_size st1 < hook_length v) < 0 then (st1, Dummy_mmap)
          else (st1, Origin_mmap)
        else (st1, Origin_mmap))"

definition ivshmem_ftrace_hook_func ::
  "hook_st \<Rightarrow> bool \<Rightarrow> string option \<Rightarrow> vm_area option \<Rightarrow> hook_st \<times> hook_target" where
  "ivshmem_ftrace_hook_func st file_null dentry vma =
     (if is_locked st then (st, Continue_mmap)
      else
        case vma of
          None \<Rightarrow> (st, Continue_mmap)
        | Some v \<Rightarrow> if file_null then (st, Continue_mmap) else hook_locked_part st dentry v)"

definition ivshmem_origin_mmap ::
  "(vm_area \<Rightarrow> (c_int \<times> mapping_list) option) \<Rightarrow> vm_area \<Rightarrow> hook_st \<Rightarrow> (c_int \<times> mapping_list \<times> hook_st) option" where
  "ivshmem_origin_mmap origin vma st =
     (case origin vma of
        None \<Rightarrow> None
      | Some (ret, maps) \<Rightarrow> Some (0, maps, st\<lparr>is_locked := False\<rparr>))"

definition ivshmem_dummy_mmap :: "hook_st \<Rightarrow> c_int \<times> hook_st" where
  "ivshmem_dummy_mmap st = (- EINVAL, st\<lparr>is_locked := False\<rparr>)"

text \<open>One call of \<^verbatim>\<open>mmap\<close> with nothing in between.\<close>

definition hooked_mmap ::
  "(vm_area \<Rightarrow> (c_int \<times> mapping_list) option) \<Rightarrow> string \<Rightarrow> vm_area \<Rightarrow> hook_st \<Rightarrow> (c_int \<times> mapping_list \<times> hook_st) option" where
  "hooked_mmap origin dname vma st =
     (case ivshmem_ftrace_hook_func st False (Some dname) (Some vma) of
        (st1, Continue_mmap) \<Rightarrow> map_option (\<lambda>(ret, maps). (ret, maps, st1)) (origin vma)
      | (st1, Dummy_mmap) \<Rightarrow> (case ivshmem_dummy_mmap st1 of (ret, st2) \<Rightarrow> Some (ret, [], st2))
      | (st1, Origin_mmap) \<Rightarrow> ivshmem_origin_mmap origin vma st1)"

text \<open>
  Several tasks.  The number in a program counter is the depth of the call: the driver's
  function is entered by the kernel at depth 0, and by the wrapper that runs at depth \<open>d\<close> at
  depth \<open>d + 1\<close>.  A call that the callback leaves alone executes the driver's function.
\<close>

datatype hook_pc =
  Task_test nat | Task_locked nat | Task_origin nat | Task_dummy nat | Task_release nat
| Task_return nat c_int | Task_done c_int

record hook_task =
  ht_pc :: hook_pc
  ht_dname :: string
  ht_vma :: vm_area
  ht_maps :: mapping_list

record hook_sys =
  hs_st :: hook_st
  hs_tasks :: "hook_task list"

definition hook_task_step ::
  "(vm_area \<Rightarrow> (c_int \<times> mapping_list) option) \<Rightarrow> hook_st \<Rightarrow> hook_task \<Rightarrow> (hook_st \<times> hook_task) option" where
  "hook_task_step origin st t =
     (case ht_pc t of
        Task_test d \<Rightarrow>
          (if is_locked st then
             (case origin (ht_vma t) of
                None \<Rightarrow> None
              | Some (ret, maps) \<Rightarrow> Some (st, t\<lparr>ht_pc := Task_return d ret, ht_maps := ht_maps t @ maps\<rparr>))
           else Some (st, t\<lparr>ht_pc := Task_locked d\<rparr>))
      | Task_locked d \<Rightarrow>
          (case hook_locked_part st (Some (ht_dname t)) (ht_vma t) of
             (st1, target) \<Rightarrow>
               Some (st1, t\<lparr>ht_pc := (if target = Dummy_mmap then Task_dummy d else Task_origin d)\<rparr>))
      | Task_origin d \<Rightarrow> Some (st, t\<lparr>ht_pc := Task_test (Suc d)\<rparr>)
      | Task_dummy d \<Rightarrow> (case ivshmem_dummy_mmap st of (ret, st1) \<Rightarrow> Some (st1, t\<lparr>ht_pc := Task_return d ret\<rparr>))
      | Task_release d \<Rightarrow> Some (st\<lparr>is_locked := False\<rparr>, t\<lparr>ht_pc := Task_return d 0\<rparr>)
      | Task_return d ret \<Rightarrow>
          Some (st, t\<lparr>ht_pc := (case d of 0 \<Rightarrow> Task_done ret | Suc d' \<Rightarrow> Task_release d')\<rparr>)
      | Task_done ret \<Rightarrow> None)"

definition hook_enter :: "string \<Rightarrow> vm_area \<Rightarrow> hook_task" where
  "hook_enter dname vma = \<lparr>ht_pc = Task_test 0, ht_dname = dname, ht_vma = vma, ht_maps = []\<rparr>"

inductive hook_step ::
  "(vm_area \<Rightarrow> (c_int \<times> mapping_list) option) \<Rightarrow> hook_sys \<Rightarrow> hook_sys \<Rightarrow> bool" for origin where
  hook_task: "i < length (hs_tasks s) \<Longrightarrow> hook_task_step origin (hs_st s) (hs_tasks s ! i) = Some (st, t) \<Longrightarrow>
     hook_step origin s (s\<lparr>hs_st := st, hs_tasks := (hs_tasks s)[i := t]\<rparr>)"

text \<open>The areas that the callback is meant to let through, in plain numbers.\<close>

definition vma_len :: "vm_area \<Rightarrow> nat" where "vma_len vma = unat (vm_end vma) - unat (vm_start vma)"

definition vma_off :: "vm_area \<Rightarrow> nat" where "vma_off vma = unat (vm_pgoff vma) * 4096"

definition hook_admits :: "vm_area \<Rightarrow> bool" where
  "hook_admits vma \<longleftrightarrow> vma_len vma \<le> 0x1000 \<and> (vma_off vma = 0 \<or> vma_off vma + vma_len vma \<le> 0x200000)"

definition page_vma :: vm_area where "page_vma = \<lparr>vm_start = 0x10000, vm_end = 0x11000, vm_pgoff = 1\<rparr>"

definition whole_vma :: vm_area where "whole_vma = \<lparr>vm_start = 0x800000, vm_end = 0xC00000, vm_pgoff = 0\<rparr>"

definition race_start :: hook_sys where
  "race_start =
     \<lparr>hs_st = \<lparr>is_locked = False, limit_map_size = 0x1000\<rparr>,
      hs_tasks = [hook_enter ''myshm'' page_vma, hook_enter ''myshm'' whole_vma]\<rparr>"

text \<open>
  Calls on the device, as the kernel makes them.  A task \<open>holds\<close> the flag from the locked part
  to the release; from then on the wrapper's calls are those of an area that was checked.
\<close>

definition device_call :: "hook_task \<Rightarrow> bool" where
  "device_call t \<longleftrightarrow>
     vma_aligned (ht_vma t) \<and> file_mmap_ok (ht_vma t) \<and> take (length HOOK_DNAME) (ht_dname t) = HOOK_DNAME"

definition hook_begin :: "hook_sys \<Rightarrow> bool" where
  "hook_begin s \<longleftrightarrow>
     \<not> is_locked (hs_st s) \<and> limit_map_size (hs_st s) = 0x1000 \<and>
     (\<forall>t \<in> set (hs_tasks s). device_call t \<and> t = hook_enter (ht_dname t) (ht_vma t))"

fun hook_holds :: "hook_pc \<Rightarrow> bool" where
  "hook_holds (Task_origin d) = True"
| "hook_holds (Task_dummy d) = True"
| "hook_holds (Task_release d) = True"
| "hook_holds (Task_test (Suc d)) = True"
| "hook_holds (Task_return (Suc d) ret) = True"
| "hook_holds pc = False"

fun hook_checked :: "hook_pc \<Rightarrow> bool" where
  "hook_checked (Task_origin d) = True"
| "hook_checked (Task_release d) = True"
| "hook_checked (Task_test (Suc d)) = True"
| "hook_checked (Task_locked (Suc d)) = True"
| "hook_checked (Task_return (Suc d) ret) = True"
| "hook_checked (Task_dummy (Suc d)) = True"
| "hook_checked pc = False"

definition hook_inv :: "hook_sys \<Rightarrow> bool" where
  "hook_inv s \<longleftrightarrow>
     limit_map_size (hs_st s) = 0x1000 \<and>
     (is_locked (hs_st s) \<longrightarrow> (\<exists>t \<in> set (hs_tasks s). hook_holds (ht_pc t))) \<and>
     (\<forall>t \<in> set (hs_tasks s). device_call t \<and> (hook_checked (ht_pc t) \<longrightarrow> hook_admits (ht_vma t)))"

section \<open>Loading and unloading\<close>

datatype hook_call =
  Unregister_kprobe | Unregister_ftrace | Filter_remove | Free_spin | Free_lock | Free_ops | Free_ctx

record hook_env =
  he_ctx_alloc :: bool
  he_kprobe_ret :: c_int
  he_kp_addr :: u64
  he_ops_alloc :: bool
  he_lock_alloc :: bool
  he_spin_alloc :: bool
  he_filter_ret :: c_int
  he_register_ret :: c_int

text \<open>The two pointers are uninitialised memory until they are set.\<close>

record hook_ctx =
  hc_target_addr :: u64
  hc_limit :: u64
  hc_ops :: "bool option"
  hc_lock :: "bool option"

definition ivshmem_ctx_create :: "hook_env \<Rightarrow> hook_ctx option \<times> hook_call list" where
  "ivshmem_ctx_create env =
     (if \<not> he_ctx_alloc env then (None, [])
      else if he_kprobe_ret env < 0 then (None, [Free_ctx])
      else if he_kp_addr env = 0 then (None, [Free_ctx])
      else (Some \<lparr>hc_target_addr = he_kp_addr env, hc_limit = 0x1000, hc_ops = None, hc_lock = None\<rparr>, []))"

definition ivshmem_ops_create :: "hook_env \<Rightarrow> bool" where "ivshmem_ops_create env = he_ops_alloc env"

definition ivshmem_lock_create :: "hook_env \<Rightarrow> bool \<times> hook_call list" where
  "ivshmem_lock_create env =
     (if \<not> he_lock_alloc env then (False, [])
      else if \<not> he_spin_alloc env then (False, [Free_lock])
      else (True, []))"

definition ivshmem_uio_hook_exit_ctx :: "hook_ctx option \<Rightarrow> (c_int \<times> hook_call list) c_result" where
  "ivshmem_uio_hook_exit_ctx ctx =
     (case ctx of
        None \<Rightarrow> Inr (- EINVAL, [])
      | Some c \<Rightarrow>
        (case (hc_ops c, hc_lock c) of
           (Some ops, Some lock) \<Rightarrow>
             Inr (0, [Unregister_kprobe, Unregister_ftrace, Filter_remove]
                     @ (if lock then [Free_spin, Free_lock] else []) @ (if ops then [Free_ops] else []) @ [Free_ctx])
         | _ \<Rightarrow> Inl UninitRead))"

definition ivshmem_uio_hook_init ::
  "hook_env \<Rightarrow> hook_ctx option \<Rightarrow> (c_int \<times> hook_ctx option \<times> hook_call list) c_result" where
  "ivshmem_uio_hook_init env g_ctx =
     (if g_ctx \<noteq> None then Inr (- EINVAL, g_ctx, [])
      else
        case ivshmem_ctx_create env of
          (None, calls) \<Rightarrow> Inr (- ENOMEM, None, calls)
        | (Some ctx, calls) \<Rightarrow>
          let bail = (\<lambda>c ret calls. case ivshmem_uio_hook_exit_ctx (Some c) of
                         Inl e \<Rightarrow> Inl e
                       | Inr (r, released) \<Rightarrow> Inr (ret, None, calls @ released))
          in
          if \<not> ivshmem_ops_create env then bail ctx (- ENOMEM) calls
          else
            case ivshmem_lock_create env of
              (False, freed) \<Rightarrow> bail ctx (- ENOMEM) (calls @ freed)
            | (True, freed) \<Rightarrow>
              let ctx1 = ctx\<lparr>hc_ops := Some True, hc_lock := Some True\<rparr> in
              if he_filter_ret env < 0 then bail ctx1 (he_filter_ret env) (calls @ freed)
              else if he_register_ret env < 0 then bail ctx1 (he_register_ret env) (calls @ freed)
              else Inr (0, Some ctx1, calls @ freed))"

text \<open>Unloading; the pointer \<^verbatim>\<open>g_ctx\<close> is what the initialisation has left.\<close>

definition ivshmem_uio_hook_exit :: "hook_ctx option \<Rightarrow> (c_int \<times> hook_call list) c_result" where
  "ivshmem_uio_hook_exit g_ctx = ivshmem_uio_hook_exit_ctx g_ctx"

definition good_env :: hook_env where
  "good_env =
     \<lparr>he_ctx_alloc = True, he_kprobe_ret = 0, he_kp_addr = 0xffffffffc0000000, he_ops_alloc = True, he_lock_alloc = True,
      he_spin_alloc = True, he_filter_ret = 0, he_register_ret = 0\<rparr>"

section \<open>Properties\<close>

lemma sint_small:
  fixes w :: u64
  assumes "unat w < 2 ^ 63"
  shows "sint w = int (unat w)"
proof -
  have "int (unat w) < int (2 ^ 63)" using assms by (simp only: of_nat_less_iff)
  then have u: "uint w < 2 ^ 63" by simp
  have "signed_take_bit 63 (uint w) = uint w"
    by (rule signed_take_bit_int_eq_self) (use uint_ge_0 [of w] u in linarith)+
  then show ?thesis by (simp add: sint_uint)
qed

lemma sint_large:
  fixes w :: u64
  assumes "2 ^ 63 \<le> unat w"
  shows "sint w < 0"
proof (rule ccontr)
  assume "\<not> sint w < 0"
  moreover have lt: "sint w < 2 ^ 63" using sint_less [of w] by simp
  ultimately have "take_bit 64 (sint w) = sint w" by (intro take_bit_int_eq_self) simp_all
  then have "uint w = sint w" using uint_sint [of w] by simp
  moreover have "int (2 ^ 63) \<le> int (unat w)" using assms by (simp only: of_nat_le_iff)
  ultimately show False using lt by simp
qed

lemma guards_eq:
  assumes "vma_aligned vma" and "file_mmap_ok vma"
  shows "guard_control vma \<longleftrightarrow> (vma_off vma = 0 \<or> 2 ^ 63 \<le> vma_off vma) \<and> 0x1000 < vma_off vma + vma_len vma"
    and "guard_data vma \<longleftrightarrow> 0 < vma_off vma \<and> vma_off vma < 2 ^ 63 \<and> 0x200000 < vma_off vma + vma_len vma"
    and "unat (hook_length vma) = vma_len vma"
proof -
  have o: "unat (hook_offset vma) = vma_off vma"
    using unat_offset [OF assms(2)] by (simp add: hook_offset_def vma_off_def)
  show l: "unat (hook_length vma) = vma_len vma"
    using vma_length(1) [OF assms(1)] by (simp add: hook_length_def vma_len_def)
  have s: "unat (hook_offset vma + hook_length vma) = vma_off vma + vma_len vma"
    using o l assms(2) by (subst unat_add_no_wrap) (simp_all add: file_mmap_ok_def vma_off_def vma_len_def)
  have lt: "sint (hook_offset vma) < 0x1000 \<longleftrightarrow> vma_off vma < 0x1000 \<or> 2 ^ 63 \<le> vma_off vma"
    using sint_small [of "hook_offset vma"] sint_large [of "hook_offset vma"] o
    by (cases "vma_off vma < 2 ^ 63") auto
  have z: "vma_off vma < 0x1000 \<longleftrightarrow> vma_off vma = 0" by (auto simp: vma_off_def)
  show "guard_control vma \<longleftrightarrow> (vma_off vma = 0 \<or> 2 ^ 63 \<le> vma_off vma) \<and> 0x1000 < vma_off vma + vma_len vma"
    by (simp add: guard_control_def MIN_VALID_OFFSET_def lt z word_less_nat_alt s)
  show "guard_data vma \<longleftrightarrow> 0 < vma_off vma \<and> vma_off vma < 2 ^ 63 \<and> 0x200000 < vma_off vma + vma_len vma"
    using lt z by (auto simp: guard_data_def MIN_VALID_OFFSET_def MAX_ALLOWED_MMAP_SIZE_def word_less_nat_alt s not_less)
qed

lemma guards_admit:
  assumes "vma_aligned vma" and "file_mmap_ok vma"
  shows "guard_control vma \<or> guard_data vma \<or> 0x1000 < hook_length vma \<longleftrightarrow> \<not> hook_admits vma"
  using guards_eq [OF assms] by (auto simp: hook_admits_def word_less_nat_alt)

lemma hook_locked_eq:
  assumes "vma_aligned vma" and "file_mmap_ok vma" and "limit_map_size st = 0x1000"
    and "take (length HOOK_DNAME) dname = HOOK_DNAME"
  shows "hook_locked_part st (Some dname) vma = (st\<lparr>is_locked := True\<rparr>, if hook_admits vma then Origin_mmap else Dummy_mmap)"
  using assms(3,4) guards_admit [OF assms(1,2)]
  by (auto simp: hook_locked_part_def ivshmem_mmap_guard_def EINVAL_def Let_def)

lemma hook_func_eq:
  assumes "vma_aligned vma" and "file_mmap_ok vma" and "\<not> is_locked st" and "limit_map_size st = 0x1000"
    and "take (length HOOK_DNAME) dname = HOOK_DNAME"
  shows "ivshmem_ftrace_hook_func st False (Some dname) (Some vma) =
    (st\<lparr>is_locked := True\<rparr>, if hook_admits vma then Origin_mmap else Dummy_mmap)"
  using assms(3) hook_locked_eq [OF assms(1,2,4,5)] by (simp add: ivshmem_ftrace_hook_func_def)



lemma whole_vma_ok: "vma_aligned whole_vma" "file_mmap_ok whole_vma" "\<not> hook_admits whole_vma"
  by (simp_all add: vma_aligned_def file_mmap_ok_def whole_vma_def hook_admits_def vma_len_def)

lemma page_vma_ok: "vma_aligned page_vma" "file_mmap_ok page_vma" "hook_admits page_vma"
  by (simp_all add: vma_aligned_def file_mmap_ok_def page_vma_def hook_admits_def vma_len_def vma_off_def)

lemma hook_task_inv:
  assumes inv: "hook_inv s" and t: "t \<in> set (hs_tasks s)" and step: "hook_task_step origin (hs_st s) t = Some (st, t')"
  shows "limit_map_size st = 0x1000 \<and> device_call t' \<and> (hook_checked (ht_pc t') \<longrightarrow> hook_admits (ht_vma t')) \<and>
    (is_locked st \<longrightarrow> hook_holds (ht_pc t') \<or> is_locked (hs_st s) \<and> \<not> hook_holds (ht_pc t))"
proof -
  have d: "vma_aligned (ht_vma t)" "file_mmap_ok (ht_vma t)" "take (length HOOK_DNAME) (ht_dname t) = HOOK_DNAME"
    "limit_map_size (hs_st s) = 0x1000" "hook_checked (ht_pc t) \<longrightarrow> hook_admits (ht_vma t)"
    using inv t by (auto simp: hook_inv_def device_call_def)
  note l = hook_locked_eq [OF d(1,2,4,3)]
  show ?thesis
  proof (cases "ht_pc t")
    case (Task_test k)
    then show ?thesis using step d
      by (cases k) (auto simp: hook_task_step_def device_call_def split: if_splits option.splits)
  next
    case (Task_locked k)
    then show ?thesis using step d l
      by (cases k) (auto simp: hook_task_step_def device_call_def split: if_splits)
  next
    case (Task_dummy k)
    then show ?thesis using step d
      by (cases k) (auto simp: hook_task_step_def device_call_def ivshmem_dummy_mmap_def)
  next
    case (Task_return k ret)
    then show ?thesis using step d
      by (cases k) (auto simp: hook_task_step_def device_call_def)
  next
    case (Task_release k)
    then show ?thesis using step d
      by (cases k) (auto simp: hook_task_step_def device_call_def)
  qed (use step d in \<open>auto simp: hook_task_step_def device_call_def\<close>)
qed

lemma hook_inv_step:
  assumes inv: "hook_inv s" and step: "hook_step origin s s'"
  shows "hook_inv s'"
  using step
proof cases
  case (hook_task i st t)
  let ?t = "hs_tasks s ! i"
  have "?t \<in> set (hs_tasks s)" using hook_task(2) by simp
  note k = hook_task_inv [OF inv this hook_task(3)]
  have "\<exists>u \<in> set ((hs_tasks s)[i := t]). hook_holds (ht_pc u)" if "is_locked st"
  proof (cases "hook_holds (ht_pc t)")
    case True
    then show ?thesis using hook_task(2) by (metis set_update_memI)
  next
    case False
    then have "is_locked (hs_st s)" "\<not> hook_holds (ht_pc ?t)" using k that by auto
    then obtain u where u: "u \<in> set (hs_tasks s)" "hook_holds (ht_pc u)" using inv by (auto simp: hook_inv_def)
    then obtain j where j: "j < length (hs_tasks s)" "u = hs_tasks s ! j" by (auto simp: in_set_conv_nth)
    moreover have "i \<noteq> j" using j u(2) \<open>\<not> hook_holds (ht_pc ?t)\<close> by auto
    ultimately have "u = (hs_tasks s)[i := t] ! j" "j < length ((hs_tasks s)[i := t])" by simp_all
    then show ?thesis using u(2) by (metis nth_mem)
  qed
  then show ?thesis
    using inv k unfolding hook_task(1) hook_inv_def by (auto dest!: set_update_subset_insert [THEN subsetD])
qed

lemma hook_inv_begin: "hook_begin s \<Longrightarrow> hook_inv s"
proof -
  assume b: "hook_begin s"
  then have "ht_pc t = Task_test 0" if "t \<in> set (hs_tasks s)" for t
    using that unfolding hook_begin_def hook_enter_def by (metis hook_task.select_convs(1))
  then show "hook_inv s" using b by (auto simp: hook_begin_def hook_inv_def)
qed

interpretation hook: safe_system hook_begin "hook_step origin" hook_inv
  by unfold_locales (auto intro: hook_inv_begin hook_inv_step)

lemma hook_alone_step:
  "hook_task_step origin st t = Some (st', t') \<Longrightarrow>
   hook_step origin \<lparr>hs_st = st, hs_tasks = [t]\<rparr> \<lparr>hs_st = st', hs_tasks = [t']\<rparr>"
  using hook_task [of 0 "\<lparr>hs_st = st, hs_tasks = [t]\<rparr>" origin st' t'] by simp

text \<open>A task that runs alone, and whose call the hook takes, gets what one undisturbed call gives.\<close>

lemma hook_alone:
  assumes "\<not> is_locked st" and "hooked_mmap origin dname vma st = Some (ret, maps, st')"
  shows "steps (hook_step origin) \<lparr>hs_st = st, hs_tasks = [hook_enter dname vma]\<rparr>
    \<lparr>hs_st = st', hs_tasks = [(hook_enter dname vma)\<lparr>ht_pc := Task_done ret, ht_maps := maps\<rparr>]\<rparr>"
proof -
  let ?t = "\<lambda>pc. (hook_enter dname vma)\<lparr>ht_pc := pc\<rparr>" and ?u = "\<lambda>pc. (hook_enter dname vma)\<lparr>ht_pc := pc, ht_maps := maps\<rparr>"
  define target where "target = snd (hook_locked_part st (Some dname) vma)"
  have l: "hook_locked_part st (Some dname) vma = (st\<lparr>is_locked := True\<rparr>, target)" "target \<noteq> Continue_mmap"
    by (simp_all add: hook_locked_part_def target_def Let_def)
  have a: "hook_step origin \<lparr>hs_st = st, hs_tasks = [hook_enter dname vma]\<rparr> \<lparr>hs_st = st, hs_tasks = [?t (Task_locked 0)]\<rparr>"
    using assms(1) by (intro hook_alone_step) (simp add: hook_task_step_def hook_enter_def)
  show ?thesis
  proof (cases "target = Dummy_mmap")
    case True
    then have r: "ret = - EINVAL" "maps = []" "st' = st\<lparr>is_locked := False\<rparr>"
      using assms l(1) by (auto simp: hooked_mmap_def ivshmem_ftrace_hook_func_def ivshmem_dummy_mmap_def)
    have "hook_step origin \<lparr>hs_st = st, hs_tasks = [?t (Task_locked 0)]\<rparr> \<lparr>hs_st = st\<lparr>is_locked := True\<rparr>, hs_tasks = [?t (Task_dummy 0)]\<rparr>"
      "hook_step origin \<lparr>hs_st = st\<lparr>is_locked := True\<rparr>, hs_tasks = [?t (Task_dummy 0)]\<rparr> \<lparr>hs_st = st', hs_tasks = [?u (Task_return 0 ret)]\<rparr>"
      "hook_step origin \<lparr>hs_st = st', hs_tasks = [?u (Task_return 0 ret)]\<rparr> \<lparr>hs_st = st', hs_tasks = [?u (Task_done ret)]\<rparr>"
      using True l(1) r by (auto intro!: hook_alone_step simp: hook_task_step_def hook_enter_def ivshmem_dummy_mmap_def)
    with a show ?thesis by (blast intro: steps.intros)
  next
    case False
    with l(2) have "target = Origin_mmap" by (cases target) auto
    then obtain r where r: "origin vma = Some (r, maps)" "ret = 0" "st' = st\<lparr>is_locked := False\<rparr>"
      using assms l(1) by (auto simp: hooked_mmap_def ivshmem_ftrace_hook_func_def ivshmem_origin_mmap_def split: option.splits)
    let ?st = "st\<lparr>is_locked := True\<rparr>"
    have "hook_step origin \<lparr>hs_st = st, hs_tasks = [?t (Task_locked 0)]\<rparr> \<lparr>hs_st = ?st, hs_tasks = [?t (Task_origin 0)]\<rparr>"
      "hook_step origin \<lparr>hs_st = ?st, hs_tasks = [?t (Task_origin 0)]\<rparr> \<lparr>hs_st = ?st, hs_tasks = [?t (Task_test 1)]\<rparr>"
      "hook_step origin \<lparr>hs_st = ?st, hs_tasks = [?t (Task_test 1)]\<rparr> \<lparr>hs_st = ?st, hs_tasks = [?u (Task_return 1 r)]\<rparr>"
      "hook_step origin \<lparr>hs_st = ?st, hs_tasks = [?u (Task_return 1 r)]\<rparr> \<lparr>hs_st = ?st, hs_tasks = [?u (Task_release 0)]\<rparr>"
      "hook_step origin \<lparr>hs_st = ?st, hs_tasks = [?u (Task_release 0)]\<rparr> \<lparr>hs_st = st', hs_tasks = [?u (Task_return 0 0)]\<rparr>"
      "hook_step origin \<lparr>hs_st = st', hs_tasks = [?u (Task_return 0 0)]\<rparr> \<lparr>hs_st = st', hs_tasks = [?u (Task_done ret)]\<rparr>"
      using \<open>target = Origin_mmap\<close> l(1) r by (auto intro!: hook_alone_step simp: hook_task_step_def hook_enter_def)
    with a show ?thesis by (blast intro: steps.intros)
  qed
qed

text \<open>
  C30.  The hook with any number of tasks, whose calls are interleaved at the test of the
  flag, the checks, the nested call and the release: an area that the hook would refuse is
  mapped only by a call whose test finds the flag set by another task that is between its
  checks and its release.
\<close>

theorem hook_unchecked_needs_other:
  assumes "reach hook_begin (hook_step origin) s" and "hook_step origin s s'" and "i < length (hs_tasks s)"
    and "ht_maps (hs_tasks s' ! i) \<noteq> ht_maps (hs_tasks s ! i)" and "\<not> hook_admits (ht_vma (hs_tasks s ! i))"
  shows "is_locked (hs_st s) \<and> ht_pc (hs_tasks s ! i) = Task_test 0 \<and>
    (\<exists>j < length (hs_tasks s). j \<noteq> i \<and> hook_holds (ht_pc (hs_tasks s ! j)))"
proof -
  have inv: "hook_inv s" by (rule hook.reach_inv [OF assms(1)])
  have t: "\<not> hook_checked (ht_pc (hs_tasks s ! i))" using inv assms(3,5) by (auto simp: hook_inv_def)
  have pc: "is_locked (hs_st s) \<and> ht_pc (hs_tasks s ! i) = Task_test 0"
    using assms(2)
  proof cases
    case (hook_task j st t')
    then have "j = i" using assms(4) by (cases "j = i") auto
    then have h: "hook_task_step origin (hs_st s) (hs_tasks s ! i) = Some (st, t')" "ht_maps t' \<noteq> ht_maps (hs_tasks s ! i)"
      using hook_task assms(3,4) by auto
    then obtain d where "ht_pc (hs_tasks s ! i) = Task_test d" "is_locked (hs_st s)"
      by (auto simp: hook_task_step_def split: hook_pc.splits if_splits prod.splits)
    then show ?thesis using t by (cases d) auto
  qed
  then obtain u where u: "u \<in> set (hs_tasks s)" "hook_holds (ht_pc u)" using inv by (auto simp: hook_inv_def)
  then obtain j where "j < length (hs_tasks s)" "u = hs_tasks s ! j" by (auto simp: in_set_conv_nth)
  then show ?thesis using u(2) pc by (intro conjI exI [of _ j]) auto
qed

lemma race_run:
  "\<exists>s0 s1. hook_begin race_start \<and> steps (hook_step (myshm_mmap (\<lambda>_ _. 0))) race_start s0 \<and>
     hook_step (myshm_mmap (\<lambda>_ _. 0)) s0 s1 \<and> length (hs_tasks s0) = 2 \<and>
     ht_vma (hs_tasks s0 ! 1) = whole_vma \<and> ht_maps (hs_tasks s0 ! 1) = [] \<and>
     ht_pc (hs_tasks s1 ! 1) = Task_return 0 0 \<and> ht_vma (hs_tasks s1 ! 1) = whole_vma \<and> length (ht_maps (hs_tasks s1 ! 1)) = 1024 \<and>
     length (hs_tasks s1) = 2"
proof -
  let ?m = "myshm_mmap (\<lambda>_ _. 0)" and ?st = "\<lparr>is_locked = False, limit_map_size = 0x1000 :: u64\<rparr>"
  obtain maps where m: "?m whole_vma = Some (0, maps)" "length maps = 1024"
    using myshm_mmap_pages [OF whole_vma_ok(1,2), of "\<lambda>_ _. 0"] by (auto simp: whole_vma_def Let_def)
  have h: "hook_locked_part ?st (Some ''myshm'') page_vma = (?st\<lparr>is_locked := True\<rparr>, Origin_mmap)"
    using hook_locked_eq [OF page_vma_ok(1,2), of ?st "''myshm''"] page_vma_ok(3) by (simp add: HOOK_DNAME_def)
  let ?a = "\<lambda>pc. (hook_enter ''myshm'' page_vma)\<lparr>ht_pc := pc\<rparr>" and ?b = "hook_enter ''myshm'' whole_vma"
  let ?s = "\<lambda>st a b. \<lparr>hs_st = st, hs_tasks = [a, b]\<rparr>"
  have "hook_step ?m race_start (?s ?st (?a (Task_locked 0)) ?b)"
    using hook_task [of 0 race_start ?m ?st "?a (Task_locked 0)"] by (simp add: race_start_def hook_task_step_def hook_enter_def)
  moreover have "hook_step ?m (?s ?st (?a (Task_locked 0)) ?b) (?s (?st\<lparr>is_locked := True\<rparr>) (?a (Task_origin 0)) ?b)"
    using hook_task [of 0 "?s ?st (?a (Task_locked 0)) ?b" ?m "?st\<lparr>is_locked := True\<rparr>" "?a (Task_origin 0)"] h
    by (simp add: hook_task_step_def hook_enter_def)
  ultimately have "steps (hook_step ?m) race_start (?s (?st\<lparr>is_locked := True\<rparr>) (?a (Task_origin 0)) ?b)"
    by (blast intro: steps.intros)
  moreover have "hook_step ?m (?s (?st\<lparr>is_locked := True\<rparr>) (?a (Task_origin 0)) ?b)
      (?s (?st\<lparr>is_locked := True\<rparr>) (?a (Task_origin 0)) (?b\<lparr>ht_pc := Task_return 0 0, ht_maps := maps\<rparr>))"
    using hook_task [of 1 "?s (?st\<lparr>is_locked := True\<rparr>) (?a (Task_origin 0)) ?b" ?m "?st\<lparr>is_locked := True\<rparr>"
        "?b\<lparr>ht_pc := Task_return 0 0, ht_maps := maps\<rparr>"] m(1)
    by (simp add: hook_task_step_def hook_enter_def)
  moreover have "hook_begin race_start"
    using whole_vma_ok page_vma_ok by (auto simp: hook_begin_def race_start_def hook_enter_def device_call_def HOOK_DNAME_def)
  ultimately show ?thesis using m(2) by (intro exI conjI) (assumption | simp add: hook_enter_def)+
qed

theorem hook_unchecked_needs_other_witness:
  "\<exists>s. reach hook_begin (hook_step (myshm_mmap (\<lambda>_ _. 0))) s \<and> is_locked (hs_st s) \<and>
     (\<exists>j < length (hs_tasks s). j \<noteq> 1 \<and> hook_holds (ht_pc (hs_tasks s ! j)))"
proof -
  obtain s0 s1 where r: "hook_begin race_start" "steps (hook_step (myshm_mmap (\<lambda>_ _. 0))) race_start s0"
     "hook_step (myshm_mmap (\<lambda>_ _. 0)) s0 s1" "length (hs_tasks s0) = 2" "ht_vma (hs_tasks s0 ! 1) = whole_vma"
     "ht_maps (hs_tasks s0 ! 1) = []" "length (ht_maps (hs_tasks s1 ! 1)) = 1024"
    using race_run by blast
  have s: "reach hook_begin (hook_step (myshm_mmap (\<lambda>_ _. 0))) s0" by (rule reach_steps [OF r(2) reach_init [where init = hook_begin, OF r(1)]])
  have "ht_maps (hs_tasks s1 ! 1) \<noteq> ht_maps (hs_tasks s0 ! 1)" using r(6,7) by auto
  with hook_unchecked_needs_other [OF s r(3) _ this] show ?thesis
    by (intro exI [of _ s0] conjI s) (use r(4,5) whole_vma_ok(3) in auto)
qed

text \<open>
  C31.  The flag that lets the nested call through also lets other tasks through: while one
  task is on its way to the driver, a second task maps the whole 4 MB, which the hook would
  refuse, and is told that it has succeeded.
\<close>

theorem hook_bypassed_by_second_task:
  "\<exists>s. steps (hook_step (myshm_mmap (\<lambda>_ _. 0))) race_start s \<and>
     ht_vma (hs_tasks s ! 1) = whole_vma \<and> \<not> hook_admits whole_vma \<and>
     ht_pc (hs_tasks s ! 1) = Task_done 0 \<and> length (ht_maps (hs_tasks s ! 1)) = 1024"
proof -
  let ?m = "myshm_mmap (\<lambda>_ _. 0)"
  obtain s0 s1 where r: "steps (hook_step ?m) race_start s0" "hook_step ?m s0 s1" "length (hs_tasks s1) = 2"
     "ht_vma (hs_tasks s1 ! 1) = whole_vma" "ht_pc (hs_tasks s1 ! 1) = Task_return 0 0" "length (ht_maps (hs_tasks s1 ! 1)) = 1024"
    using race_run by blast
  let ?t = "(hs_tasks s1 ! 1)\<lparr>ht_pc := Task_done 0\<rparr>"
  have "hook_step ?m s1 (s1\<lparr>hs_st := hs_st s1, hs_tasks := (hs_tasks s1)[1 := ?t]\<rparr>)"
    using r(3,5) by (intro hook_task) (simp_all add: hook_task_step_def)
  with r(1,2) have run: "steps (hook_step ?m) race_start (s1\<lparr>hs_st := hs_st s1, hs_tasks := (hs_tasks s1)[1 := ?t]\<rparr>)"
    by (intro steps_trans [OF r(1)]) (rule steps_step, assumption, rule steps_step, assumption, rule steps_refl)
  show ?thesis by (rule exI, rule conjI, rule run) (use r(3-6) whole_vma_ok(3) in simp)
qed

theorem hook_hides_driver_error:
  "\<exists>st'. hooked_mmap (myshm_mmap (\<lambda>_ _. - 12)) ''myshm'' page_vma \<lparr>is_locked = False, limit_map_size = 0x1000\<rparr> =
      Some (0, [], st') \<and> myshm_mmap (\<lambda>_ _. - 12) page_vma = Some (- EAGAIN, [])"
proof -
  let ?st = "\<lparr>is_locked = False, limit_map_size = 0x1000 :: u64\<rparr>"
  have m: "myshm_mmap (\<lambda>_ _. - 12) page_vma = Some (- EAGAIN, [])"
    by (simp add: myshm_mmap_def page_vma_def Let_def MEM_SIZE_def myshm_mmap_loop.simps push_bit_eq_mult)
  have h: "ivshmem_ftrace_hook_func ?st False (Some ''myshm'') (Some page_vma) = (?st\<lparr>is_locked := True\<rparr>, Origin_mmap)"
    using hook_func_eq [OF page_vma_ok(1,2), of ?st "''myshm''"] page_vma_ok(3) by (simp add: HOOK_DNAME_def)
  show ?thesis by (simp add: hooked_mmap_def h ivshmem_origin_mmap_def m)
qed


theorem hook_load_reads_garbage:
  assumes "he_ctx_alloc env" and "0 \<le> he_kprobe_ret env" and "he_kp_addr env \<noteq> 0"
  shows "ivshmem_uio_hook_init env None = Inl UninitRead \<longleftrightarrow>
    \<not> (he_ops_alloc env \<and> he_lock_alloc env \<and> he_spin_alloc env)"
  using assms
  by (auto simp: ivshmem_uio_hook_init_def ivshmem_ctx_create_def ivshmem_ops_create_def ivshmem_lock_create_def ivshmem_uio_hook_exit_ctx_def
      Let_def)


theorem hook_load_reads_garbage_witness:
  "ivshmem_uio_hook_init (good_env\<lparr>he_ops_alloc := False\<rparr>) None = Inl UninitRead"
  using hook_load_reads_garbage [of "good_env\<lparr>he_ops_alloc := False\<rparr>"] by (simp add: good_env_def)

end
