(* ===== verification/Test_Programs.thy ===== *)
theory Test_Programs
  imports Uio_Hook Ivshmem_Lib
begin

text \<open>
  The two test programs of the kernel modules, \<^verbatim>\<open>kernel_module/test_app/uio_test.c\<close> and
  \<^verbatim>\<open>dev_shm/examples/write_test.c\<close>, run against the models of the driver and the hook.
  What \<^verbatim>\<open>open\<close> returns is an argument; \<^verbatim>\<open>mmap\<close> is a function of the length and the offset,
  which the properties instantiate with the driver, plain or hooked.
\<close>

section \<open>The programs\<close>

definition EPERM :: c_int where [ivshmem_consts]: "EPERM = 1"

definition EXIT_FAILURE :: c_int where [ivshmem_consts]: "EXIT_FAILURE = 1"

definition CONTROL_SECTION_SIZE :: nat where [ivshmem_consts]: "CONTROL_SECTION_SIZE = 0x1000"

definition TEST_DATA_SECTION_SIZE :: nat where [ivshmem_consts]: "TEST_DATA_SECTION_SIZE = 0x1FF000"

text \<open>The variant of \<^verbatim>\<open>uio_test.c\<close>, chosen by a preprocessor definition, with its length and offset.\<close>

datatype uio_test_variant = INVALID_LENGTH | SIZE_EXCEEDS | OVERFLOW_LENGTH | SUCCESS_MMAP

fun uio_test_request :: "uio_test_variant \<Rightarrow> nat \<times> nat" where
  "uio_test_request INVALID_LENGTH = (0x2000, 0)"
| "uio_test_request SIZE_EXCEEDS = (TEST_DATA_SECTION_SIZE, 0x2000)"
| "uio_test_request OVERFLOW_LENGTH = (TEST_DATA_SECTION_SIZE - 0x2000, 0x1000)"
| "uio_test_request SUCCESS_MMAP = (CONTROL_SECTION_SIZE, 0)"

definition uio_test_main :: "c_int \<Rightarrow> (nat \<times> nat \<Rightarrow> c_ptr) \<Rightarrow> uio_test_variant \<Rightarrow> c_int \<times> os_call list" where
  "uio_test_main fd os_mmap variant =
     (if fd < 0 then (- EPERM, [])
      else
        let target_addr = os_mmap (uio_test_request variant);
            calls = (if target_addr = Map_failed then [] else [Os_munmap target_addr 0x1000])
        in (0, calls @ [Os_close fd]))"

text \<open>
  \<^verbatim>\<open>write_test.c\<close>: the exit status, the value that is printed, the bytes of the device, and
  the calls that release something.
\<close>

definition TEST_SIZE :: nat where [ivshmem_consts]: "TEST_SIZE = 4 * 1024 * 1024"

definition store_u32 :: "nat \<Rightarrow> u32 \<Rightarrow> (nat \<Rightarrow> byte) \<Rightarrow> nat \<Rightarrow> byte" where
  "store_u32 a v mem = (\<lambda>i. if a \<le> i \<and> i < a + 4 then ucast (drop_bit (8 * (i - a)) v) else mem i)"

definition load_u32 :: "nat \<Rightarrow> (nat \<Rightarrow> byte) \<Rightarrow> u32" where
  "load_u32 a mem = (\<Sum>i<4. push_bit (8 * i) (ucast (mem (a + i))))"

definition write_test_main ::
  "c_int \<Rightarrow> (nat \<times> nat \<Rightarrow> c_ptr) \<Rightarrow> (nat \<Rightarrow> byte) \<Rightarrow> c_int \<times> u32 option \<times> (nat \<Rightarrow> byte) \<times> os_call list" where
  "write_test_main fd os_mmap mem =
     (if fd < 0 then (EXIT_FAILURE, None, mem, [])
      else
        let addr = os_mmap (TEST_SIZE, 0) in
        if addr = Map_failed then (EXIT_FAILURE, None, mem, [Os_close fd])
        else
          let mem1 = store_u32 0 0xDEADBEEF mem in
          (0, Some (load_u32 0 mem1), mem1, [Os_munmap addr (int TEST_SIZE), Os_close fd]))"

section \<open>The system call\<close>

text \<open>What a program's \<^verbatim>\<open>mmap\<close> call returns, given what the driver's function returned for its area.\<close>

definition mmap_result :: "(c_int \<times> 'a) option \<Rightarrow> nat \<Rightarrow> c_ptr" where
  "mmap_result r addr = (case r of Some (ret, _) \<Rightarrow> if ret < 0 then Map_failed else Ptr addr | None \<Rightarrow> Map_failed)"

text \<open>The area that the kernel passes to the driver for a request of whole pages placed at \<open>addr\<close>.\<close>

fun mmap_area :: "nat \<Rightarrow> nat \<times> nat \<Rightarrow> vm_area" where
  "mmap_area addr (len, off) =
     \<lparr>vm_start = word_of_nat addr, vm_end = word_of_nat (addr + len), vm_pgoff = word_of_nat (off div 4096)\<rparr>"

definition plain_os_mmap :: "(u64 \<Rightarrow> u64 \<Rightarrow> c_int) \<Rightarrow> nat \<Rightarrow> nat \<times> nat \<Rightarrow> c_ptr" where
  "plain_os_mmap remap addr req = mmap_result (myshm_mmap remap (mmap_area addr req)) addr"

definition hooked_os_mmap :: "(u64 \<Rightarrow> u64 \<Rightarrow> c_int) \<Rightarrow> hook_st \<Rightarrow> nat \<Rightarrow> nat \<times> nat \<Rightarrow> c_ptr" where
  "hooked_os_mmap remap st addr req =
     mmap_result (map_option (\<lambda>(ret, maps, st'). (ret, maps)) (hooked_mmap (myshm_mmap remap) ''myshm'' (mmap_area addr req) st)) addr"

text \<open>User space addresses: below \<open>2 ^ 47\<close>, in whole pages.\<close>

definition user_page :: "nat \<Rightarrow> bool" where "user_page addr \<longleftrightarrow> 4096 dvd addr \<and> addr < 2 ^ 47"

section \<open>Properties\<close>

lemma mmap_area_ok:
  assumes "user_page addr" and "4096 dvd len" and "len \<le> 2 ^ 22" and "4096 dvd off" and "off \<le> 2 ^ 22"
  shows "vma_aligned (mmap_area addr (len, off))" and "file_mmap_ok (mmap_area addr (len, off))"
    and "vma_len (mmap_area addr (len, off)) = len" and "vma_off (mmap_area addr (len, off)) = off"
    and "unat (vm_start (mmap_area addr (len, off))) = addr"
proof -
  have a: "unat (word_of_nat addr :: u64) = addr" and b: "unat (word_of_nat (addr + len) :: u64) = addr + len"
    and o: "unat (word_of_nat (off div 4096) :: u64) = off div 4096"
    using assms by (auto intro!: unat_of_nat_small simp: user_page_def simp del: of_nat_add)
  have d: "4096 * (off div 4096) = off" using assms(4) by simp
  show "unat (vm_start (mmap_area addr (len, off))) = addr" by (simp add: a)
  show l: "vma_len (mmap_area addr (len, off)) = len" using a b by (simp add: vma_len_def)
  show f: "vma_off (mmap_area addr (len, off)) = off" using o d by (simp add: vma_off_def)
  show "vma_aligned (mmap_area addr (len, off))"
    using a b assms(1,2) by (simp add: vma_aligned_def user_page_def word_le_nat_alt)
  show "file_mmap_ok (mmap_area addr (len, off))"
    using l f assms(3,5) by (simp add: file_mmap_ok_def vma_len_def vma_off_def)
qed

lemma uio_test_request_ok:
  assumes "uio_test_request variant = (len, off)"
  shows "4096 dvd len" and "len \<le> 2 ^ 22" and "4096 dvd off" and "off \<le> 2 ^ 22"
  using assms by (cases variant; auto simp: TEST_DATA_SECTION_SIZE_def CONTROL_SECTION_SIZE_def)+

lemma hooked_os_mmap_eq:
  assumes "user_page addr" and "4096 dvd len" and "len \<le> 2 ^ 22" and "4096 dvd off" and "off \<le> 2 ^ 22"
    and "\<not> is_locked st" and "limit_map_size st = 0x1000"
  shows "hooked_os_mmap remap st addr (len, off) =
    (if len \<le> 0x1000 \<and> (off = 0 \<or> off + len \<le> 0x200000) then Ptr addr else Map_failed)"
proof -
  note v = mmap_area_ok [OF assms(1-5)]
  have t: "take (length HOOK_DNAME) ''myshm'' = HOOK_DNAME" by (simp add: HOOK_DNAME_def)
  note h = hook_func_eq [OF v(1,2) assms(6,7) t]
  have le: "\<exists>r. myshm_mmap remap (mmap_area addr (len, off)) = Some r"
    using myshm_mmap_pages [OF v(1,2), of remap] by (auto simp: Let_def split: if_splits)
  show ?thesis
    using h le v(3,4)
    by (auto simp: hooked_os_mmap_def hooked_mmap_def hook_admits_def mmap_result_def ivshmem_origin_mmap_def
        ivshmem_dummy_mmap_def EINVAL_def simp del: mmap_area.simps)
qed

text \<open>
  The four variants of the hook's test program, run with the hook in place: the one that is
  named a success maps the control section, unmaps it and closes the device; for the other
  three the mapping is refused and only the device is closed.
\<close>



lemma test_value_read: "load_u32 0 (store_u32 0 0xDEADBEEF mem) = 0xDEADBEEF"
proof -
  have "{..<4 :: nat} = {0, 1, 2, 3}" by auto
  then show ?thesis by (simp add: load_u32_def store_u32_def)
qed

text \<open>
  The driver's test program: without the hook it prints the value it has stored, having
  changed the first four bytes of the device, the lower half of \<^verbatim>\<open>free_start_offset\<close>, and
  releases what it acquired; with the hook its mapping is refused and nothing is stored.
\<close>

theorem write_test_outcomes:
  assumes "user_page addr" and "0 \<le> fd" and "\<not> is_locked st" and "limit_map_size st = 0x1000"
    and "\<And>va off. remap va off = 0"
  shows "write_test_main fd (plain_os_mmap remap addr) mem =
      (0, Some 0xDEADBEEF, store_u32 0 0xDEADBEEF mem, [Os_munmap (Ptr addr) (int TEST_SIZE), Os_close fd]) \<and>
    write_test_main fd (hooked_os_mmap remap st addr) mem = (EXIT_FAILURE, None, mem, [Os_close fd])"
proof -
  have s: "4096 dvd TEST_SIZE" "TEST_SIZE \<le> 2 ^ 22" by (simp_all add: TEST_SIZE_def)
  note v = mmap_area_ok [OF assms(1) s dvd_0_right zero_le]
  have "hooked_os_mmap remap st addr (TEST_SIZE, 0) = Map_failed"
    using hooked_os_mmap_eq [OF assms(1) s _ _ assms(3,4)] by (simp add: TEST_SIZE_def)
  moreover have "\<exists>maps. myshm_mmap remap (mmap_area addr (TEST_SIZE, 0)) = Some (0, maps)"
    using myshm_mmap_pages [OF v(1,2), of remap] v(3,4) assms(5)
    by (auto simp: Let_def TEST_SIZE_def vma_len_def vma_off_def simp del: mmap_area.simps)
  then have "plain_os_mmap remap addr (TEST_SIZE, 0) = Ptr addr"
    by (auto simp: plain_os_mmap_def mmap_result_def simp del: mmap_area.simps)
  ultimately show ?thesis using assms(2) by (simp add: write_test_main_def Let_def test_value_read)
qed

end
