(* ===== verification/Client_Compat.thy ===== *)
theory Client_Compat
  imports Ivshmem_Prelude
begin

text \<open>
  The compatibility header of the ivshmem client, \<^verbatim>\<open>examples/ivshmem_client/compat.h\<close>: the
  byte order of the indices in the server's messages.  The bytes of a message are given in
  the order of their addresses; what a host reads from them depends on its byte order, and
  \<^verbatim>\<open>GINT64_FROM_LE\<close> makes up for it.
\<close>

section \<open>Bytes and words\<close>

unbundle bit_operations_syntax

fun le_word :: "byte list \<Rightarrow> u64" where
  "le_word [] = 0"
| "le_word (b # bs) = ucast b OR push_bit 8 (le_word bs)"

fun le_bytes :: "nat \<Rightarrow> u64 \<Rightarrow> byte list" where
  "le_bytes 0 w = []"
| "le_bytes (Suc n) w = ucast w # le_bytes n (drop_bit 8 w)"

text \<open>The word that a host reads from eight bytes in memory.\<close>

definition load_word :: "bool \<Rightarrow> byte list \<Rightarrow> u64" where
  "load_word big_endian bs = le_word (if big_endian then rev bs else bs)"

definition builtin_bswap64 :: "u64 \<Rightarrow> u64" where "builtin_bswap64 w = le_word (rev (le_bytes 8 w))"

definition GINT64_FROM_LE :: "bool \<Rightarrow> u64 \<Rightarrow> u64" where
  "GINT64_FROM_LE big_endian x = (if \<not> big_endian then x else builtin_bswap64 x)"

text \<open>The platform is little-endian; nothing below depends on it.\<close>

definition host_big_endian :: bool where "host_big_endian = False"

text \<open>The bytes of an index as the server sends it.\<close>

definition index_bytes :: "int \<Rightarrow> byte list" where "index_bytes k = le_bytes 8 (word_of_int k)"

section \<open>Properties\<close>

lemma length_le_bytes [simp]: "length (le_bytes n w) = n"
  by (induction n w rule: le_bytes.induct) simp_all

lemma le_word_bytes: "le_word (le_bytes n w) = take_bit (8 * n) w"
proof (induction n w rule: le_bytes.induct)
  case (2 n w)
  then show ?case
    by (auto intro!: bit_word_eqI simp: bit_simps not_le)
qed simp

lemma bit_le_word: "bit (le_word bs) i \<Longrightarrow> i < 8 * length bs"
proof (induction bs arbitrary: i)
  case (Cons b bs)
  then consider "bit b i" | "8 \<le> i" "bit (le_word bs) (i - 8)" by (auto simp: bit_simps)
  then show ?case
  proof cases
    case 1
    then show ?thesis using bit_imp_le_length [of b i] by simp
  next
    case 2
    then show ?thesis using Cons.IH [of "i - 8"] by simp
  qed
qed simp

lemma le_bytes_word: "length bs \<le> 8 \<Longrightarrow> le_bytes (length bs) (le_word bs) = bs"
proof (induction bs)
  case (Cons b bs)
  have l: "i < 56" if "bit (le_word bs) i" for i using bit_le_word [OF that] Cons.prems by simp
  have "drop_bit 8 (ucast b OR push_bit 8 (le_word bs)) = le_word bs"
  proof (rule bit_word_eqI)
    fix i
    assume "i < LENGTH(64)"
    show "bit (drop_bit 8 (ucast b OR push_bit 8 (le_word bs))) i \<longleftrightarrow> bit (le_word bs) i"
      using l [of i] bit_imp_le_length [of b "8 + i"] by (auto simp: bit_simps)
  qed
  moreover have "ucast (ucast b OR push_bit 8 (le_word bs)) = b"
    by (rule bit_word_eqI) (auto simp: bit_simps)
  ultimately show ?case using Cons by simp
qed simp

lemma GINT64_FROM_LE_load:
  assumes "length bs = 8"
  shows "GINT64_FROM_LE big (load_word big bs) = le_word bs"
  using le_bytes_word [of "rev bs"] assms by (simp add: GINT64_FROM_LE_def load_word_def builtin_bswap64_def)

text \<open>
  An index arrives unchanged on a host of either byte order.
\<close>

theorem index_round_trip:
  assumes "- (2 ^ 63) \<le> k" and "k < 2 ^ 63"
  shows "sint (GINT64_FROM_LE big (load_word big (index_bytes k))) = k"
proof -
  have "GINT64_FROM_LE big (load_word big (index_bytes k)) = word_of_int k"
    by (simp add: GINT64_FROM_LE_load index_bytes_def le_word_bytes take_bit_word_eq_self)
  moreover have "signed_take_bit 63 k = k" using assms by (simp add: signed_take_bit_int_eq_self)
  ultimately show ?thesis by (simp add: sint_uint signed_take_bit_take_bit uint_word_of_int_eq)
qed

theorem index_round_trip_witness:
  "sint (GINT64_FROM_LE True (load_word True (index_bytes (- 1)))) = - 1 \<and>
   sint (GINT64_FROM_LE False (load_word False (index_bytes (- 1)))) = - 1"
  using index_round_trip [of "- 1" True] index_round_trip [of "- 1" False] by simp

end
