(* ===== verification/Ivshmem_Client.thy ===== *)
theory Ivshmem_Client
  imports Client_Compat "HOL-Library.Multiset"
begin

text \<open>
  The client of the ivshmem server, \<^verbatim>\<open>examples/ivshmem_client\<close>: it receives the peers and
  their notification vectors (file descriptors) over a socket, waits for notifications on its
  own vectors, and kicks the vectors of others on commands from standard input.

  What the system calls return are arguments: the outcome of \<^verbatim>\<open>recvmsg\<close> (with the control
  messages the kernel has attached), of \<^verbatim>\<open>read\<close>, \<^verbatim>\<open>write\<close>, \<^verbatim>\<open>select\<close>, \<^verbatim>\<open>socket\<close>
  and \<^verbatim>\<open>connect\<close>, and \<^verbatim>\<open>errno\<close>, which is passed along because the program reads it
  after calls that do not set it.  The effects are a list of events: descriptors that enter
  the process and are closed again, kicks, notifications and lines printed by commands.  The
  messages of the verbose mode are left out.
\<close>

section \<open>Data\<close>

definition IVSHMEM_CLIENT_MAX_VECTORS :: nat where [ivshmem_consts]: "IVSHMEM_CLIENT_MAX_VECTORS = 64"
definition PATH_MAX :: nat where [ivshmem_consts]: "PATH_MAX = 4096"
definition SUN_PATH_SIZE :: nat where [ivshmem_consts]: "SUN_PATH_SIZE = 108"
definition FD_SETSIZE :: c_int where [ivshmem_consts]: "FD_SETSIZE = 1024"
definition SOL_SOCKET :: c_int where [ivshmem_consts]: "SOL_SOCKET = 1"
definition SCM_RIGHTS :: c_int where [ivshmem_consts]: "SCM_RIGHTS = 1"

definition CMSG_LEN_INT :: nat where [ivshmem_consts]: "CMSG_LEN_INT = 20"

record client_peer =
  pr_id :: int
  vectors :: "c_int list"
  vectors_count :: nat

record client =
  unix_sock_path :: string
  sock_fd :: c_int
  shm_fd :: c_int
  peer_list :: "client_peer list"
  local_peer :: client_peer
  notif_cb :: bool
  verbose :: bool

text \<open>
  A pointer to a peer is either \<^verbatim>\<open>&client->local\<close> or a place in the list.
\<close>

datatype peer_ref = Local | Remote nat

datatype client_event =
  Opened c_int | Closed c_int | Kick c_int | Notified int nat
| Print_our_id int | Print_peer_id int | Print_vector nat c_int
| Print_help | Print_no_peer int | Print_invalid | Print_prompt

record cmsg_hdr =
  cm_len :: nat
  cm_level :: c_int
  cm_type :: c_int
  cm_fd :: c_int

text \<open>The outcome of \<^verbatim>\<open>recvmsg\<close>: the bytes are what the buffer for the index holds afterwards.\<close>

record recv_msg =
  rm_ret :: c_int
  rm_errno :: c_int
  rm_bytes :: "byte list"
  rm_cmsgs :: "cmsg_hdr list"

definition deref_peer :: "client \<Rightarrow> peer_ref \<Rightarrow> client_peer" where
  "deref_peer cl r = (case r of Local \<Rightarrow> local_peer cl | Remote i \<Rightarrow> peer_list cl ! i)"

definition store_peer :: "peer_ref \<Rightarrow> client_peer \<Rightarrow> client \<Rightarrow> client" where
  "store_peer r p cl =
     (case r of Local \<Rightarrow> cl\<lparr>local_peer := p\<rparr> | Remote i \<Rightarrow> cl\<lparr>peer_list := (peer_list cl)[i := p]\<rparr>)"

section \<open>Messages of the server\<close>

definition cmsg_is_fd :: "cmsg_hdr \<Rightarrow> bool" where
  "cmsg_is_fd c \<longleftrightarrow> \<not> (cm_len c \<noteq> CMSG_LEN_INT \<or> cm_level c \<noteq> SOL_SOCKET \<or> cm_type c \<noteq> SCM_RIGHTS)"

fun cmsg_fd :: "cmsg_hdr list \<Rightarrow> c_int \<Rightarrow> c_int" where
  "cmsg_fd [] fd = fd"
| "cmsg_fd (c # cs) fd = cmsg_fd cs (if cmsg_is_fd c then cm_fd c else fd)"

text \<open>The descriptors the kernel has installed for a message; they are open from then on.\<close>

definition received :: "recv_msg \<Rightarrow> c_int list" where
  "received m = (if 0 < rm_ret m then map cm_fd (filter cmsg_is_fd (rm_cmsgs m)) else [])"

text \<open>
  The out-parameters are passed in and returned: a failed call may leave the index partly
  written and does not touch the descriptor.
\<close>

definition ivshmem_client_read_one_msg ::
  "recv_msg \<Rightarrow> c_int \<Rightarrow> int \<Rightarrow> c_int \<Rightarrow> c_int \<times> c_int \<times> int \<times> c_int \<times> client_event list" where
  "ivshmem_client_read_one_msg m err index fd =
     (let index1 = (if 0 < rm_ret m then sint (load_word host_big_endian (rm_bytes m)) else index);
          err1 = (if rm_ret m < 0 then rm_errno m else err);
          ev = map Opened (received m)
      in if rm_ret m < 8 then (- 1, err1, index1, fd, ev)
         else if rm_ret m = 0 then (- 1, err1, index1, fd, ev)
         else (0, err1, sint (GINT64_FROM_LE host_big_endian (word_of_int index1)), cmsg_fd (rm_cmsgs m) (- 1), ev))"

fun search_peers :: "client_peer list \<Rightarrow> int \<Rightarrow> nat \<Rightarrow> peer_ref option" where
  "search_peers [] peer_id i = None"
| "search_peers (p # ps) peer_id i = (if pr_id p = peer_id then Some (Remote i) else search_peers ps peer_id (Suc i))"

definition ivshmem_client_search_peer :: "client \<Rightarrow> int \<Rightarrow> peer_ref option" where
  "ivshmem_client_search_peer cl peer_id =
     (if peer_id = pr_id (local_peer cl) then Some Local else search_peers (peer_list cl) peer_id 0)"

fun close_vectors :: "client_peer \<Rightarrow> nat \<Rightarrow> nat \<Rightarrow> client_event list" where
  "close_vectors p i 0 = []"
| "close_vectors p i (Suc n) = Closed (vectors p ! i) # close_vectors p (Suc i) n"

definition ivshmem_client_free_peer :: "nat \<Rightarrow> client \<Rightarrow> client \<times> client_event list" where
  "ivshmem_client_free_peer i cl =
     (let p = peer_list cl ! i
      in (cl\<lparr>peer_list := take i (peer_list cl) @ drop (Suc i) (peer_list cl)\<rparr>,
          close_vectors p 0 (vectors_count p)))"

definition new_peer :: "int \<Rightarrow> client_peer" where
  "new_peer peer_id = \<lparr>pr_id = peer_id, vectors = replicate IVSHMEM_CLIENT_MAX_VECTORS 0, vectors_count = 0\<rparr>"

definition add_vector :: "peer_ref \<Rightarrow> c_int \<Rightarrow> client \<Rightarrow> c_int \<times> client" where
  "add_vector r fd cl =
     (let p = deref_peer cl r in
      if IVSHMEM_CLIENT_MAX_VECTORS \<le> vectors_count p then (- 1, cl)
      else (0, store_peer r (p\<lparr>vectors := (vectors p)[vectors_count p := fd],
                               vectors_count := vectors_count p + 1\<rparr>) cl))"

definition ivshmem_client_handle_server_msg ::
  "recv_msg \<Rightarrow> bool \<Rightarrow> c_int \<Rightarrow> client \<Rightarrow> c_int \<times> c_int \<times> client \<times> client_event list" where
  "ivshmem_client_handle_server_msg m calloc_ok err cl =
     (let (ret, err1, peer_id, fd, ev) = ivshmem_client_read_one_msg m err 0 0 in
      if ret < 0 then (- 1, err1, cl, ev)
      else
        let peer = ivshmem_client_search_peer cl peer_id in
        if fd = - 1 then
          (case peer of
             Some (Remote i) \<Rightarrow> let (cl1, ev1) = ivshmem_client_free_peer i cl in (0, err1, cl1, ev @ ev1)
           | _ \<Rightarrow> (- 1, err1, cl, ev))
        else
          (case peer of
             Some r \<Rightarrow> let (ret, cl1) = add_vector r fd cl in (ret, err1, cl1, ev)
           | None \<Rightarrow>
             if \<not> calloc_ok then (- 1, ENOMEM, cl, ev)
             else
               let (ret, cl1) = add_vector (Remote (length (peer_list cl))) fd
                                  (cl\<lparr>peer_list := peer_list cl @ [new_peer peer_id]\<rparr>)
               in (ret, err1, cl1, ev)))"

section \<open>Initialisation, connection and closing\<close>

definition zero_peer :: client_peer where
  "zero_peer = \<lparr>pr_id = 0, vectors = replicate IVSHMEM_CLIENT_MAX_VECTORS 0, vectors_count = 0\<rparr>"

definition zero_client :: client where
  "zero_client =
     \<lparr>unix_sock_path = [], sock_fd = 0, shm_fd = 0, peer_list = [], local_peer = zero_peer, notif_cb = False,
      verbose = False\<rparr>"

fun reset_vectors :: "nat \<Rightarrow> nat \<Rightarrow> c_int list \<Rightarrow> c_int list" where
  "reset_vectors i 0 vs = vs"
| "reset_vectors i (Suc n) vs = reset_vectors (Suc i) n (vs[i := - 1])"

definition ivshmem_client_init :: "string \<Rightarrow> bool \<Rightarrow> bool \<Rightarrow> client \<Rightarrow> c_int \<times> client" where
  "ivshmem_client_init path cb verb cl =
     (let c0 = zero_client\<lparr>unix_sock_path := take (PATH_MAX - 1) path\<rparr> in
      if PATH_MAX \<le> length path then (- 1, c0)
      else
        let l0 = local_peer c0;
            l1 = l0\<lparr>vectors := reset_vectors 0 IVSHMEM_CLIENT_MAX_VECTORS (vectors l0)\<rparr>
        in (0, c0\<lparr>peer_list := [], local_peer := l1\<lparr>pr_id := - 1\<rparr>, notif_cb := cb, verbose := verb,
                  shm_fd := - 1, sock_fd := - 1\<rparr>))"

definition client_err_close :: "client \<Rightarrow> client_event list \<Rightarrow> c_int \<times> client \<times> client_event list" where
  "client_err_close cl ev = (- 1, cl\<lparr>sock_fd := - 1\<rparr>, ev @ [Closed (sock_fd cl)])"

text \<open>
  The three messages of the handshake are arguments; \<open>fd0\<close> is what the uninitialised local
  variable holds.  A message that is not reached is not received.
\<close>

definition ivshmem_client_connect ::
  "c_int \<Rightarrow> c_int \<Rightarrow> recv_msg \<Rightarrow> recv_msg \<Rightarrow> recv_msg \<Rightarrow> c_int \<Rightarrow> client \<Rightarrow> c_int \<times> client \<times> client_event list" where
  "ivshmem_client_connect sock conn m1 m2 m3 fd0 cl =
     (let c1 = cl\<lparr>sock_fd := sock\<rparr> in
      if sock < 0 then (- 1, c1, [])
      else if SUN_PATH_SIZE \<le> length (unix_sock_path c1) then client_err_close c1 [Opened sock]
      else if conn < 0 then client_err_close c1 [Opened sock]
      else
        let (ret1, _, tmp1, fd1, ev1) = ivshmem_client_read_one_msg m1 0 0 fd0;
            e1 = Opened sock # ev1 in
        if ret1 < 0 \<or> tmp1 \<noteq> 0 \<or> fd1 \<noteq> - 1 then client_err_close c1 e1
        else
          let (ret2, _, id2, fd2, ev2) = ivshmem_client_read_one_msg m2 0 (pr_id (local_peer c1)) fd1;
              c2 = c1\<lparr>local_peer := (local_peer c1)\<lparr>pr_id := id2\<rparr>\<rparr>;
              e2 = e1 @ ev2 in
          if ret2 < 0 \<or> pr_id (local_peer c2) < 0 \<or> fd2 \<noteq> - 1 then client_err_close c2 e2
          else
            let (ret3, _, tmp3, fd3, ev3) = ivshmem_client_read_one_msg m3 0 tmp1 fd2;
                e3 = e2 @ ev3 in
            if ret3 < 0 \<or> tmp3 \<noteq> - 1 \<or> fd3 < 0
            then client_err_close c2 (e3 @ (if 0 \<le> fd3 then [Closed fd3] else []))
            else (0, c2\<lparr>shm_fd := fd3\<rparr>, e3))"

fun free_all_peers :: "nat \<Rightarrow> client \<Rightarrow> client \<times> client_event list" where
  "free_all_peers 0 cl = (cl, [])"
| "free_all_peers (Suc n) cl =
     (let (cl1, ev1) = ivshmem_client_free_peer 0 cl; (cl2, ev2) = free_all_peers n cl1 in (cl2, ev1 @ ev2))"

fun close_local :: "nat \<Rightarrow> nat \<Rightarrow> c_int list \<Rightarrow> c_int list \<times> client_event list" where
  "close_local i 0 vs = (vs, [])"
| "close_local i (Suc n) vs =
     (if 0 \<le> vs ! i
      then let (vs1, ev) = close_local (Suc i) n (vs[i := - 1]) in (vs1, Closed (vs ! i) # ev)
      else close_local (Suc i) n vs)"

definition ivshmem_client_close :: "client \<Rightarrow> client \<times> client_event list" where
  "ivshmem_client_close cl =
     (let (c1, ev1) = free_all_peers (length (peer_list cl)) cl;
          (c2, ev2) = (if 0 \<le> shm_fd c1 then (c1\<lparr>shm_fd := - 1\<rparr>, [Closed (shm_fd c1)]) else (c1, []));
          (c3, ev3) = (if 0 \<le> sock_fd c2 then (c2\<lparr>sock_fd := - 1\<rparr>, [Closed (sock_fd c2)]) else (c2, []));
          (vs, ev4) = close_local 0 IVSHMEM_CLIENT_MAX_VECTORS (vectors (local_peer c3))
      in (c3\<lparr>local_peer := \<lparr>pr_id = - 1, vectors = vs, vectors_count = 0\<rparr>\<rparr>, ev1 @ ev2 @ ev3 @ ev4))"

section \<open>Waiting for events\<close>

text \<open>
  A descriptor set is a list of its members; setting a bit outside the array is a fault.
\<close>

definition FD_SET :: "c_int \<Rightarrow> c_int list \<Rightarrow> c_int list c_result" where
  "FD_SET fd fds = (if 0 \<le> fd \<and> fd < FD_SETSIZE then Inr (fd # fds) else Inl OutOfBounds)"

definition add_fd :: "c_int \<Rightarrow> c_int list \<times> c_int \<Rightarrow> (c_int list \<times> c_int) c_result" where
  "add_fd fd s =
     (case FD_SET fd (fst s) of
        Inl e \<Rightarrow> Inl e
      | Inr fds \<Rightarrow> Inr (fds, if snd s \<le> fd then fd + 1 else snd s))"

fun add_vector_fds :: "client_peer \<Rightarrow> nat \<Rightarrow> nat \<Rightarrow> c_int list \<times> c_int \<Rightarrow> (c_int list \<times> c_int) c_result" where
  "add_vector_fds p i 0 s = Inr s"
| "add_vector_fds p i (Suc n) s =
     (case add_fd (vectors p ! i) s of Inl e \<Rightarrow> Inl e | Inr s1 \<Rightarrow> add_vector_fds p (Suc i) n s1)"

definition ivshmem_client_get_fds :: "client \<Rightarrow> c_int list \<times> c_int \<Rightarrow> (c_int list \<times> c_int) c_result" where
  "ivshmem_client_get_fds cl s =
     (case add_fd (sock_fd cl) s of
        Inl e \<Rightarrow> Inl e
      | Inr s1 \<Rightarrow> add_vector_fds (local_peer cl) 0 (vectors_count (local_peer cl)) s1)"

text \<open>The \<^verbatim>\<open>read\<close> of vector \<open>i\<close> yields a return value and the error number it sets.\<close>

fun handle_vectors ::
  "(nat \<Rightarrow> c_int \<times> c_int) \<Rightarrow> c_int list \<Rightarrow> c_int \<Rightarrow> client \<Rightarrow> nat \<Rightarrow> nat \<Rightarrow> c_int \<Rightarrow>
   c_int \<times> c_int \<times> client_event list" where
  "handle_vectors rd cur maxfd cl i 0 err = (0, err, [])"
| "handle_vectors rd cur maxfd cl i (Suc n) err =
     (let fd = vectors (local_peer cl) ! i in
      if maxfd \<le> fd \<or> fd \<notin> set cur then handle_vectors rd cur maxfd cl (Suc i) n err
      else
        let (ret, e) = rd i in
        if ret < 0 then (ret, e, [])
        else if ret \<noteq> 8 then (- 1, EINVAL, [])
        else
          let (r, err1, ev) = handle_vectors rd cur maxfd cl (Suc i) n err
          in (r, err1, (if notif_cb cl then [Notified (pr_id (local_peer cl)) i] else []) @ ev))"

definition ivshmem_client_handle_event ::
  "(nat \<Rightarrow> c_int \<times> c_int) \<Rightarrow> c_int list \<Rightarrow> c_int \<Rightarrow> client \<Rightarrow> c_int \<Rightarrow> c_int \<times> c_int \<times> client_event list" where
  "ivshmem_client_handle_event rd cur maxfd cl err =
     handle_vectors rd cur maxfd cl 0 (vectors_count (local_peer cl)) err"

definition ivshmem_client_handle_fds ::
  "recv_msg \<Rightarrow> bool \<Rightarrow> (nat \<Rightarrow> c_int \<times> c_int) \<Rightarrow> c_int list \<Rightarrow> c_int \<Rightarrow> c_int \<Rightarrow> client \<Rightarrow>
   c_int \<times> c_int \<times> client \<times> client_event list" where
  "ivshmem_client_handle_fds m calloc_ok rd fds maxfd err cl =
     (let (ret, err1, c1, ev1) =
        (if sock_fd cl < maxfd \<and> sock_fd cl \<in> set fds
         then ivshmem_client_handle_server_msg m calloc_ok err cl else (0, err, cl, [])) in
      if ret < 0 \<and> err1 \<noteq> EINTR then (- 1, err1, c1, ev1)
      else
        let (ret, err2, ev2) = ivshmem_client_handle_event rd fds maxfd c1 err1 in
        if ret < 0 \<and> err2 \<noteq> EINTR then (- 1, err2, c1, ev1 @ ev2)
        else (0, err2, c1, ev1 @ ev2))"

section \<open>Notifications\<close>

definition ivshmem_client_notify :: "(c_int \<Rightarrow> int) \<Rightarrow> client_peer \<Rightarrow> u32 \<Rightarrow> c_int \<times> client_event list" where
  "ivshmem_client_notify wr p vector =
     (if vectors_count p \<le> unat vector then (- 1, [])
      else
        let fd = vectors p ! unat vector in
        if wr fd \<noteq> 8 then (- 1, [Kick fd]) else (0, [Kick fd]))"

fun notify_vectors :: "(c_int \<Rightarrow> int) \<Rightarrow> client_peer \<Rightarrow> nat \<Rightarrow> nat \<Rightarrow> c_int \<Rightarrow> c_int \<times> client_event list" where
  "notify_vectors wr p i 0 ret = (ret, [])"
| "notify_vectors wr p i (Suc n) ret =
     (let (r, ev) = ivshmem_client_notify wr p (word_of_nat i);
          (ret1, ev1) = notify_vectors wr p (Suc i) n (if r < 0 then - 1 else ret)
      in (ret1, ev @ ev1))"

definition ivshmem_client_notify_all_vects :: "(c_int \<Rightarrow> int) \<Rightarrow> client_peer \<Rightarrow> c_int \<times> client_event list" where
  "ivshmem_client_notify_all_vects wr p = notify_vectors wr p 0 (vectors_count p) 0"

fun notify_peers :: "(c_int \<Rightarrow> int) \<Rightarrow> client_peer list \<Rightarrow> c_int \<Rightarrow> c_int \<times> client_event list" where
  "notify_peers wr [] ret = (ret, [])"
| "notify_peers wr (p # ps) ret =
     (let (r, ev) = ivshmem_client_notify_all_vects wr p;
          (ret1, ev1) = notify_peers wr ps (if r < 0 then - 1 else ret)
      in (ret1, ev @ ev1))"

definition ivshmem_client_notify_broadcast :: "(c_int \<Rightarrow> int) \<Rightarrow> client \<Rightarrow> c_int \<times> client_event list" where
  "ivshmem_client_notify_broadcast wr cl = notify_peers wr (peer_list cl) 0"

fun dump_vectors :: "client_peer \<Rightarrow> nat \<Rightarrow> nat \<Rightarrow> client_event list" where
  "dump_vectors p i 0 = []"
| "dump_vectors p i (Suc n) = Print_vector i (vectors p ! i) # dump_vectors p (Suc i) n"

fun dump_peers :: "client_peer list \<Rightarrow> client_event list" where
  "dump_peers [] = []"
| "dump_peers (p # ps) = Print_peer_id (pr_id p) # dump_vectors p 0 (vectors_count p) @ dump_peers ps"

definition ivshmem_client_dump :: "client \<Rightarrow> client_event list" where
  "ivshmem_client_dump cl =
     Print_our_id (pr_id (local_peer cl)) # dump_vectors (local_peer cl) 0 (vectors_count (local_peer cl))
     @ dump_peers (peer_list cl)"

section \<open>The command line\<close>

text \<open>
  The parts of \<^verbatim>\<open>sscanf\<close> that the formats \<^verbatim>\<open>int %d %d\<close> and \<^verbatim>\<open>int %d all\<close> use: a blank
  in a format matches any amount of white space, also none, and a number that is no
  \<^verbatim>\<open>int\<close> is undefined behaviour.  What follows the last conversion does not change the
  number of conversions that \<^verbatim>\<open>sscanf\<close> returns.
\<close>

definition char_code :: "char \<Rightarrow> nat" where
  "char_code c = of_char c"

definition is_white :: "char \<Rightarrow> bool" where
  "is_white c \<longleftrightarrow> char_code c = 32 \<or> 9 \<le> char_code c \<and> char_code c \<le> 13"

definition is_digit :: "char \<Rightarrow> bool" where
  "is_digit c \<longleftrightarrow> 48 \<le> char_code c \<and> char_code c \<le> 57"

definition digits_value :: "string \<Rightarrow> int" where
  "digits_value ds = foldl (\<lambda>v c. 10 * v + int (char_code c - 48)) 0 ds"

definition scan_sign :: "string \<Rightarrow> bool \<times> string" where
  "scan_sign s =
     (case s of [] \<Rightarrow> (False, [])
      | c # cs \<Rightarrow> if c = CHR ''-'' then (True, cs) else if c = CHR ''+'' then (False, cs) else (False, s))"

definition scan_d :: "string \<Rightarrow> (int \<times> string) option c_result" where
  "scan_d s =
     (let (neg, s1) = scan_sign (dropWhile is_white s);
          ds = takeWhile is_digit s1;
          v = (if neg then - digits_value ds else digits_value ds)
      in if ds = [] then Inr None
         else if in_c_int v then Inr (Some (v, dropWhile is_digit s1)) else Inl SignedOverflow)"

definition scan_int_d :: "string \<Rightarrow> (int \<times> string) option c_result" where
  "scan_int_d s = (if take 3 s = ''int'' then scan_d (dropWhile is_white (drop 3 s)) else Inr None)"

definition scan_int_d_d :: "string \<Rightarrow> (int \<times> int) option c_result" where
  "scan_int_d_d s =
     (case scan_int_d s of
        Inl e \<Rightarrow> Inl e
      | Inr None \<Rightarrow> Inr None
      | Inr (Some (p, s1)) \<Rightarrow>
        (case scan_d (dropWhile is_white s1) of
           Inl e \<Rightarrow> Inl e
         | Inr None \<Rightarrow> Inr None
         | Inr (Some (v, s2)) \<Rightarrow> Inr (Some (p, v))))"

fun strsep_tokens :: "string \<Rightarrow> string \<Rightarrow> string list" where
  "strsep_tokens acc [] = [acc]"
| "strsep_tokens acc (c # cs) =
     (if c \<in> {CHR 0x0A, CHR 0x0D, CHR '';''} then acc # strsep_tokens [] cs else strsep_tokens (acc @ [c]) cs)"

definition client_command :: "(c_int \<Rightarrow> int) \<Rightarrow> client \<Rightarrow> string \<Rightarrow> client_event list c_result" where
  "client_command wr cl token =
     (if token = [] then Inr []
      else if token = ''?'' \<or> token = ''help'' then Inr [Print_help]
      else if token = ''dump'' then Inr (ivshmem_client_dump cl)
      else if token = ''int all'' then Inr (snd (ivshmem_client_notify_broadcast wr cl))
      else
        (case scan_int_d_d token of
           Inl e \<Rightarrow> Inl e
         | Inr (Some (peer_id, vector)) \<Rightarrow>
           (case ivshmem_client_search_peer cl peer_id of
              None \<Rightarrow> Inr [Print_no_peer peer_id]
            | Some r \<Rightarrow> Inr (snd (ivshmem_client_notify wr (deref_peer cl r) (u32_of_int vector))))
         | Inr None \<Rightarrow>
           (case scan_int_d token of
              Inl e \<Rightarrow> Inl e
            | Inr (Some (peer_id, _)) \<Rightarrow>
              (case ivshmem_client_search_peer cl peer_id of
                 None \<Rightarrow> Inr [Print_no_peer peer_id]
               | Some r \<Rightarrow> Inr (snd (ivshmem_client_notify_all_vects wr (deref_peer cl r))))
            | Inr None \<Rightarrow> Inr [Print_invalid])))"

fun client_commands :: "(c_int \<Rightarrow> int) \<Rightarrow> client \<Rightarrow> string list \<Rightarrow> client_event list c_result" where
  "client_commands wr cl [] = Inr []"
| "client_commands wr cl (t # ts) =
     (case client_command wr cl t of
        Inl e \<Rightarrow> Inl e
      | Inr ev \<Rightarrow> (case client_commands wr cl ts of Inl e \<Rightarrow> Inl e | Inr ev1 \<Rightarrow> Inr (ev @ ev1)))"

text \<open>The \<^verbatim>\<open>read\<close> from standard input either fails with an error number or yields bytes.\<close>

definition ivshmem_client_handle_stdin_command ::
  "(c_int \<Rightarrow> int) \<Rightarrow> c_int + string \<Rightarrow> c_int \<Rightarrow> client \<Rightarrow> (c_int \<times> c_int \<times> client_event list) c_result" where
  "ivshmem_client_handle_stdin_command wr inp err cl =
     (case inp of
        Inl e \<Rightarrow> Inr (- 1, e, [])
      | Inr bytes \<Rightarrow>
        (case client_commands wr cl (strsep_tokens [] (takeWhile (\<lambda>c. c \<noteq> CHR 0x00) (take 127 bytes))) of
           Inl e \<Rightarrow> Inl e
         | Inr ev \<Rightarrow> Inr (0, err, ev @ [Print_prompt])))"

text \<open>What the system answers in one round of the loop of \<^verbatim>\<open>ivshmem_client_poll_events\<close>.\<close>

record poll_input =
  pi_select :: c_int
  pi_errno :: c_int
  pi_ready :: "c_int list"
  pi_stdin :: "c_int + string"
  pi_write :: "c_int \<Rightarrow> int"
  pi_msg :: recv_msg
  pi_calloc :: bool
  pi_read :: "nat \<Rightarrow> c_int \<times> c_int"

definition client_poll_round ::
  "poll_input \<Rightarrow> c_int \<Rightarrow> client \<Rightarrow> (c_int option \<times> c_int \<times> client \<times> client_event list) c_result" where
  "client_poll_round p err cl =
     (case FD_SET 0 [] of Inl e \<Rightarrow> Inl e | Inr fds0 \<Rightarrow>
      (case ivshmem_client_get_fds cl (fds0, 1) of Inl e \<Rightarrow> Inl e | Inr (fds, maxfd) \<Rightarrow>
       if pi_select p < 0 then
         Inr (if pi_errno p = EINTR then None else Some (pi_select p), pi_errno p, cl, [])
       else
         (case (if 0 \<in> set (pi_ready p)
                then ivshmem_client_handle_stdin_command (pi_write p) (pi_stdin p) err cl
                else Inr (0, err, [])) of
            Inl e \<Rightarrow> Inl e
          | Inr (ret, err1, ev1) \<Rightarrow>
            if ret < 0 \<and> err1 \<noteq> EINTR then Inr (Some (pi_select p), err1, cl, ev1)
            else
              let (ret2, err2, cl2, ev2) =
                ivshmem_client_handle_fds (pi_msg p) (pi_calloc p) (pi_read p) (pi_ready p) maxfd err1 cl
              in Inr (if ret2 < 0 then Some (pi_select p) else None, err2, cl2, ev1 @ ev2))))"

text \<open>The loop runs until it breaks; with no more rounds to come it is still polling (\<open>None\<close>).\<close>

fun ivshmem_client_poll_events ::
  "poll_input list \<Rightarrow> c_int \<Rightarrow> client \<Rightarrow> (c_int option \<times> client \<times> client_event list) c_result" where
  "ivshmem_client_poll_events [] err cl = Inr (None, cl, [])"
| "ivshmem_client_poll_events (p # ps) err cl =
     (case client_poll_round p err cl of
        Inl e \<Rightarrow> Inl e
      | Inr (Some ret, err1, cl1, ev) \<Rightarrow> Inr (Some ret, cl1, ev)
      | Inr (None, err1, cl1, ev) \<Rightarrow>
        (case ivshmem_client_poll_events ps err1 cl1 of
           Inl e \<Rightarrow> Inl e
         | Inr (r, cl2, ev2) \<Rightarrow> Inr (r, cl2, ev @ ev2)))"

record session_input =
  si_socket :: c_int
  si_connect :: c_int
  si_version :: recv_msg
  si_id :: recv_msg
  si_shm :: recv_msg
  si_fd :: c_int
  si_errno :: c_int
  si_polls :: "poll_input list"

text \<open>One round of the loop of \<^verbatim>\<open>main\<close>; the flag says that the round has ended.\<close>

definition client_session :: "session_input \<Rightarrow> client \<Rightarrow> (bool \<times> client \<times> client_event list) c_result" where
  "client_session si cl =
     (let (ret, cl1, ev1) =
        ivshmem_client_connect (si_socket si) (si_connect si) (si_version si) (si_id si) (si_shm si) (si_fd si) cl in
      if ret < 0 then Inr (True, cl1, ev1)
      else
        (case ivshmem_client_poll_events (si_polls si) (si_errno si) cl1 of
           Inl e \<Rightarrow> Inl e
         | Inr (None, cl2, ev2) \<Rightarrow> Inr (False, cl2, ev1 @ ev2)
         | Inr (Some ret, cl2, ev2) \<Rightarrow>
           if ret = 0 then Inr (True, cl2, ev1 @ ev2)
           else let (cl3, ev3) = ivshmem_client_close cl2 in Inr (True, cl3, ev1 @ ev2 @ ev3)))"

fun client_loop :: "session_input list \<Rightarrow> client \<Rightarrow> (bool \<times> client \<times> client_event list) c_result" where
  "client_loop [] cl = Inr (True, cl, [])"
| "client_loop (si # sis) cl =
     (case client_session si cl of
        Inl e \<Rightarrow> Inl e
      | Inr (False, cl1, ev1) \<Rightarrow> Inr (False, cl1, ev1)
      | Inr (True, cl1, ev1) \<Rightarrow>
        (case client_loop sis cl1 of Inl e \<Rightarrow> Inl e | Inr (b, cl2, ev2) \<Rightarrow> Inr (b, cl2, ev1 @ ev2)))"

text \<open>The options in the order \<^verbatim>\<open>getopt\<close> delivers them.  A usage message ends the program.\<close>

datatype client_opt = Copt_h | Copt_v | Copt_S string | Copt_other

record client_args =
  arg_verbose :: bool
  arg_path :: string

fun ivshmem_client_parse_args :: "client_opt list \<Rightarrow> client_args \<Rightarrow> c_int + client_args" where
  "ivshmem_client_parse_args [] args = Inr args"
| "ivshmem_client_parse_args (Copt_h # os) args = Inl 0"
| "ivshmem_client_parse_args (Copt_v # os) args = ivshmem_client_parse_args os (args\<lparr>arg_verbose := True\<rparr>)"
| "ivshmem_client_parse_args (Copt_S p # os) args = ivshmem_client_parse_args os (args\<lparr>arg_path := p\<rparr>)"
| "ivshmem_client_parse_args (Copt_other # os) args = Inl 1"

definition client_default_args :: client_args where
  "client_default_args = \<lparr>arg_verbose = False, arg_path = ''/tmp/ivshmem_socket''\<rparr>"

text \<open>The exit code, or the state of the endless loop after the given sessions.\<close>

definition client_main ::
  "client_opt list \<Rightarrow> c_int \<Rightarrow> client \<Rightarrow> session_input list \<Rightarrow> (c_int + client \<times> client_event list) c_result" where
  "client_main opts sigaction_ret stack sis =
     (case ivshmem_client_parse_args opts client_default_args of
        Inl code \<Rightarrow> Inr (Inl code)
      | Inr args \<Rightarrow>
        if sigaction_ret = - 1 then Inr (Inl 1)
        else
          let (ret, cl) = ivshmem_client_init (arg_path args) True (arg_verbose args) stack in
          if ret < 0 then Inr (Inl 1)
          else
            (case client_loop sis cl of
               Inl e \<Rightarrow> Inl e
             | Inr (_, cl1, ev) \<Rightarrow> Inr (Inr (cl1, [Print_help, Print_prompt] @ ev))))"

section \<open>Specification vocabulary\<close>

text \<open>The vectors that a peer has, and what the client keeps true of its tables.\<close>

definition peer_fds :: "client_peer \<Rightarrow> c_int list" where
  "peer_fds p = take (vectors_count p) (vectors p)"

definition wf_peer :: "client_peer \<Rightarrow> bool" where
  "wf_peer p \<longleftrightarrow> length (vectors p) = 64 \<and> vectors_count p \<le> 64 \<and> (\<forall>fd \<in> set (peer_fds p). 0 \<le> fd)"

definition wf_client :: "client \<Rightarrow> bool" where
  "wf_client cl \<longleftrightarrow>
     - 1 \<le> sock_fd cl \<and> - 1 \<le> shm_fd cl \<and> wf_peer (local_peer cl) \<and>
     vectors (local_peer cl) = peer_fds (local_peer cl) @ replicate (64 - vectors_count (local_peer cl)) (- 1) \<and>
     (\<forall>p \<in> set (peer_list cl). wf_peer p) \<and>
     distinct (map pr_id (peer_list cl)) \<and> pr_id (local_peer cl) \<notin> pr_id ` set (peer_list cl)"

text \<open>What holds of every outcome of \<^verbatim>\<open>recvmsg\<close>: the control buffer has room for one descriptor, and
  descriptors that are passed along are not negative.\<close>

definition kernel_msg :: "recv_msg \<Rightarrow> bool" where
  "kernel_msg m \<longleftrightarrow> length (filter cmsg_is_fd (rm_cmsgs m)) \<le> 1 \<and> (\<forall>c \<in> set (rm_cmsgs m). 0 \<le> cm_fd c)"

text \<open>The client as its server sees it: the vectors of each identifier.\<close>

definition peer_view :: "client \<Rightarrow> int \<Rightarrow> c_int list option" where
  "peer_view cl = (\<lambda>k. if k = pr_id (local_peer cl) then Some (peer_fds (local_peer cl))
     else map_of (map (\<lambda>p. (pr_id p, peer_fds p)) (peer_list cl)) k)"

definition fd_opt :: "c_int \<Rightarrow> c_int multiset" where
  "fd_opt fd = (if 0 \<le> fd then {#fd#} else {#})"

text \<open>The descriptors that the client has in its tables, and those that enter and leave the process.\<close>

definition owned :: "client \<Rightarrow> c_int multiset" where
  "owned cl = fd_opt (sock_fd cl) + fd_opt (shm_fd cl) + mset (peer_fds (local_peer cl)) +
     mset (concat (map peer_fds (peer_list cl)))"

fun opened_fds :: "client_event list \<Rightarrow> c_int multiset" where
  "opened_fds [] = {#}"
| "opened_fds (e # es) = (case e of Opened fd \<Rightarrow> {#fd#} | _ \<Rightarrow> {#}) + opened_fds es"

fun closed_fds :: "client_event list \<Rightarrow> c_int multiset" where
  "closed_fds [] = {#}"
| "closed_fds (e # es) = (case e of Closed fd \<Rightarrow> {#fd#} | _ \<Rightarrow> {#}) + closed_fds es"

abbreviation peer_assoc :: "client_peer list \<Rightarrow> (int \<times> c_int list) list" where
  "peer_assoc \<equiv> map (\<lambda>p. (pr_id p, peer_fds p))"

definition with_vector :: "c_int \<Rightarrow> client_peer \<Rightarrow> client_peer" where
  "with_vector fd p = p\<lparr>vectors := (vectors p)[vectors_count p := fd], vectors_count := vectors_count p + 1\<rparr>"

text \<open>What a message of the server asks for: to forget a peer, or to add a vector to one.\<close>

definition announce :: "int \<Rightarrow> c_int list \<Rightarrow> (int \<Rightarrow> c_int list option) \<Rightarrow> (int \<Rightarrow> c_int list option)" where
  "announce k fds v =
     (case fds of [] \<Rightarrow> v(k := None)
      | fd # _ \<Rightarrow> v(k \<mapsto> (case v k of None \<Rightarrow> [] | Some l \<Rightarrow> l) @ [fd]))"

definition same_session :: "client \<Rightarrow> client \<Rightarrow> bool" where
  "same_session cl cl' \<longleftrightarrow>
     unix_sock_path cl' = unix_sock_path cl \<and> sock_fd cl' = sock_fd cl \<and> shm_fd cl' = shm_fd cl \<and>
     notif_cb cl' = notif_cb cl \<and> verbose cl' = verbose cl \<and> pr_id (local_peer cl') = pr_id (local_peer cl)"

text \<open>The messages that the client accepts.\<close>

definition rm_index :: "recv_msg \<Rightarrow> int" where
  "rm_index m = sint (GINT64_FROM_LE host_big_endian (load_word host_big_endian (rm_bytes m)))"

definition acceptable :: "recv_msg \<Rightarrow> bool \<Rightarrow> client \<Rightarrow> bool" where
  "acceptable m calloc_ok cl \<longleftrightarrow>
     8 \<le> rm_ret m \<and>
     (if received m = [] then rm_index m \<in> pr_id ` set (peer_list cl)
      else case peer_view cl (rm_index m) of None \<Rightarrow> calloc_ok | Some l \<Rightarrow> length l < 64)"

definition msg_effect :: "recv_msg \<Rightarrow> bool \<Rightarrow> client \<Rightarrow> c_int \<Rightarrow> client \<Rightarrow> client_event list \<Rightarrow> bool" where
  "msg_effect m calloc_ok cl ret cl' ev \<longleftrightarrow>
     (if acceptable m calloc_ok cl
      then ret = 0 \<and> wf_client cl' \<and> same_session cl cl' \<and>
           peer_view cl' = announce (rm_index m) (received m) (peer_view cl) \<and>
           owned cl + opened_fds ev = owned cl' + closed_fds ev
      else ret = - 1 \<and> cl' = cl \<and> closed_fds ev = {#}) \<and>
     opened_fds ev = mset (received m)"

definition no_fds :: "client_event list \<Rightarrow> bool" where
  "no_fds ev \<longleftrightarrow> opened_fds ev = {#} \<and> closed_fds ev = {#}"

definition disconnected :: "client \<Rightarrow> bool" where
  "disconnected cl \<longleftrightarrow>
     sock_fd cl = - 1 \<and> shm_fd cl = - 1 \<and> peer_list cl = [] \<and>
     vectors (local_peer cl) = replicate 64 (- 1) \<and> vectors_count (local_peer cl) = 0"

text \<open>A \<^verbatim>\<open>select\<close> without a time limit does not return 0, and \<^verbatim>\<open>socket\<close> fails with -1.\<close>

definition kernel_poll :: "poll_input \<Rightarrow> bool" where
  "kernel_poll p \<longleftrightarrow> pi_select p \<noteq> 0 \<and> kernel_msg (pi_msg p)"

definition kernel_session :: "session_input \<Rightarrow> bool" where
  "kernel_session si \<longleftrightarrow>
     - 1 \<le> si_socket si \<and> kernel_msg (si_version si) \<and> kernel_msg (si_id si) \<and> kernel_msg (si_shm si) \<and>
     (\<forall>p \<in> set (si_polls si). kernel_poll p)"

text \<open>No descriptor is lost track of twice: what is owned or closed afterwards was owned or came in.\<close>

definition fds_kept :: "client \<Rightarrow> client \<Rightarrow> client_event list \<Rightarrow> bool" where
  "fds_kept cl cl' ev \<longleftrightarrow> owned cl' + closed_fds ev \<subseteq># owned cl + opened_fds ev"

text \<open>Decimal numerals, for the commands.\<close>

fun decimal :: "nat \<Rightarrow> string" where
  "decimal n = (if n < 10 then [char_of (48 + n)] else decimal (n div 10) @ [char_of (48 + n mod 10)])"

declare decimal.simps [simp del]

text \<open>A session for the examples: handshake, two announcements, and a broken connection.\<close>

definition plain_msg :: "int \<Rightarrow> recv_msg" where
  "plain_msg k = \<lparr>rm_ret = 8, rm_errno = 0, rm_bytes = index_bytes k, rm_cmsgs = []\<rparr>"

definition fd_msg :: "int \<Rightarrow> c_int \<Rightarrow> recv_msg" where
  "fd_msg k fd = \<lparr>rm_ret = 8, rm_errno = 0, rm_bytes = index_bytes k, rm_cmsgs = [\<lparr>cm_len = 20, cm_level = 1, cm_type = 1, cm_fd = fd\<rparr>]\<rparr>"

definition demo_poll :: "c_int \<Rightarrow> recv_msg \<Rightarrow> poll_input" where
  "demo_poll ret m =
     \<lparr>pi_select = ret, pi_errno = 9, pi_ready = [3], pi_stdin = Inr [], pi_write = (\<lambda>_. 8), pi_msg = m, pi_calloc = True,
      pi_read = (\<lambda>_. (8, 0))\<rparr>"

definition demo_session :: session_input where
  "demo_session =
     \<lparr>si_socket = 3, si_connect = 0, si_version = plain_msg 0, si_id = plain_msg 1, si_shm = fd_msg (- 1) 4, si_fd = 77,
      si_errno = 0, si_polls = [demo_poll 1 (fd_msg 2 5), demo_poll 1 (fd_msg 1 6), demo_poll (- 1) (plain_msg 0)]\<rparr>"

definition demo_client :: client where
  "demo_client =
     \<lparr>unix_sock_path = ''s'', sock_fd = 3, shm_fd = 4,
      peer_list = [\<lparr>pr_id = 2, vectors = 5 # replicate 63 0, vectors_count = 1\<rparr>],
      local_peer = \<lparr>pr_id = 1, vectors = 6 # replicate 63 (- 1), vectors_count = 1\<rparr>, notif_cb = True, verbose = False\<rparr>"

section \<open>Properties\<close>

lemma fds_append [simp]:
  "opened_fds (a @ b) = opened_fds a + opened_fds b" "closed_fds (a @ b) = closed_fds a + closed_fds b"
  by (induction a) auto

lemma fds_map [simp]:
  "opened_fds (map Opened l) = mset l" "closed_fds (map Opened l) = {#}"
  "opened_fds (map Closed l) = {#}" "closed_fds (map Closed l) = mset l"
  "opened_fds (map Kick l) = {#}" "closed_fds (map Kick l) = {#}"
  by (induction l) auto

lemma search_peers_Some:
  "search_peers ps k j = Some r \<Longrightarrow> \<exists>i < length ps. r = Remote (j + i) \<and> pr_id (ps ! i) = k"
  by (induction ps k j rule: search_peers.induct) (fastforce split: if_splits)+

lemma search_peers_None: "search_peers ps k j = None \<longleftrightarrow> k \<notin> pr_id ` set ps"
  by (induction ps k j rule: search_peers.induct) auto

lemma search_peer_cases:
  obtains (loc) "k = pr_id (local_peer cl)" "ivshmem_client_search_peer cl k = Some Local"
  | (remote) i where "i < length (peer_list cl)" "pr_id (peer_list cl ! i) = k" "k \<noteq> pr_id (local_peer cl)"
      "ivshmem_client_search_peer cl k = Some (Remote i)"
  | (none) "k \<notin> pr_id ` set (peer_list cl)" "k \<noteq> pr_id (local_peer cl)" "ivshmem_client_search_peer cl k = None"
proof (cases "k = pr_id (local_peer cl)")
  case True
  then show ?thesis using loc by (simp add: ivshmem_client_search_peer_def)
next
  case False
  show ?thesis
  proof (cases "search_peers (peer_list cl) k 0")
    case None
    then show ?thesis using none False by (simp add: ivshmem_client_search_peer_def search_peers_None)
  next
    case (Some r)
    then show ?thesis using remote False search_peers_Some [OF Some] by (auto simp: ivshmem_client_search_peer_def)
  qed
qed

lemma close_vectors_eq:
  "i + n \<le> length (vectors p) \<Longrightarrow> close_vectors p i n = map Closed (take n (drop i (vectors p)))"
  by (induction p i n rule: close_vectors.induct) (auto simp: Cons_nth_drop_Suc [symmetric])

lemma free_peer_eq:
  assumes "i < length (peer_list cl)" and "wf_peer (peer_list cl ! i)"
  shows "ivshmem_client_free_peer i cl =
    (cl\<lparr>peer_list := take i (peer_list cl) @ drop (Suc i) (peer_list cl)\<rparr>, map Closed (peer_fds (peer_list cl ! i)))"
  using assms close_vectors_eq [of 0 "vectors_count (peer_list cl ! i)" "peer_list cl ! i"]
  by (simp add: ivshmem_client_free_peer_def wf_peer_def peer_fds_def Let_def)

lemma peer_split:
  assumes "i < length ps"
  obtains A B where "ps = A @ ps ! i # B" "i = length A"
  using id_take_nth_drop [OF assms] assms by (metis length_take min.absorb4)

lemma map_of_mid:
  assumes "k \<notin> fst ` set A" and "k \<notin> fst ` set B"
  shows "map_of (A @ (k, v) # B) = (map_of (A @ B))(k \<mapsto> v)" and "map_of (A @ B) = (map_of (A @ (k, v) # B))(k := None)"
proof -
  have n: "map_of A k = None" "map_of B k = None" using assms by (simp_all add: map_of_eq_None_iff)
  show "map_of (A @ (k, v) # B) = (map_of (A @ B))(k \<mapsto> v)"
    by (rule ext) (auto simp: map_add_def n split: option.splits)
  show "map_of (A @ B) = (map_of (A @ (k, v) # B))(k := None)"
    by (rule ext) (auto simp: map_add_def n split: option.splits)
qed

lemma wf_client_split:
  assumes "wf_client cl" and "peer_list cl = A @ p # B"
  shows "pr_id p \<notin> fst ` set (peer_assoc A)" "pr_id p \<notin> fst ` set (peer_assoc B)"
    "pr_id p \<noteq> pr_id (local_peer cl)" "wf_peer p"
  using assms by (auto simp: wf_client_def)

lemma peer_deleted:
  assumes "wf_client cl" and "peer_list cl = A @ p # B"
  shows "wf_client (cl\<lparr>peer_list := A @ B\<rparr>)"
    and "peer_view (cl\<lparr>peer_list := A @ B\<rparr>) = (peer_view cl)(pr_id p := None)"
    and "owned cl = owned (cl\<lparr>peer_list := A @ B\<rparr>) + mset (peer_fds p)"
    and "peer_view cl (pr_id p) = Some (peer_fds p)"
proof -
  note sp = wf_client_split [OF assms]
  show "wf_client (cl\<lparr>peer_list := A @ B\<rparr>)" using assms by (simp add: wf_client_def)
  show "peer_view (cl\<lparr>peer_list := A @ B\<rparr>) = (peer_view cl)(pr_id p := None)"
    using map_of_mid(2) [OF sp(1,2), of "peer_fds p"] sp(3) by (auto simp: peer_view_def fun_eq_iff assms(2))
  show "owned cl = owned (cl\<lparr>peer_list := A @ B\<rparr>) + mset (peer_fds p)" by (simp add: owned_def assms(2))
  show "peer_view cl (pr_id p) = Some (peer_fds p)"
    using map_of_mid(1) [OF sp(1,2), of "peer_fds p"] sp(3) by (simp add: peer_view_def assms(2))
qed

lemma with_vector_peer:
  assumes "wf_peer p" and "vectors_count p < 64" and "0 \<le> fd"
  shows "wf_peer (with_vector fd p)" "peer_fds (with_vector fd p) = peer_fds p @ [fd]" "pr_id (with_vector fd p) = pr_id p"
    "drop (Suc (vectors_count p)) (vectors (with_vector fd p)) = drop (Suc (vectors_count p)) (vectors p)"
proof -
  show f: "peer_fds (with_vector fd p) = peer_fds p @ [fd]"
    using assms by (simp add: peer_fds_def with_vector_def wf_peer_def take_Suc_conv_app_nth)
  show "wf_peer (with_vector fd p)" using assms unfolding wf_peer_def f by (auto simp: with_vector_def)
qed (simp_all add: with_vector_def)

lemma peer_extended:
  assumes "wf_client cl" and "peer_list cl = A @ p # B" and "vectors_count p < 64" and "0 \<le> fd"
  shows "wf_client (cl\<lparr>peer_list := A @ with_vector fd p # B\<rparr>)"
    and "peer_view (cl\<lparr>peer_list := A @ with_vector fd p # B\<rparr>) = (peer_view cl)(pr_id p \<mapsto> peer_fds p @ [fd])"
    and "owned (cl\<lparr>peer_list := A @ with_vector fd p # B\<rparr>) = owned cl + {#fd#}"
proof -
  note sp = wf_client_split [OF assms(1,2)]
  note w = with_vector_peer [OF sp(4) assms(3,4)]
  show "wf_client (cl\<lparr>peer_list := A @ with_vector fd p # B\<rparr>)" using assms(1,2) w by (simp add: wf_client_def)
  show "peer_view (cl\<lparr>peer_list := A @ with_vector fd p # B\<rparr>) = (peer_view cl)(pr_id p \<mapsto> peer_fds p @ [fd])"
    using map_of_mid(1) [OF sp(1,2), of "peer_fds p"] map_of_mid(1) [OF sp(1,2), of "peer_fds p @ [fd]"] sp(3)
    by (auto simp: peer_view_def fun_eq_iff assms(2) w)
  show "owned (cl\<lparr>peer_list := A @ with_vector fd p # B\<rparr>) = owned cl + {#fd#}" by (simp add: owned_def assms(2) w)
qed

lemma local_extended:
  assumes "wf_client cl" and "vectors_count (local_peer cl) < 64" and "0 \<le> fd"
  defines "cl' \<equiv> cl\<lparr>local_peer := with_vector fd (local_peer cl)\<rparr>"
  shows "wf_client cl'"
    and "peer_view cl' = (peer_view cl)(pr_id (local_peer cl) \<mapsto> peer_fds (local_peer cl) @ [fd])"
    and "owned cl' = owned cl + {#fd#}"
proof -
  let ?p = "local_peer cl"
  have wp: "wf_peer ?p" using assms(1) by (simp add: wf_client_def)
  note w = with_vector_peer [OF wp assms(2,3)]
  have d: "drop (vectors_count ?p) (vectors ?p) = replicate (64 - vectors_count ?p) (- 1)"
    using assms(1) wp by (auto simp: wf_client_def wf_peer_def peer_fds_def) (metis append_same_eq append_take_drop_id append_eq_append_conv)
  have vc: "vectors_count (with_vector fd ?p) = Suc (vectors_count ?p)" by (simp add: with_vector_def)
  have "drop (Suc (vectors_count ?p)) (vectors ?p) = drop 1 (drop (vectors_count ?p) (vectors ?p))" by simp
  then have "drop (Suc (vectors_count ?p)) (vectors ?p) = replicate (64 - Suc (vectors_count ?p)) (- 1)"
    unfolding d by simp
  then have "vectors (with_vector fd ?p) = peer_fds (with_vector fd ?p) @ replicate (64 - vectors_count (with_vector fd ?p)) (- 1)"
    using w(4) append_take_drop_id [of "Suc (vectors_count ?p)" "vectors (with_vector fd ?p)"]
    by (simp add: peer_fds_def vc)
  then show "wf_client cl'" using assms(1) w unfolding cl'_def wf_client_def by simp
  show "peer_view cl' = (peer_view cl)(pr_id (local_peer cl) \<mapsto> peer_fds (local_peer cl) @ [fd])"
    by (auto simp: peer_view_def fun_eq_iff w cl'_def)
  show "owned cl' = owned cl + {#fd#}" by (simp add: owned_def w cl'_def)
qed

lemma peer_created:
  assumes "wf_client cl" and "k \<notin> pr_id ` set (peer_list cl)" and "k \<noteq> pr_id (local_peer cl)"
  defines "cl' \<equiv> cl\<lparr>peer_list := peer_list cl @ [new_peer k]\<rparr>"
  shows "wf_client cl'" and "owned cl' = owned cl" and "peer_view cl k = None" and "peer_view cl' = (peer_view cl)(k \<mapsto> [])"
proof -
  have f: "peer_fds (new_peer k) = []" "wf_peer (new_peer k)" "pr_id (new_peer k) = k"
    by (simp_all add: wf_peer_def new_peer_def peer_fds_def IVSHMEM_CLIENT_MAX_VECTORS_def)
  show "wf_client cl'" using assms f by (auto simp: wf_client_def)
  show "owned cl' = owned cl" using f by (simp add: owned_def cl'_def)
  have n: "map_of (peer_assoc (peer_list cl)) k = None" using assms(2) by (force simp: map_of_eq_None_iff)
  then show "peer_view cl k = None" using assms(3) by (simp add: peer_view_def)
  show "peer_view cl' = (peer_view cl)(k \<mapsto> [])"
    using n assms(3) f by (auto simp: peer_view_def cl'_def fun_eq_iff map_add_def split: option.splits)
qed

lemma cmsg_fd_received:
  assumes "kernel_msg m" and "0 < rm_ret m"
  shows "received m = [] \<and> cmsg_fd (rm_cmsgs m) (- 1) = - 1 \<or>
    (\<exists>fd. received m = [fd] \<and> cmsg_fd (rm_cmsgs m) (- 1) = fd \<and> 0 \<le> fd)"
proof -
  have none: "filter cmsg_is_fd cs = [] \<Longrightarrow> cmsg_fd cs d = d" for cs d
    by (induction cs d rule: cmsg_fd.induct) (auto split: if_splits)
  have one: "filter cmsg_is_fd cs = [c] \<Longrightarrow> cmsg_fd cs d = cm_fd c" for cs d c
    by (induction cs d rule: cmsg_fd.induct) (auto split: if_splits simp: none)
  have "filter cmsg_is_fd (rm_cmsgs m) = [] \<or> (\<exists>c. filter cmsg_is_fd (rm_cmsgs m) = [c])"
    using assms(1) by (cases "filter cmsg_is_fd (rm_cmsgs m)") (auto simp: kernel_msg_def)
  then show ?thesis
  proof
    assume "filter cmsg_is_fd (rm_cmsgs m) = []"
    then show ?thesis using none assms(2) by (simp add: received_def)
  next
    assume "\<exists>c. filter cmsg_is_fd (rm_cmsgs m) = [c]"
    then obtain c where c: "filter cmsg_is_fd (rm_cmsgs m) = [c]" ..
    then have "c \<in> set (rm_cmsgs m)" by (metis filter_eq_ConsD in_set_conv_decomp)
    then show ?thesis using one [OF c] c assms by (auto simp: received_def kernel_msg_def)
  qed
qed

lemma add_vector_full: "\<not> vectors_count (deref_peer cl r) < 64 \<Longrightarrow> add_vector r fd cl = (- 1, cl)"
  by (simp add: add_vector_def IVSHMEM_CLIENT_MAX_VECTORS_def)

lemma add_vector_room:
  "vectors_count (deref_peer cl r) < 64 \<Longrightarrow> add_vector r fd cl = (0, store_peer r (with_vector fd (deref_peer cl r)) cl)"
  by (simp add: add_vector_def IVSHMEM_CLIENT_MAX_VECTORS_def with_vector_def Let_def)

lemma length_peer_fds: "wf_peer p \<Longrightarrow> length (peer_fds p) = vectors_count p"
  by (simp add: peer_fds_def wf_peer_def)

lemma add_vector_remote:
  assumes "wf_client cl" and "i < length (peer_list cl)" and "0 \<le> fd" and "add_vector (Remote i) fd cl = (ret, cl')"
  shows "if vectors_count (peer_list cl ! i) < 64
    then ret = 0 \<and> wf_client cl' \<and> owned cl' = owned cl + {#fd#} \<and>
      same_session cl cl' \<and>
      peer_view cl' = (peer_view cl)(pr_id (peer_list cl ! i) \<mapsto> peer_fds (peer_list cl ! i) @ [fd])
    else ret = - 1 \<and> cl' = cl"
proof (cases "vectors_count (peer_list cl ! i) < 64")
  case True
  obtain A B where AB: "peer_list cl = A @ peer_list cl ! i # B" "i = length A" using peer_split [OF assms(2)] .
  define p where "p = peer_list cl ! i"
  have pl: "peer_list cl = A @ p # B" using AB(1) by (simp add: p_def)
  have cl': "ret = 0" "cl' = cl\<lparr>peer_list := A @ with_vector fd p # B\<rparr>"
    using assms(4) True add_vector_room [of cl "Remote i" fd] pl AB(2) by (auto simp: deref_peer_def store_peer_def)
  show ?thesis using peer_extended [OF assms(1) pl _ assms(3)] True cl' by (simp add: p_def same_session_def)
next
  case False
  then show ?thesis using add_vector_full [of cl "Remote i" fd] assms(4) by (simp add: deref_peer_def)
qed

lemma read_ok:
  assumes "8 \<le> rm_ret m"
  shows "ivshmem_client_read_one_msg m err index fd =
    (0, err, rm_index m, cmsg_fd (rm_cmsgs m) (- 1), map Opened (received m))"
  using assms by (simp add: ivshmem_client_read_one_msg_def rm_index_def Let_def)

lemma rm_index_sent: "rm_bytes m = index_bytes k \<Longrightarrow> - (2 ^ 63) \<le> k \<Longrightarrow> k < 2 ^ 63 \<Longrightarrow> rm_index m = k"
  by (simp add: rm_index_def index_round_trip)

lemma read_fail:
  assumes "\<not> 8 \<le> rm_ret m"
  shows "\<exists>err' index'. ivshmem_client_read_one_msg m err index fd = (- 1, err', index', fd, map Opened (received m))"
  using assms by (simp add: ivshmem_client_read_one_msg_def Let_def)

lemma delete_effect:
  assumes "wf_client cl" and "received m = []" and "8 \<le> rm_ret m" and fd: "cmsg_fd (rm_cmsgs m) (- 1) = - 1"
    and h: "ivshmem_client_handle_server_msg m calloc_ok err cl = (ret, err', cl', ev)"
  shows "msg_effect m calloc_ok cl ret cl' ev"
proof (cases rule: search_peer_cases [of "rm_index m" cl])
  case (remote i)
  obtain A B where AB: "peer_list cl = A @ peer_list cl ! i # B" "i = length A" using peer_split [OF remote(1)] .
  define p where "p = peer_list cl ! i"
  have pl: "peer_list cl = A @ p # B" using AB(1) by (simp add: p_def)
  note d = peer_deleted [OF assms(1) pl]
  have "ivshmem_client_free_peer i cl = (cl\<lparr>peer_list := A @ B\<rparr>, map Closed (peer_fds p))"
    using free_peer_eq [OF remote(1)] wf_client_split(4) [OF assms(1) pl] pl AB(2) by (simp add: p_def [symmetric])
  then have "ret = 0" "cl' = cl\<lparr>peer_list := A @ B\<rparr>" "ev = map Closed (peer_fds p)"
    using h remote(4) fd assms(2) by (auto simp: ivshmem_client_handle_server_msg_def read_ok [OF assms(3)])
  moreover have "rm_index m = pr_id p" using remote(2) by (simp add: p_def)
  ultimately show ?thesis using d assms pl by (simp add: msg_effect_def acceptable_def announce_def same_session_def)
qed (use h assms in \<open>auto simp: ivshmem_client_handle_server_msg_def read_ok msg_effect_def acceptable_def wf_client_def\<close>)

lemma add_effect:
  assumes "wf_client cl" and "received m = [fd]" and "8 \<le> rm_ret m" and fd: "cmsg_fd (rm_cmsgs m) (- 1) = fd" "0 \<le> fd"
    and h: "ivshmem_client_handle_server_msg m calloc_ok err cl = (ret, err', cl', ev)"
  shows "msg_effect m calloc_ok cl ret cl' ev"
proof (cases rule: search_peer_cases [of "rm_index m" cl])
  case loc
  let ?p = "local_peer cl"
  have wp: "wf_peer ?p" using assms(1) by (simp add: wf_client_def)
  have v: "peer_view cl (rm_index m) = Some (peer_fds ?p)" using loc by (simp add: peer_view_def)
  have e: "(ret, cl') = add_vector Local fd cl" "ev = [Opened fd]"
    using h loc(2) fd assms(2) by (auto simp: ivshmem_client_handle_server_msg_def read_ok [OF assms(3)] split: prod.splits)
  show ?thesis
  proof (cases "vectors_count ?p < 64")
    case True
    have "ret = 0" "cl' = cl\<lparr>local_peer := with_vector fd ?p\<rparr>"
      using e(1) add_vector_room [of cl Local fd] True by (simp_all add: deref_peer_def store_peer_def)
    then show ?thesis using local_extended [OF assms(1) True fd(2)] True v assms(2,3) e(2) loc(1)
      by (simp add: msg_effect_def acceptable_def announce_def length_peer_fds [OF wp] with_vector_def same_session_def)
  next
    case False
    then show ?thesis using e add_vector_full [of cl Local fd] v assms(2,3)
      by (simp add: msg_effect_def acceptable_def length_peer_fds [OF wp] deref_peer_def)
  qed
next
  case (remote i)
  obtain A B where AB: "peer_list cl = A @ peer_list cl ! i # B" "i = length A" using peer_split [OF remote(1)] .
  have wp: "wf_peer (peer_list cl ! i)" by (rule wf_client_split(4) [OF assms(1) AB(1)])
  have v: "peer_view cl (rm_index m) = Some (peer_fds (peer_list cl ! i))"
    using peer_deleted(4) [OF assms(1) AB(1)] remote(2) by simp
  have e: "add_vector (Remote i) fd cl = (ret, cl')" "ev = [Opened fd]"
    using h remote(4) fd assms(2) by (auto simp: ivshmem_client_handle_server_msg_def read_ok [OF assms(3)] split: prod.splits)
  show ?thesis using add_vector_remote [OF assms(1) remote(1) fd(2) e(1)] e(2) v assms(2,3) remote(2)
    by (auto simp: msg_effect_def acceptable_def announce_def length_peer_fds [OF wp] split: if_splits)
next
  case none
  let ?c = "cl\<lparr>peer_list := peer_list cl @ [new_peer (rm_index m)]\<rparr>"
  note n = peer_created [OF assms(1) none(1,2)]
  show ?thesis
  proof (cases calloc_ok)
    case True
    have e: "add_vector (Remote (length (peer_list cl))) fd ?c = (ret, cl')" "ev = [Opened fd]"
      using h none(3) fd assms(2) True
      by (auto simp: ivshmem_client_handle_server_msg_def read_ok [OF assms(3)] split: prod.splits)
    have "ret = 0 \<and> wf_client cl' \<and> owned cl' = owned cl + {#fd#} \<and>
        same_session cl cl' \<and> peer_view cl' = (peer_view cl)(rm_index m \<mapsto> [fd])"
      using add_vector_remote [OF n(1) _ fd(2) e(1)] n by (simp add: new_peer_def peer_fds_def same_session_def)
    then show ?thesis using n(3) True assms(2,3) e(2) by (simp add: msg_effect_def acceptable_def announce_def)
  next
    case False
    then show ?thesis using h none(3) fd assms(2,3) n(3)
      by (auto simp: ivshmem_client_handle_server_msg_def read_ok msg_effect_def acceptable_def)
  qed
qed

lemma server_msg_effect:
  assumes "wf_client cl" and "kernel_msg m"
    and h: "ivshmem_client_handle_server_msg m calloc_ok err cl = (ret, err', cl', ev)"
  shows "msg_effect m calloc_ok cl ret cl' ev"
proof (cases "8 \<le> rm_ret m")
  case True
  then show ?thesis using cmsg_fd_received [OF assms(2)] delete_effect [OF assms(1) _ True _ h] add_effect [OF assms(1) _ True _ _ h]
    by fastforce
next
  case False
  then show ?thesis using h read_fail [OF False, of err 0 0]
    by (auto simp: ivshmem_client_handle_server_msg_def msg_effect_def acceptable_def)
qed

lemma notify_vectors_eq:
  assumes "wf_peer p"
  shows "i + n \<le> vectors_count p \<Longrightarrow> notify_vectors wr p i n ret =
    (if \<forall>fd \<in> set (take n (drop i (vectors p))). wr fd = 8 then ret else - 1, map Kick (take n (drop i (vectors p))))"
proof (induction n arbitrary: i ret)
  case (Suc n)
  have l: "i < length (vectors p)" "i < vectors_count p" "i < 2 ^ 32" using Suc.prems assms by (auto simp: wf_peer_def)
  have u: "unat (word_of_nat i :: u32) = i" using l(3) by (simp add: unat_of_nat_small)
  have "ivshmem_client_notify wr p (word_of_nat i) = (if wr (vectors p ! i) = 8 then 0 else - 1, [Kick (vectors p ! i)])"
    using l(2) u by (simp add: ivshmem_client_notify_def)
  then show ?case using Suc.IH [of "Suc i"] Suc.prems l(1) by (simp add: Cons_nth_drop_Suc [symmetric])
qed simp

lemma notify_all_eq:
  assumes "wf_peer p"
  shows "ivshmem_client_notify_all_vects wr p =
    (if \<forall>fd \<in> set (peer_fds p). wr fd = 8 then 0 else - 1, map Kick (peer_fds p))"
  using notify_vectors_eq [OF assms, of 0 "vectors_count p"] by (simp add: ivshmem_client_notify_all_vects_def peer_fds_def)

lemma notify_peers_eq:
  "\<forall>p \<in> set ps. wf_peer p \<Longrightarrow> notify_peers wr ps ret =
    (if \<forall>fd \<in> set (concat (map peer_fds ps)). wr fd = 8 then ret else - 1, map Kick (concat (map peer_fds ps)))"
  by (induction ps arbitrary: ret) (auto simp: notify_all_eq)

lemma no_fds_simps [simp]:
  "no_fds []" "no_fds (a @ b) \<longleftrightarrow> no_fds a \<and> no_fds b"
  "no_fds (e # es) \<longleftrightarrow> (\<forall>fd. e \<noteq> Opened fd \<and> e \<noteq> Closed fd) \<and> no_fds es"
  by (auto simp: no_fds_def split: client_event.splits)

lemma no_fds_notify [simp]: "no_fds (snd (ivshmem_client_notify wr p v))"
  by (simp add: ivshmem_client_notify_def Let_def)

lemma no_fds_notify_vectors [simp]: "no_fds (snd (notify_vectors wr p i n ret))"
proof (induction n arbitrary: i ret)
  case (Suc n)
  then show ?case by (simp add: split_beta Let_def)
qed simp

lemma no_fds_notify_peers [simp]: "no_fds (snd (notify_peers wr ps ret))"
proof (induction ps arbitrary: ret)
  case (Cons p ps)
  have "no_fds (snd (ivshmem_client_notify_all_vects wr p))" by (simp add: ivshmem_client_notify_all_vects_def)
  then show ?case using Cons.IH by (simp add: split_beta Let_def)
qed simp

lemma no_fds_dump [simp]: "no_fds (ivshmem_client_dump cl)"
proof -
  have v: "no_fds (dump_vectors p i n)" for p i n by (induction p i n rule: dump_vectors.induct) auto
  have "no_fds (dump_peers ps)" for ps by (induction ps) (auto simp: v)
  then show ?thesis by (simp add: ivshmem_client_dump_def v)
qed

lemma no_fds_command: "client_command wr cl t = Inr ev \<Longrightarrow> no_fds ev"
  by (auto simp: client_command_def ivshmem_client_notify_broadcast_def ivshmem_client_notify_all_vects_def
      split: if_splits sum.splits option.splits)

lemma no_fds_commands: "client_commands wr cl ts = Inr ev \<Longrightarrow> no_fds ev"
  by (induction ts arbitrary: ev) (auto dest: no_fds_command split: sum.splits)

lemma no_fds_stdin: "ivshmem_client_handle_stdin_command wr inp err cl = Inr (ret, err', ev) \<Longrightarrow> no_fds ev"
  by (auto simp: ivshmem_client_handle_stdin_command_def dest: no_fds_commands split: sum.splits)

lemma no_fds_vectors: "no_fds (snd (snd (handle_vectors rd cur maxfd cl i n err)))"
proof (induction n arbitrary: i)
  case (Suc n)
  obtain r e where r: "rd i = (r, e)" by force
  obtain a b c where h: "handle_vectors rd cur maxfd cl (Suc i) n err = (a, b, c)" by (metis surj_pair)
  show ?case using Suc.IH [of "Suc i"] by (simp add: r h Let_def)
qed simp

lemma free_all_eq:
  "\<forall>p \<in> set (peer_list cl). wf_peer p \<Longrightarrow> n = length (peer_list cl) \<Longrightarrow>
   free_all_peers n cl = (cl\<lparr>peer_list := []\<rparr>, map Closed (concat (map peer_fds (peer_list cl))))"
proof (induction n arbitrary: cl)
  case (Suc n)
  obtain p ps where ps: "peer_list cl = p # ps" using Suc.prems(2) by (cases "peer_list cl") auto
  have "ivshmem_client_free_peer 0 cl = (cl\<lparr>peer_list := ps\<rparr>, map Closed (peer_fds p))"
    using free_peer_eq [of 0 cl] Suc.prems(1) ps by simp
  then show ?case using Suc.IH [of "cl\<lparr>peer_list := ps\<rparr>"] Suc.prems ps by simp
qed simp

lemma close_local_eq:
  "i + n = length vs \<Longrightarrow> \<forall>v \<in> set vs. - 1 \<le> v \<Longrightarrow>
   close_local i n vs = (take i vs @ replicate n (- 1), map Closed (filter (\<lambda>v. 0 \<le> v) (drop i vs)))"
proof (induction n arbitrary: i vs)
  case (Suc n)
  have i: "i < length vs" using Suc.prems(1) by simp
  have d: "drop i vs = vs ! i # drop (Suc i) vs" using i by (simp add: Cons_nth_drop_Suc)
  show ?case
  proof (cases "0 \<le> vs ! i")
    case True
    have "\<forall>v \<in> set (vs[i := - 1]). - 1 \<le> v" using Suc.prems(2) set_update_subset_insert [of vs i "- 1"] by auto
    then show ?thesis using Suc.IH [of "Suc i" "vs[i := - 1]"] Suc.prems(1) True d i
      by (simp add: take_Suc_conv_app_nth)
  next
    case False
    moreover have "- 1 \<le> vs ! i" using Suc.prems(2) i by simp
    ultimately have "vs ! i = - 1" by simp
    then show ?thesis using Suc.IH [of "Suc i" vs] Suc.prems False d i by (simp add: take_Suc_conv_app_nth)
  qed
qed simp

lemma reset_vectors_eq: "i + n = length vs \<Longrightarrow> reset_vectors i n vs = take i vs @ replicate n (- 1)"
  by (induction i n vs rule: reset_vectors.induct) (auto simp: take_Suc_conv_app_nth)

lemma init_disconnected:
  assumes "ivshmem_client_init path cb verb cl = (0, cl')"
  shows "disconnected cl' \<and> pr_id (local_peer cl') = - 1 \<and> notif_cb cl' = cb"
  using assms
  by (auto simp: ivshmem_client_init_def disconnected_def Let_def zero_client_def zero_peer_def reset_vectors_eq
      IVSHMEM_CLIENT_MAX_VECTORS_def split: if_splits)

lemma disconnected_wf: "disconnected cl \<Longrightarrow> wf_client cl \<and> owned cl = {#}"
  by (simp add: disconnected_def wf_client_def wf_peer_def peer_fds_def owned_def fd_opt_def)

lemma close_effect:
  assumes "wf_client cl" and "ivshmem_client_close cl = (cl', ev)"
  shows "disconnected cl'" and "pr_id (local_peer cl') = - 1" and "closed_fds ev = owned cl" and "opened_fds ev = {#}"
proof -
  let ?l = "local_peer cl"
  have wl: "length (vectors ?l) = 64" "vectors ?l = peer_fds ?l @ replicate (64 - vectors_count ?l) (- 1)"
    "\<forall>v \<in> set (peer_fds ?l). 0 \<le> v" using assms(1) by (auto simp: wf_client_def wf_peer_def)
  then have "\<forall>v \<in> set (vectors ?l). - 1 \<le> v" by (metis Un_iff in_set_replicate le_minus_one_simps(1) order.trans order_refl set_append)
  then have "close_local 0 64 (vectors ?l) = (replicate 64 (- 1), map Closed (filter (\<lambda>v. 0 \<le> v) (vectors ?l)))"
    using close_local_eq [of 0 64 "vectors ?l"] wl(1) by simp
  moreover have "filter (\<lambda>v. 0 \<le> v) (vectors ?l) = peer_fds ?l"
    using wl(3) by (subst wl(2)) (simp add: filter_id_conv [THEN iffD2])
  ultimately have l: "close_local 0 64 (vectors ?l) = (replicate 64 (- 1), map Closed (peer_fds ?l))" by simp
  have "\<forall>p \<in> set (peer_list cl). wf_peer p" using assms(1) by (simp add: wf_client_def)
  note f = free_all_eq [OF this refl]
  have b: "- 1 \<le> sock_fd cl" "- 1 \<le> shm_fd cl" using assms(1) by (simp_all add: wf_client_def)
  show "disconnected cl'" "pr_id (local_peer cl') = - 1" "closed_fds ev = owned cl" "opened_fds ev = {#}"
    using assms(2) b
    by (auto simp: ivshmem_client_close_def f l IVSHMEM_CLIENT_MAX_VECTORS_def disconnected_def owned_def fd_opt_def
        simp del: map_concat split: if_splits)
qed

lemma read_one_msg_cases:
  assumes "kernel_msg m"
  obtains r e k fd where "ivshmem_client_read_one_msg m err index fd0 = (r, e, k, fd, map Opened (received m))"
    "r = 0 \<and> k = rm_index m \<and> (received m = [] \<and> fd = - 1 \<or> received m = [fd] \<and> 0 \<le> fd) \<or> r = - 1 \<and> fd = fd0"
proof (cases "8 \<le> rm_ret m")
  case True
  then show ?thesis using that [OF read_ok [OF True]] cmsg_fd_received [OF assms] by auto
next
  case False
  then show ?thesis using read_fail [OF False, of err index fd0] that by auto
qed

lemma err_close_effect:
  assumes "client_err_close c ev = (ret, cl', ev')" and "disconnected (c\<lparr>sock_fd := - 1\<rparr>)"
    and "closed_fds ev + {#sock_fd c#} \<subseteq># opened_fds ev"
  shows "ret = - 1 \<and> disconnected cl' \<and> closed_fds ev' \<subseteq># opened_fds ev'"
  using assms by (auto simp: client_err_close_def)

lemma connect_effect:
  assumes "disconnected cl" and "- 1 \<le> sock" and k: "kernel_msg m1" "kernel_msg m2" "kernel_msg m3"
    and h: "ivshmem_client_connect sock conn m1 m2 m3 fd0 cl = (ret, cl', ev)"
  shows "if ret = 0 then wf_client cl' \<and> owned cl' = opened_fds ev \<and> closed_fds ev = {#} \<and> 0 \<le> sock_fd cl' \<and>
       0 \<le> shm_fd cl' \<and> pr_id (local_peer cl') = rm_index m2 \<and> 0 \<le> rm_index m2 \<and> peer_list cl' = []
     else ret = - 1 \<and> disconnected cl' \<and> closed_fds ev \<subseteq># opened_fds ev"
proof -
  define c1 where "c1 = cl\<lparr>sock_fd := sock\<rparr>"
  have d: "disconnected (c1\<lparr>sock_fd := - 1\<rparr>)" "disconnected (c1\<lparr>local_peer := (local_peer c1)\<lparr>pr_id := i\<rparr>, sock_fd := - 1\<rparr>)" for i
    using assms(1) by (simp_all add: disconnected_def c1_def)
  have s: "sock_fd c1 = sock" "sock_fd (c1\<lparr>local_peer := q\<rparr>) = sock" for q by (simp_all add: c1_def)
  obtain r1 e1 t1 f1 where R1: "ivshmem_client_read_one_msg m1 0 0 fd0 = (r1, e1, t1, f1, map Opened (received m1))"
    "r1 = 0 \<and> t1 = rm_index m1 \<and> (received m1 = [] \<and> f1 = - 1 \<or> received m1 = [f1] \<and> 0 \<le> f1) \<or> r1 = - 1 \<and> f1 = fd0"
    by (rule read_one_msg_cases [OF k(1)])
  obtain r2 e2 t2 f2 where R2: "ivshmem_client_read_one_msg m2 0 (pr_id (local_peer c1)) f1 = (r2, e2, t2, f2, map Opened (received m2))"
    "r2 = 0 \<and> t2 = rm_index m2 \<and> (received m2 = [] \<and> f2 = - 1 \<or> received m2 = [f2] \<and> 0 \<le> f2) \<or> r2 = - 1 \<and> f2 = f1"
    by (rule read_one_msg_cases [OF k(2)])
  obtain r3 e3 t3 f3 where R3: "ivshmem_client_read_one_msg m3 0 t1 f2 = (r3, e3, t3, f3, map Opened (received m3))"
    "r3 = 0 \<and> t3 = rm_index m3 \<and> (received m3 = [] \<and> f3 = - 1 \<or> received m3 = [f3] \<and> 0 \<le> f3) \<or> r3 = - 1 \<and> f3 = f2"
    by (rule read_one_msg_cases [OF k(3)])
  let ?c2 = "c1\<lparr>local_peer := (local_peer c1)\<lparr>pr_id := t2\<rparr>\<rparr>"
  let ?e2 = "Opened sock # map Opened (received m1) @ map Opened (received m2)"
  let ?e3 = "?e2 @ map Opened (received m3) @ (if 0 \<le> f3 then [Closed f3] else [])"
  let ?bad2 = "r2 < 0 \<or> t2 < 0 \<or> f2 \<noteq> - 1" and ?bad3 = "r3 < 0 \<or> t3 \<noteq> - 1 \<or> f3 < 0"
  have id2: "pr_id (local_peer ?c2) = t2" by simp
  have eq: "(ret, cl', ev) = (if sock < 0 then (- 1, c1, [])
      else if SUN_PATH_SIZE \<le> length (unix_sock_path c1) then client_err_close c1 [Opened sock]
      else if conn < 0 then client_err_close c1 [Opened sock]
      else if r1 < 0 \<or> t1 \<noteq> 0 \<or> f1 \<noteq> - 1 then client_err_close c1 (Opened sock # map Opened (received m1))
      else if ?bad2 then client_err_close ?c2 ?e2
      else if ?bad3 then client_err_close ?c2 ?e3
      else (0, ?c2\<lparr>shm_fd := f3\<rparr>, ?e2 @ map Opened (received m3)))"
    unfolding h [symmetric] ivshmem_client_connect_def
    by (simp only: Let_def c1_def [symmetric] R1(1) R2(1) R3(1) prod.case id2 append.simps append_assoc)
  show ?thesis
  proof (cases "sock < 0")
    case True
    then show ?thesis using eq assms(1,2) by (simp add: c1_def disconnected_def)
  next
    case sock: False
    show ?thesis
    proof (cases "SUN_PATH_SIZE \<le> length (unix_sock_path c1) \<or> conn < 0")
      case True
      then have "client_err_close c1 [Opened sock] = (ret, cl', ev)" unfolding eq using sock by auto
      then show ?thesis using err_close_effect [of c1 "[Opened sock]" ret cl' ev] d(1) s by simp
    next
      case conn: False
      show ?thesis
      proof (cases "r1 < 0 \<or> t1 \<noteq> 0 \<or> f1 \<noteq> - 1")
        case True
        then show ?thesis
          using eq sock conn err_close_effect [of c1 "Opened sock # map Opened (received m1)" ret cl' ev] d(1) s by simp
      next
        case ok1: False
        then have e: "(ret, cl', ev) = (if ?bad2 then client_err_close ?c2 ?e2
            else if ?bad3 then client_err_close ?c2 ?e3
            else (0, ?c2\<lparr>shm_fd := f3\<rparr>, ?e2 @ map Opened (received m3)))"
          using eq sock conn by simp
        show ?thesis
        proof (cases ?bad2)
          case True
          then show ?thesis using e err_close_effect [of ?c2 ?e2 ret cl' ev] d(2) s by simp
        next
          case ok2: False
          show ?thesis
          proof (cases ?bad3)
            case True
            have "closed_fds ?e3 + {#sock#} \<subseteq># opened_fds ?e3" using R3(2) ok2 by auto
            then show ?thesis using True ok2 e err_close_effect [of ?c2 ?e3 ret cl' ev] d(2) s by simp
          next
            case False
            then have "received m1 = []" "received m2 = []" "received m3 = [f3]" "t2 = rm_index m2"
              using ok1 ok2 R1(2) R2(2) R3(2) by auto
            then show ?thesis using e ok2 False assms(1) sock
              by (simp add: disconnected_def c1_def wf_client_def wf_peer_def peer_fds_def owned_def fd_opt_def)
          qed
        qed
      qed
    qed
  qed
qed

lemma fds_kept_trans:
  assumes "fds_kept a b e1" and "fds_kept b c e2"
  shows "fds_kept a c (e1 @ e2)"
proof -
  have "owned c + closed_fds e2 + closed_fds e1 \<subseteq># owned b + opened_fds e2 + closed_fds e1"
    using assms(2) by (simp add: fds_kept_def)
  also have "\<dots> \<subseteq># owned a + opened_fds e1 + opened_fds e2"
    using assms(1) by (simp add: fds_kept_def add.commute add.left_commute)
  finally show ?thesis by (simp add: fds_kept_def ac_simps)
qed

lemma fds_kept_no_fds: "no_fds ev \<Longrightarrow> fds_kept cl cl ev"
  by (simp add: fds_kept_def no_fds_def)

lemma handle_fds_effect:
  assumes "wf_client cl" and "kernel_msg m" and "ivshmem_client_handle_fds m calloc_ok rd fds maxfd err cl = (ret, err', cl', ev)"
  shows "wf_client cl' \<and> same_session cl cl' \<and> fds_kept cl cl' ev \<and> (ret = 0 \<or> ret = - 1)"
proof -
  obtain r1 e1 c1 ev1 where s: "(if sock_fd cl < maxfd \<and> sock_fd cl \<in> set fds
      then ivshmem_client_handle_server_msg m calloc_ok err cl else (0, err, cl, [])) = (r1, e1, c1, ev1)"
    by (metis surj_pair)
  have c1: "wf_client c1 \<and> same_session cl c1 \<and> fds_kept cl c1 ev1"
  proof (cases "sock_fd cl < maxfd \<and> sock_fd cl \<in> set fds")
    case True
    then have "msg_effect m calloc_ok cl r1 c1 ev1" using server_msg_effect [OF assms(1,2)] s by simp
    then show ?thesis using assms(1)
      by (auto simp: msg_effect_def fds_kept_def same_session_def split: if_splits)
  next
    case False
    then show ?thesis using s assms(1) by (auto simp: same_session_def fds_kept_def)
  qed
  obtain r2 e2 ev2 where v: "ivshmem_client_handle_event rd fds maxfd c1 e1 = (r2, e2, ev2)" by (metis surj_pair)
  then have "no_fds ev2" using no_fds_vectors by (metis ivshmem_client_handle_event_def snd_conv)
  then have "fds_kept cl c1 (ev1 @ ev2)" using c1 fds_kept_trans fds_kept_no_fds by blast
  then show ?thesis using assms(3) c1 unfolding ivshmem_client_handle_fds_def s prod.case Let_def v
    by (auto split: if_splits)
qed

lemma poll_round_effect:
  assumes "wf_client cl" and "kernel_poll p" and "client_poll_round p err cl = Inr (r, err', cl', ev)"
  shows "wf_client cl' \<and> same_session cl cl' \<and> fds_kept cl cl' ev \<and> r \<noteq> Some 0"
proof -
  have km: "kernel_msg (pi_msg p)" "pi_select p \<noteq> 0" using assms(2) by (simp_all add: kernel_poll_def)
  have nil: "same_session cl cl" by (simp add: same_session_def)
  obtain fds maxfd where g: "ivshmem_client_get_fds cl ([0], 1) = Inr (fds, maxfd)"
    using assms(3) by (auto simp: client_poll_round_def FD_SET_def FD_SETSIZE_def split: sum.splits)
  show ?thesis
  proof (cases "pi_select p < 0")
    case True
    then show ?thesis using assms g nil km by (auto simp: client_poll_round_def FD_SET_def FD_SETSIZE_def fds_kept_def split: if_splits)
  next
    case False
    obtain r1 err1 ev1 where s: "(if 0 \<in> set (pi_ready p)
        then ivshmem_client_handle_stdin_command (pi_write p) (pi_stdin p) err cl else Inr (0, err, [])) = Inr (r1, err1, ev1)"
      using assms(3) False g by (auto simp: client_poll_round_def FD_SET_def FD_SETSIZE_def split: sum.splits)
    have "no_fds ev1" using s by (auto split: if_splits dest: no_fds_stdin)
    then have k1: "fds_kept cl cl ev1" by (rule fds_kept_no_fds)
    obtain r2 err2 cl2 ev2 where h: "ivshmem_client_handle_fds (pi_msg p) (pi_calloc p) (pi_read p) (pi_ready p) maxfd err1 cl =
        (r2, err2, cl2, ev2)" by (metis surj_pair)
    have f0: "FD_SET 0 [] = Inr [0]" by (simp add: FD_SET_def FD_SETSIZE_def)
    note e = handle_fds_effect [OF assms(1) km(1) h]
    have eq: "client_poll_round p err cl = (if r1 < 0 \<and> err1 \<noteq> EINTR then Inr (Some (pi_select p), err1, cl, ev1)
        else Inr (if r2 < 0 then Some (pi_select p) else None, err2, cl2, ev1 @ ev2))"
      unfolding client_poll_round_def by (simp only: f0 g sum.case prod.case False if_False s h Let_def)
    show ?thesis using assms(1,3) eq e k1 nil km(2) fds_kept_trans [OF k1] by (auto split: if_splits)
  qed
qed

lemma same_session_trans: "same_session a b \<Longrightarrow> same_session b c \<Longrightarrow> same_session a c"
  by (simp add: same_session_def)

lemma poll_events_effect:
  assumes "ivshmem_client_poll_events ps err cl = Inr (r, cl', ev)" and "wf_client cl" and "\<forall>p \<in> set ps. kernel_poll p"
  shows "wf_client cl' \<and> same_session cl cl' \<and> fds_kept cl cl' ev \<and> r \<noteq> Some 0"
  using assms
proof (induction ps arbitrary: err cl ev)
  case Nil
  then show ?case by (simp add: same_session_def fds_kept_def)
next
  case (Cons p ps)
  obtain r1 err1 cl1 ev1 where c: "client_poll_round p err cl = Inr (r1, err1, cl1, ev1)"
    using Cons.prems(1) by (auto split: sum.splits)
  have e: "wf_client cl1 \<and> same_session cl cl1 \<and> fds_kept cl cl1 ev1 \<and> r1 \<noteq> Some 0"
    using poll_round_effect [OF Cons.prems(2) _ c] Cons.prems(3) by simp
  show ?case
  proof (cases r1)
    case None
    then obtain ev2 where "ivshmem_client_poll_events ps err1 cl1 = Inr (r, cl', ev2)" "ev = ev1 @ ev2"
      using Cons.prems(1) c by (auto split: sum.splits)
    then show ?thesis using Cons.IH [of err1 cl1 ev2] e Cons.prems(3) same_session_trans fds_kept_trans by fastforce
  next
    case (Some x)
    then show ?thesis using Cons.prems(1) c e by auto
  qed
qed

lemma session_effect:
  assumes "disconnected cl" and "kernel_session si" and "client_session si cl = Inr (fin, cl', ev)"
  shows "wf_client cl' \<and> fds_kept cl cl' ev \<and> (fin \<longrightarrow> disconnected cl')"
proof -
  obtain ret cl1 ev1 where c: "ivshmem_client_connect (si_socket si) (si_connect si) (si_version si) (si_id si) (si_shm si)
      (si_fd si) cl = (ret, cl1, ev1)" by (metis surj_pair)
  have k: "- 1 \<le> si_socket si" "kernel_msg (si_version si)" "kernel_msg (si_id si)" "kernel_msg (si_shm si)"
    "\<forall>p \<in> set (si_polls si). kernel_poll p" using assms(2) by (simp_all add: kernel_session_def)
  have e: "if ret = 0 then wf_client cl1 \<and> owned cl1 = opened_fds ev1 \<and> closed_fds ev1 = {#}
     else ret = - 1 \<and> disconnected cl1 \<and> closed_fds ev1 \<subseteq># opened_fds ev1"
    using connect_effect [OF assms(1) k(1-4) c] by (auto split: if_splits)
  have k1: "fds_kept cl cl1 ev1" "wf_client cl1"
    using e disconnected_wf [OF assms(1)] disconnected_wf [of cl1] by (auto simp: fds_kept_def split: if_splits)
  show ?thesis
  proof (cases "ret < 0")
    case True
    then show ?thesis using assms(3) e k1 c by (auto simp: client_session_def)
  next
    case False
    then obtain r cl2 ev2 where p: "ivshmem_client_poll_events (si_polls si) (si_errno si) cl1 = Inr (r, cl2, ev2)"
      using assms(3) c by (auto simp: client_session_def split: sum.splits)
    note pe = poll_events_effect [OF p k1(2) k(5)]
    have k2: "fds_kept cl cl2 (ev1 @ ev2)" using fds_kept_trans k1 pe by blast
    obtain cl3 ev3 where z: "ivshmem_client_close cl2 = (cl3, ev3)" by (metis surj_pair)
    have "fds_kept cl2 cl3 ev3" "disconnected cl3"
      using close_effect [OF _ z] pe disconnected_wf [of cl3] by (auto simp: fds_kept_def)
    then have k3: "fds_kept cl cl3 ((ev1 @ ev2) @ ev3)" "wf_client cl3" "disconnected cl3"
      using fds_kept_trans [OF k2] disconnected_wf by auto
    show ?thesis using assms(3) c False p pe k2 k3 z by (cases r) (auto simp: client_session_def)
  qed
qed

lemma client_loop_effect:
  assumes "client_loop sis cl = Inr (b, cl', ev)" and "disconnected cl" and "\<forall>si \<in> set sis. kernel_session si"
  shows "wf_client cl' \<and> fds_kept cl cl' ev \<and> (b \<longrightarrow> disconnected cl')"
  using assms
proof (induction sis arbitrary: cl ev)
  case Nil
  then show ?case using disconnected_wf by (simp add: fds_kept_def)
next
  case (Cons si sis)
  obtain b1 cl1 ev1 where s: "client_session si cl = Inr (b1, cl1, ev1)" using Cons.prems(1) by (auto split: sum.splits)
  have e: "wf_client cl1 \<and> fds_kept cl cl1 ev1 \<and> (b1 \<longrightarrow> disconnected cl1)"
    using session_effect [OF Cons.prems(2) _ s] Cons.prems(3) by simp
  show ?case
  proof (cases b1)
    case True
    then obtain ev2 where "client_loop sis cl1 = Inr (b, cl', ev2)" "ev = ev1 @ ev2"
      using Cons.prems(1) s by (auto split: sum.splits)
    then show ?thesis using Cons.IH [of cl1 ev2] e True Cons.prems(3) fds_kept_trans by fastforce
  next
    case False
    then show ?thesis using Cons.prems(1) s e by auto
  qed
qed

lemma char_code_digit: "d < 10 \<Longrightarrow> char_code (char_of (48 + d)) = 48 + d"
  by (simp add: char_code_def)

lemma decimal_digits: "decimal n \<noteq> [] \<and> (\<forall>c \<in> set (decimal n). is_digit c)"
proof (induction n rule: decimal.induct)
  case (1 n)
  have d: "is_digit (char_of (48 + d))" if "d < 10" for d :: nat using that by (simp add: is_digit_def char_code_digit)
  show ?case using 1 d [of n] d [of "n mod 10"] by (subst (1 2) decimal.simps) auto
qed

lemma decimal_value: "digits_value (decimal n) = int n"
proof (induction n rule: decimal.induct)
  case (1 n)
  show ?case
  proof (cases "n < 10")
    case True
    then show ?thesis by (subst decimal.simps) (simp add: digits_value_def char_code_digit)
  next
    case False
    have "int n = 10 * int (n div 10) + int (n mod 10)" by presburger
    then show ?thesis using 1 False by (subst decimal.simps) (simp add: digits_value_def char_code_digit)
  qed
qed

lemma digit_char:
  assumes "is_digit c"
  shows "\<not> is_white c" and "c \<noteq> CHR ''-''" and "c \<noteq> CHR ''+''"
  using assms by (auto simp: is_digit_def is_white_def char_code_def)

lemma scan_decimal:
  assumes "int n < 2 ^ 31" and "rest = [] \<or> \<not> is_digit (hd rest)"
  shows "scan_d (decimal n @ rest) = Inr (Some (int n, rest))"
proof -
  obtain c cs where c: "decimal n = c # cs" using decimal_digits by (metis neq_Nil_conv)
  have d: "is_digit c" using decimal_digits [of n] c by simp
  have t: "takeWhile is_digit (decimal n @ rest) = decimal n" "dropWhile is_digit (decimal n @ rest) = rest"
    using decimal_digits [of n] assms(2) by (cases rest; simp add: takeWhile_append2 dropWhile_append2)+
  have "scan_sign (dropWhile is_white (decimal n @ rest)) = (False, decimal n @ rest)"
    using digit_char [OF d] by (simp add: c scan_sign_def)
  then show ?thesis using assms(1) decimal_digits [of n] by (simp add: scan_d_def t decimal_value in_c_int_def)
qed

lemma drop_white_decimal: "dropWhile is_white (decimal n @ rest) = decimal n @ rest"
proof -
  obtain c cs where c: "decimal n = c # cs" using decimal_digits by (metis neq_Nil_conv)
  then show ?thesis using decimal_digits [of n] digit_char by simp
qed

lemma scan_int_command:
  assumes "int p < 2 ^ 31" and "int v < 2 ^ 31"
  shows "scan_int_d_d (''int '' @ decimal p @ '' '' @ decimal v) = Inr (Some (int p, int v))"
proof -
  have w: "is_white (CHR '' '')" "\<not> is_digit (CHR '' '')" by (simp_all add: is_white_def is_digit_def char_code_def)
  have "scan_int_d (''int '' @ decimal p @ '' '' @ decimal v) = Inr (Some (int p, '' '' @ decimal v))"
    using scan_decimal [OF assms(1), of "'' '' @ decimal v"] w
    by (simp add: scan_int_d_def drop_white_decimal)
  moreover have "scan_d (dropWhile is_white ('' '' @ decimal v)) = Inr (Some (int v, []))"
    using scan_decimal [OF assms(2), of "[]"] w drop_white_decimal [of v "[]"] by simp
  ultimately show ?thesis by (simp add: scan_int_d_d_def)
qed

text \<open>
  C19.  Parsing inverts printing for the notification command: the line made of the word int
  and the decimal numerals of a peer and a vector kicks exactly that vector of that peer; an
  unknown peer is reported and a vector out of range kicks nothing.
\<close>

theorem client_int_command:
  assumes "int p < 2 ^ 31" and "int v < 2 ^ 31" and "wf_client cl"
  shows "client_command wr cl (''int '' @ decimal p @ '' '' @ decimal v) =
    Inr (case peer_view cl (int p) of
           None \<Rightarrow> [Print_no_peer (int p)]
         | Some fds \<Rightarrow> if v < length fds then [Kick (fds ! v)] else [])"
proof -
  let ?t = "''int '' @ decimal p @ '' '' @ decimal v"
  have na: "?t \<noteq> ''int all''"
  proof -
    obtain c cs where c: "decimal p = c # cs" using decimal_digits by (metis neq_Nil_conv)
    have "is_digit c" using decimal_digits [of p] c by simp
    then show ?thesis by (auto simp: c is_digit_def char_code_def)
  qed
  have n: "snd (ivshmem_client_notify wr q (u32_of_int (int v))) = (if v < length (peer_fds q) then [Kick (peer_fds q ! v)] else [])"
    if "wf_peer q" for q
    using that assms(2) length_peer_fds [OF that]
    by (simp add: ivshmem_client_notify_def unat_u32_of_int Let_def peer_fds_def)
  show ?thesis
  proof (cases rule: search_peer_cases [of "int p" cl])
    case loc
    then show ?thesis using na scan_int_command [OF assms(1,2)] n [of "local_peer cl"] assms(3)
      by (simp add: client_command_def peer_view_def deref_peer_def wf_client_def)
  next
    case (remote i)
    obtain A B where AB: "peer_list cl = A @ peer_list cl ! i # B" "i = length A" using peer_split [OF remote(1)] .
    then show ?thesis using na scan_int_command [OF assms(1,2)] n [of "peer_list cl ! i"] remote
        peer_deleted(4) [OF assms(3) AB(1)] wf_client_split(4) [OF assms(3) AB(1)]
      by (simp add: client_command_def deref_peer_def)
  next
    case none
    then show ?thesis using na scan_int_command [OF assms(1,2)] peer_created(3) [OF assms(3) none(1,2)]
      by (simp add: client_command_def)
  qed
qed

text \<open>
  C20.  A broadcast kicks every vector of every remote peer once, in the order of the
  tables, none of the client's own, also after a failed write; it returns 0 exactly when
  every write has written 8 bytes.
\<close>

theorem client_broadcast_reaches_all:
  assumes "wf_client cl"
  shows "ivshmem_client_notify_broadcast wr cl =
    (if \<forall>p \<in> set (peer_list cl). \<forall>fd \<in> set (peer_fds p). wr fd = 8 then 0 else - 1,
     map Kick (concat (map peer_fds (peer_list cl))))"
  using notify_peers_eq [of "peer_list cl" wr 0] assms by (simp add: ivshmem_client_notify_broadcast_def wf_client_def)

text \<open>
  C12.  The client's tables refine the server's view, a map from identifiers to lists of
  descriptors: an accepted message with a descriptor appends it to the list of its peer (a
  new one if need be), one without removes the peer and closes its descriptors; a message
  that is not acceptable returns -1 and leaves the tables alone.
\<close>

theorem client_tracks_server:
  assumes "wf_client cl" and "kernel_msg m"
    and "ivshmem_client_handle_server_msg m calloc_ok err cl = (ret, err', cl', ev)"
  shows "if acceptable m calloc_ok cl
    then ret = 0 \<and> wf_client cl' \<and> peer_view cl' = announce (rm_index m) (received m) (peer_view cl) \<and>
      owned cl + mset (received m) = owned cl' + closed_fds ev
    else ret = - 1 \<and> cl' = cl \<and> closed_fds ev = {#}"
  using server_msg_effect [OF assms] by (auto simp: msg_effect_def split: if_splits)

text \<open>
  C18.  Descriptors of the ivshmem client over any number of connections: its tables stay
  well formed, and the descriptors it owns together with those it has closed are among those
  it was given, counted with multiplicity, so none is closed twice or closed while still in
  a table.
\<close>

theorem client_descriptors:
  assumes "\<forall>si \<in> set sis. kernel_session si" and "client_main opts sa stack sis = Inr (Inr (cl, ev))"
  shows "wf_client cl \<and> owned cl + closed_fds ev \<subseteq># opened_fds ev"
proof -
  obtain args where a: "ivshmem_client_parse_args opts client_default_args = Inr args" and sa: "sa \<noteq> - 1"
    using assms(2) by (auto simp: client_main_def split: sum.splits if_splits)
  obtain ret cl0 where i: "ivshmem_client_init (arg_path args) True (arg_verbose args) stack = (ret, cl0)" by force
  have ret: "ret = 0" using assms(2) a sa i by (auto simp: client_main_def ivshmem_client_init_def Let_def split: if_splits)
  obtain b ev1 where l: "client_loop sis cl0 = Inr (b, cl, ev1)" and ev: "ev = [Print_help, Print_prompt] @ ev1"
    using assms(2) a sa i ret by (auto simp: client_main_def split: sum.splits)
  have d: "disconnected cl0" using init_disconnected i ret by simp
  show ?thesis using client_loop_effect [OF l d assms(1)] disconnected_wf [OF d] ev by (simp add: fds_kept_def)
qed

lemma wf_demo_client: "wf_client demo_client"
  by (simp add: wf_client_def wf_peer_def peer_fds_def demo_client_def)

theorem client_int_command_witness:
  "client_command (\<lambda>_. 8) demo_client (''int '' @ decimal 2 @ '' '' @ decimal 0) = Inr [Kick 5]"
  using client_int_command [OF _ _ wf_demo_client, of 2 0 "\<lambda>_. 8"]
  by (simp add: peer_view_def demo_client_def peer_fds_def)

theorem client_broadcast_reaches_all_witness:
  "ivshmem_client_notify_broadcast (\<lambda>_. 8) demo_client = (0, [Kick 5])"
  using client_broadcast_reaches_all [OF wf_demo_client, of "\<lambda>_. 8"] by (simp add: demo_client_def peer_fds_def)

theorem client_tracks_server_witness:
  "\<exists>ret err cl ev. ivshmem_client_handle_server_msg (plain_msg 2) True 0 demo_client = (ret, err, cl, ev) \<and>
     ret = 0 \<and> wf_client cl \<and> peer_view cl 2 = None \<and> owned demo_client = owned cl + closed_fds ev"
proof -
  obtain ret err cl ev where h: "ivshmem_client_handle_server_msg (plain_msg 2) True 0 demo_client = (ret, err, cl, ev)"
    by (metis surj_pair)
  have k: "kernel_msg (plain_msg 2)" by (simp add: kernel_msg_def plain_msg_def)
  have i: "rm_index (plain_msg 2) = 2" by (rule rm_index_sent) (simp_all add: plain_msg_def)
  have "acceptable (plain_msg 2) True demo_client" "received (plain_msg 2) = []"
    by (simp_all add: acceptable_def i) (simp_all add: received_def plain_msg_def demo_client_def)
  then show ?thesis using client_tracks_server [OF wf_demo_client k h] h i by (simp add: announce_def)
qed

theorem client_descriptors_witness:
  "\<exists>cl ev. client_main [Copt_v] 0 zero_client [demo_session] = Inr (Inr (cl, ev)) \<and> wf_client cl \<and>
     owned cl + closed_fds ev \<subseteq># opened_fds ev"
proof -
  have k: "\<forall>si \<in> set [demo_session]. kernel_session si"
    by (simp add: kernel_session_def demo_session_def kernel_poll_def demo_poll_def kernel_msg_def plain_msg_def fd_msg_def cmsg_is_fd_def)
  have "case client_main [Copt_v] 0 zero_client [demo_session] of Inr (Inr (cl, ev)) \<Rightarrow> sock_fd cl = - 1 | _ \<Rightarrow> False"
    by code_simp
  then obtain cl ev where m: "client_main [Copt_v] 0 zero_client [demo_session] = Inr (Inr (cl, ev))"
    by (auto split: sum.splits)
  then show ?thesis using client_descriptors [OF k m] by blast
qed

end
