(* ===== verification/Spec2Isabelle.thy ===== *)
theory Spec2Isabelle
  imports Ivshmem_Tenants Ivshmem_Fine Ivshmem_Allocator Ivshmem_Lock_Calls Ivshmem_Programs Ivshmem_Setups Ivshmem_Chunk_Trusted Test_Programs Ivshmem_Client
begin

text \<open>
  Verification of SecureIVSHMEM: message channels in a shared memory device, the trusted
  program that assigns them, the device driver and the kernel hook that guard it, and the
  client of the ivshmem server.

  \<^bold>\<open>The program.\<close>  A device (\<^verbatim>\<open>dev_shm/myshm.c\<close>, 4 MB) is mapped by every party.  Its
  start is the control section: a table of at most 32 channels, a mutex word, and one slot
  for a requested key.  The rest is the data section, cut into one page ring for each
  channel.  A sender (\<^verbatim>\<open>ivshmem_send_buffer\<close>) looks its channel up or asks for one, then
  writes pages and advances \<^verbatim>\<open>head\<close>; a receiver (\<^verbatim>\<open>ivshmem_recv_buffer\<close>) reads pages and
  advances \<^verbatim>\<open>tail\<close>.  The trusted program (\<^verbatim>\<open>examples/trusted_main/main.c\<close>) polls for
  requests and redistributes the data section among the channels.  A second transport
  (\<^verbatim>\<open>ivshmem_lock_base.c\<close>) passes one message at a time under a flag.  The kernel module
  (\<^verbatim>\<open>kernel_module/ivshmem_uio_hook.c\<close>) intercepts the driver's \<^verbatim>\<open>mmap\<close>.

  \<^bold>\<open>Theories.\<close>
  \<^item> \<open>Ivshmem_Prelude\<close>: C integers, structure layout, byte blocks, words and lists.
  \<^item> \<open>Ivshmem_Systems\<close>: reachability, and the interfaces \<open>safe_system\<close>,
    \<open>stream_transport\<close> and \<open>live_transport\<close>, with what follows from each.
  \<^item> \<open>Ivshmem_Secure\<close>: \<^verbatim>\<open>ivshmem_secure.h\<close> and \<^verbatim>\<open>.c\<close>.  A call in progress is a record (arguments, local
    variables, program counter); \<open>ivshmem_send_step\<close> and \<open>ivshmem_recv_step\<close> execute one
    access to shared memory, or one byte of a copy.
  \<^item> \<open>Ivshmem_Trusted\<close>: \<^verbatim>\<open>ivshmem_trusted.c\<close>: creating channels, serving requests,
    rebalancing; the well-formedness \<open>wf_ctrl\<close> of the control section.
  \<^item> \<open>Ivshmem_Channels\<close>: facts about channel tables that the next theories share.
  \<^item> \<open>Ivshmem_Ring\<close>: one sender and one receiver on one channel, interleaved; interprets
    \<open>live_transport\<close>.
  \<^item> \<open>Ivshmem_Sessions\<close>: any number of calls of one sender and one receiver after each other,
    interleaved; the interface \<open>call_transport\<close>, which yields a \<open>live_transport\<close>;
    \<open>Ivshmem_Ring_Calls\<close> and \<open>Ivshmem_Lock_Calls\<close> interpret it for the two transports.
  \<^item> \<open>Ivshmem_Calls\<close>: single calls: lookup against a reference, requests served and missed,
    the sizes for which sending returns.
  \<^item> \<open>Ivshmem_World\<close>: any number of senders and receivers and the trusted program,
    interleaved; interprets \<open>safe_system\<close>; also \<^verbatim>\<open>trusted_main/main.c\<close>.
  \<^item> \<open>Ivshmem_Calm\<close>: the same system when rebalancing fires only while no copy runs or when
    it moves nothing; interprets \<open>safe_system\<close> with isolation.
  \<^item> \<open>Ivshmem_Handlers\<close>: the handlers of \<open>Ivshmem_Trusted\<close> again, as a machine of one
    statement per step, and that it computes the same when it runs alone; \<open>Ivshmem_Fine\<close>:
    that machine interleaved with senders and receivers, simulated by an abstract host;
    interprets \<open>safe_system\<close> for both.
  \<^item> \<open>Ivshmem_Allocator\<close>: the library of the trusted host as an implementation of a list of
    keys with numbers of pages.
  \<^item> \<open>Ivshmem_Tenants\<close>: one pair of a sender and a receiver in a calm world of other calls;
    interprets \<open>call_transport\<close>.
  \<^item> \<open>Ivshmem_Chunk\<close>: the loops of \<^verbatim>\<open>ivshmem_secure.c\<close> in the variant with \<^verbatim>\<open>IVSHMEM_TYPE\<close> 1;
    interprets \<open>call_transport\<close> for the order in which the variant works.
    \<open>Ivshmem_Chunk_Trusted\<close>: the operations of \<^verbatim>\<open>ivshmem_trusted.c\<close> in that variant.
  \<^item> \<open>Ivshmem_Lock_Base\<close>: \<^verbatim>\<open>ivshmem_lock_base.h\<close> and \<^verbatim>\<open>.c\<close>; interprets \<open>live_transport\<close>.
  \<^item> \<open>Ivshmem_Lib\<close>: \<^verbatim>\<open>ivshmem_lib.c\<close>, the device context and its descriptors, for every
    \<^verbatim>\<open>IVSHMEM_RUNNING_OS\<close>.
  \<^item> \<open>Ivshmem_Crypto\<close>: \<^verbatim>\<open>ivshmem_crypto.c\<close>, with OpenSSL's EVP interface as a parameter.
  \<^item> \<open>Ivshmem_Apps\<close>: options, keys, messages and rounds of the programs under
    \<^verbatim>\<open>examples/writer\<close> and \<^verbatim>\<open>examples/reader\<close>; \<open>Ivshmem_Programs\<close>: their main functions.
  \<^item> \<open>Ivshmem_Demos\<close>: the experiments under \<^verbatim>\<open>examples/latency_test\<close>, \<^verbatim>\<open>examples/shm_test\<close>
    (interpreting \<open>live_transport\<close> and \<open>safe_system\<close>) and \<^verbatim>\<open>examples/no_lock_test\<close>;
    \<open>Ivshmem_Setups\<close>: their main functions.
  \<^item> \<open>Myshm\<close>: \<^verbatim>\<open>dev_shm/myshm.c\<close>.
  \<^item> \<open>Uio_Hook\<close>: \<^verbatim>\<open>kernel_module/ivshmem_uio_hook.c\<close>, its callback for one call and for any
    number of tasks; interprets \<open>safe_system\<close>.
  \<^item> \<open>Test_Programs\<close>: \<^verbatim>\<open>kernel_module/test_app/uio_test.c\<close> over the hook's handler and
    \<^verbatim>\<open>dev_shm/examples/write_test.c\<close>.
  \<^item> \<open>Ivshmem_Client\<close>: \<^verbatim>\<open>examples/ivshmem_client\<close>, over \<open>Client_Compat\<close>, the byte order
    of its messages.
  \<^item> This theory: the properties that span components.

  \<^bold>\<open>What the lemmas show.\<close>  For the ring: what the receiver has is always a prefix of what
  was sent, no run faults, and both calls can always be completed, for messages of at least
  two whole pages; the same for sequences of such calls, over both transports; the same for
  a pair among any number of calls on other channels, by a relation of what those may change
  (\<open>channel_rely\<close>) under which the ring's invariant is stable; and from there for the main
  functions of the writers and readers.  For the control section: well-formedness under every
  interleaving, disjoint buffers, and, as long as rebalancing fires only while nobody copies
  or when it moves nothing, that a write to the data section is by a sender whose key owns
  the buffer; the latter also when the statements of the host's handlers are interleaved with
  everything else.  Each of these has counterparts that show where the
  code does not do what it means to: sizes for which sending never returns or reads too far,
  a flag raised before the request is written, a request torn apart by another one, a
  rebalancing during a copy, and one that undoes what happens meanwhile, a failed
  allocation with the mutex held, a chunk published before its size, or waiting during a
  rebalancing, two senders in the lock-based transport, two tasks in the hook.  For the driver
  and the hook: which areas are mapped and which are refused, and that the hook is passed by
  only while its flag is held by another task.  For the client: that its tables follow the
  server's messages, and that its descriptors are closed at most once.

  \<^bold>\<open>Conventions.\<close>  Undefined behaviour is a value of \<open>c_fault\<close>.  What the system returns
  (\<^verbatim>\<open>malloc\<close>, \<^verbatim>\<open>open\<close>, \<^verbatim>\<open>mmap\<close>, \<^verbatim>\<open>time\<close>, \<^verbatim>\<open>recvmsg\<close>, kernel functions) is an
  argument, quantified over in the theorems; hypotheses about it (\<open>kernel_msg\<close>,
  \<open>file_mmap_ok\<close>, \<open>evp_gcm\<close>) state documented behaviour.  Loops that wait are steps that
  leave the state as it is, so that no fuel is needed; the loop of \<open>myshm_mmap\<close> is a partial
  function whose termination is proved.  Loops of programs that never end run over the list
  of what the system delivers.

  \<^bold>\<open>Assumptions.\<close>  Memory is sequentially consistent, and an access to a control field is one
  step; copies are byte by byte.  A handler of the trusted program is one step in
  \<open>Ivshmem_World\<close> and the theories that build on it, and one step per statement in
  \<open>Ivshmem_Fine\<close>; the search through the channel array is one step everywhere.  The hook's
  callback is two steps, the test of its flag and the part under the spin lock.  The platform
  is LP64 and little-endian.

  \<^bold>\<open>Not modelled.\<close>  Printing (with the client's helpers for it and the hook's pre-handler,
  which only print) and throughput figures; \<^verbatim>\<open>ivshmem_observe\<close> (empty body); the variants
  selected by \<^verbatim>\<open>HOOK_DEV\<close> 1 (whose driver is the kernel's); scripts, certificates and the QEMU environment.
\<close>

section \<open>Programs over the library\<close>

text \<open>
  A round of the plain writer and reader, in a world of other calls: the send call for the
  message with counter \<open>c\<close> and the receive call, each with the program's own key.  For the
  lock-based programs, reader and writer first write to the control section.
\<close>

definition secure_programs :: "u32 \<times> u32 \<Rightarrow> u32 \<Rightarrow> u64 \<Rightarrow> byte list \<Rightarrow> world \<Rightarrow> tenants" where
  "secure_programs vms pid c buf w =
     \<lparr>te_snd = send_call (writer_key vms pid) (fill_message c) (word_of_nat MESSAGE_SIZE),
      te_rcv = recv_call (reader_key vms) buf (word_of_nat MESSAGE_SIZE), te_world = w\<rparr>"

text \<open>
  The session of a writer's output with a reader: the messages are those of the writer's main
  function, when its calls return 0 at the times \<open>ts\<close>.  \<open>reader_rounds\<close> are the rounds of the
  reader's main function for the messages its calls got.
\<close>

definition secure_session :: "u32 \<times> u32 \<Rightarrow> u32 \<Rightarrow> byte list \<Rightarrow> world \<Rightarrow> app_result \<Rightarrow> tenants session" where
  "secure_session vms pid buf w writer =
     (case writer of (status, ev, calls) \<Rightarrow>
        \<lparr>se_sys = secure_programs vms pid 0 buf w, se_msgs = sent_messages ev, se_next = 1, se_got = []\<rparr>)"

definition reader_rounds :: "time_t list \<Rightarrow> byte list list \<Rightarrow> (c_int \<times> byte list \<times> time_t) list" where
  "reader_rounds ts got = map (\<lambda>(now, buf). (0, buf, now)) (zip ts got)"

definition writer_output :: "app_opt list \<Rightarrow> c_int \<Rightarrow> c_ptr \<Rightarrow> dev_ctx \<Rightarrow> u32 \<Rightarrow> time_t \<Rightarrow> time_t list \<Rightarrow> app_result" where
  "writer_output os fd m ctx pid start ts = writer_main os fd m ctx pid True start (map (Pair 0) ts)"

definition lock_programs :: "u32 \<times> u32 \<Rightarrow> u32 \<Rightarrow> u64 \<Rightarrow> byte list \<Rightarrow> lock_ctrl \<Rightarrow> (nat \<Rightarrow> byte) \<Rightarrow> lock_sys" where
  "lock_programs vms pid c buf cs data =
     (case lock_reader_setup vms cs of (rkey, cs1) \<Rightarrow>
      case lock_writer_setup vms pid cs1 of (wkey, cs2) \<Rightarrow>
        \<lparr>lsy_snd = lock_send_call wkey (fill_message c) (word_of_nat MESSAGE_SIZE),
         lsy_rcv = lock_recv_call rkey buf (word_of_nat MESSAGE_SIZE),
         lsy_shm = \<lparr>lock_sec = cs2, lock_data = data\<rparr>\<rparr>)"

text \<open>The same for the lock-based programs.\<close>

definition lock_session ::
  "u32 \<times> u32 \<Rightarrow> u32 \<Rightarrow> byte list \<Rightarrow> lock_ctrl \<Rightarrow> (nat \<Rightarrow> byte) \<Rightarrow> app_result \<Rightarrow> lock_sys session" where
  "lock_session vms pid buf cs data writer =
     (case writer of (status, ev, calls) \<Rightarrow>
        \<lparr>se_sys = lock_programs vms pid 0 buf cs data, se_msgs = sent_messages ev, se_next = 1, se_got = []\<rparr>)"

definition lock_writer_output ::
  "app_opt list \<Rightarrow> c_int \<Rightarrow> c_ptr \<Rightarrow> dev_ctx \<Rightarrow> u32 \<Rightarrow> lock_ctrl \<Rightarrow> time_t \<Rightarrow> time_t list \<Rightarrow> app_result" where
  "lock_writer_output os fd m ctx pid cs start ts =
     fst (lock_writer_main os fd m ctx pid cs True start (map (Pair 0) ts))"

definition stale_lock :: lock_ctrl where
  "stale_lock = \<lparr>ref_count = 9, lk_mutex = True, lk_key = \<lparr>lk_sender_vm = 5, lk_sender_pid = 5, lk_receiver_vm = 5\<rparr>, lk_data_size = 1\<rparr>"

section \<open>Properties\<close>

lemma unat_message_size: "unat (word_of_nat MESSAGE_SIZE :: size_t) = 268435456"
  by (simp add: MESSAGE_SIZE_def)

lemma secure_programs_init:
  assumes "reach world_init calm_step w" and "control_mutex (ctrl (w_shm w)) = 0" and "length buf = MESSAGE_SIZE"
    and "ivshmem_find_channel (ctrl (w_shm w)) (writer_key vms pid) = Inr (Some ch)"
    and "ivshmem_find_channel (ctrl (w_shm w)) (reader_key vms) = Inr (Some ch)"
    and "head (chan_at (w_shm w) ch) = tail (chan_at (w_shm w) ch)"
    and "foreign_world (chan_key (chan_at (w_shm w) ch)) w"
  shows "tenants_start MESSAGE_SIZE (fill_message c) (secure_programs vms pid c buf w)"
proof -
  have "wf_ctrl (ctrl (w_shm w))" using calm.reach_inv [OF assms(1)] by (simp add: world_inv_def Let_def)
  then have "ring_start MESSAGE_SIZE (fill_message c) (te_pair (secure_programs vms pid c buf w))"
    using assms(2-6) unat_message_size
    by (simp add: ring_start_def ring_init_def secure_programs_def te_pair_def send_call_def recv_call_def MESSAGE_SIZE_def Let_def)
  moreover have "te_foreign (secure_programs vms pid c buf w)"
    using assms(4,7) by (simp add: te_foreign_def secure_programs_def send_call_def)
  ultimately show ?thesis using assms(1) by (simp add: tenants_start_def, simp add: secure_programs_def)
qed

lemma writer_output_messages:
  assumes "app_vms os = Some vms" and "0 \<le> fd" and "m \<noteq> Map_failed"
  shows "se_msgs (secure_session vms pid buf w (writer_output os fd m ctx pid start ts)) =
    writer_run ts \<lparr>w_counter = 0, w_total = 0, w_start = start\<rparr>"
  using sent_messages_writer_main [OF assms, of ctx pid start "map (Pair 0) ts"]
  by (simp add: secure_session_def writer_output_def case_prod_beta comp_def)

lemma secure_session_init:
  assumes "app_vms os = Some vms" and "0 \<le> fd" and "m \<noteq> Map_failed" and "ts \<noteq> []"
    and "tenants_start MESSAGE_SIZE (fill_message 0) (secure_programs vms pid 0 buf w)"
  shows "session_init tenants_start (secure_session vms pid buf w (writer_output os fd m ctx pid start ts))"
proof -
  let ?w = "\<lparr>w_counter = 0, w_total = 0, w_start = start\<rparr>"
  let ?s = "secure_session vms pid buf w (writer_output os fd m ctx pid start ts)"
  have m: "se_msgs ?s = writer_run ts ?w" by (rule writer_output_messages [OF assms(1-3)])
  have first: "writer_run ts ?w ! 0 = fill_message 0" using writer_run_first [OF assms(4)] by simp
  have s: "se_sys ?s = secure_programs vms pid 0 buf w" by (simp add: secure_session_def case_prod_beta)
  have "writer_run ts ?w \<noteq> []" using assms(4) length_writer_run [of ts ?w] by (metis length_0_conv)
  moreover have "se_next ?s = 1" "se_got ?s = []" by (simp_all add: secure_session_def case_prod_beta)
  ultimately show ?thesis
    using assms(5) writer_run_lengths [of _ ts ?w] unfolding session_init_def m first s by (simp add: MESSAGE_SIZE_def)
qed



lemma lock_programs_init:
  assumes "ref_count cs = 0" and "\<not> lk_mutex cs" and "length buf = MESSAGE_SIZE"
  shows "lock_init (lock_programs vms pid c buf cs data)"
  using assms unat_message_size
  by (simp add: lock_init_def lock_programs_def lock_reader_setup_def lock_writer_setup_def
      lock_send_call_def lock_recv_call_def MESSAGE_SIZE_def Let_def)

lemma lock_writer_output_messages:
  assumes "app_vms os = Some vms" and "0 \<le> fd" and "m \<noteq> Map_failed"
  shows "se_msgs (lock_session vms pid buf cs data (lock_writer_output os fd m ctx pid cs' start ts)) =
    writer_run ts \<lparr>w_counter = 0, w_total = 0, w_start = start\<rparr>"
  using assms
  by (simp add: lock_session_def lock_writer_output_def lock_writer_main_def app_start_eq lock_writer_setup_def
      sent_messages_lock_writer_loop comp_def Let_def)

lemma lock_session_init:
  assumes "app_vms os = Some vms" and "0 \<le> fd" and "m \<noteq> Map_failed" and "ts \<noteq> []"
    and "lock_init (lock_programs vms pid 0 buf cs data)"
  shows "session_init lock_begin (lock_session vms pid buf cs data (lock_writer_output os fd m ctx pid cs' start ts))"
proof -
  let ?w = "\<lparr>w_counter = 0, w_total = 0, w_start = start\<rparr>"
  let ?s = "lock_session vms pid buf cs data (lock_writer_output os fd m ctx pid cs' start ts)"
  have m: "se_msgs ?s = writer_run ts ?w" by (rule lock_writer_output_messages [OF assms(1-3)])
  have first: "writer_run ts ?w ! 0 = fill_message 0" using writer_run_first [OF assms(4)] by simp
  have "se_sys ?s = lock_programs vms pid 0 buf cs data" by (simp add: lock_session_def case_prod_beta)
  moreover have "ls_buf (lsy_snd (lock_programs vms pid 0 buf cs data)) = fill_message 0"
    "unat (ls_size (lsy_snd (lock_programs vms pid 0 buf cs data))) = 268435456"
    by (simp_all add: lock_programs_def lock_reader_setup_def lock_writer_setup_def lock_send_call_def unat_message_size Let_def)
  ultimately have "lock_begin 268435456 (fill_message 0) (se_sys ?s)" using assms(5) by (simp add: lock_begin_def)
  moreover have "writer_run ts ?w \<noteq> []" using assms(4) length_writer_run [of ts ?w] by (metis length_0_conv)
  moreover have "se_next ?s = 1" "se_got ?s = []" by (simp_all add: lock_session_def case_prod_beta)
  ultimately show ?thesis using writer_run_lengths [of _ ts ?w] unfolding session_init_def m first by simp
qed

text \<open>
  C15.  The lock-based programs from initialisation to the reader's check: after lock_init
  has returned 0 and reader and writer have put their keys into the control section,
  whatever the interleaving, the reader's main function reports no mismatch and does not end
  on the messages its calls have got, and from every state of the session it can still get
  all messages that the writer's main function sends.
\<close>

theorem lock_programs_run:
  assumes "lock_init_main fd0 m0 ctx0 cs0 = (0, cs, calls)"
    and "app_vms os = Some vms" and "0 \<le> fd" and "m \<noteq> Map_failed" and "ts \<noteq> []" and "length buf = MESSAGE_SIZE"
    and "steps lock_session_step (lock_session vms pid buf cs data (lock_writer_output os fd m ctx pid cs' start ts)) s"
  shows "fst (lock_reader_main os fd m ctx' cs True start' (reader_rounds ts' (se_got s))) = (App_running, [], []) \<and>
    (\<exists>t. steps lock_session_step s t \<and> se_got t = writer_run ts \<lparr>w_counter = 0, w_total = 0, w_start = start\<rparr>)"
proof -
  let ?w = "\<lparr>w_counter = 0, w_total = 0, w_start = start\<rparr>" and ?r = "\<lparr>r_expected = 0, r_total = 0, r_start = start'\<rparr>"
  have "ref_count cs = 0" "\<not> lk_mutex cs"
    using assms(1) by (auto simp: lock_init_main_def ivshmem_lock_init_control_section_def split: prod.splits if_splits)
  from lock_session_init [OF assms(2-5) lock_programs_init [OF this assms(6)]]
  have r: "reach (session_init lock_begin) lock_session_step s" by (blast intro: reach_steps [OF assms(7)] reach_init)
  have m: "se_msgs s = writer_run ts ?w"
    using session_msgs_steps [OF assms(7)] lock_writer_output_messages [OF assms(2-4)] by simp
  then obtain k where "se_got s = writer_run (take k ts) ?w"
    using lock_calls_returns(6) [OF lock_calls.session.reach_inv [OF r]] take_writer_run by metis
  then have "reader_run (zip ts' (se_got s)) ?r = []" using reader_follows [of ?r ?w] by simp
  then have "fst (lock_reader_main os fd m ctx' cs True start' (reader_rounds ts' (se_got s))) = (App_running, [], [])"
    using assms(2-4)
    by (simp add: lock_reader_main_def app_start_eq reader_rounds_def lock_reader_loop_run lock_reader_setup_def)
  moreover obtain t where "steps lock_session_step s t" "se_got t = se_msgs t"
    using lock_calls.session.reach_can_finish [OF r] by (auto simp: session_done_def)
  ultimately show ?thesis using m session_msgs_steps by metis
qed

theorem lock_programs_run_witness:
  "\<exists>cs t. fst (snd (lock_init_main 3 (Ptr 1) stack_ctx stale_lock)) = cs \<and>
     steps lock_session_step (lock_session (1, 2) 10 (replicate MESSAGE_SIZE 0) cs (\<lambda>_. 0)
       (lock_writer_output [] 3 (Ptr 4096) stack_ctx 10 cs 0 [0, 1])) t \<and>
     se_got t = [fill_message 0, fill_message 1]"
proof -
  have "fst (lock_init_main 3 (Ptr 1) stack_ctx stale_lock) = 0"
    by (simp add: lock_init_main_def ivshmem_open_dev_def ivshmem_lock_init_control_section_def Let_def init_dev_ctx_eq)
  then obtain cs calls where m: "lock_init_main 3 (Ptr 1) stack_ctx stale_lock = (0, cs, calls)" by (metis prod.collapse)
  have "writer_run [0, 1] \<lparr>w_counter = 0, w_total = 0, w_start = 0\<rparr> = [fill_message 0, fill_message 1]"
    by (simp add: writer_iter_def Let_def)
  moreover have "app_vms [] = Some (1, 2)" by (simp add: app_vms_def)
  ultimately show ?thesis
    using lock_programs_run [OF m _ _ _ _ _ steps_refl, where os = "[]" and fd = 3 and m = "Ptr 4096" and
        ts = "[0, 1]" and buf = "replicate MESSAGE_SIZE 0" and ctx = stack_ctx and start = 0] m
    by (simp del: writer_run.simps)
qed

lemma hook_rejects_library_facts:
  assumes "vma_aligned vma" and "file_mmap_ok vma" and "\<not> is_locked st" and "limit_map_size st = 0x1000"
    and "vm_pgoff vma = 0" and "int (vma_len vma) = IVSHMEM_SIZE" and "0 \<le> fd"
  shows "\<exists>ctx. ivshmem_open_dev fd (mmap_result (hooked_mmap (myshm_mmap remap) ''myshm'' vma st) (unat (vm_start vma)))
      (ivshmem_init_dev_ctx ctx0) = (- 1, ctx, [Os_close fd])"
    and "(\<And>va off. remap va off = 0) \<Longrightarrow>
      \<exists>ctx. ivshmem_open_dev fd (mmap_result (myshm_mmap remap vma) (unat (vm_start vma))) (ivshmem_init_dev_ctx ctx0) = (0, ctx, []) \<and>
        p_shmem ctx = Ptr (unat (vm_start vma))"
proof -
  have len: "vma_len vma = 4194304" using assms(6) by (simp add: IVSHMEM_SIZE_def)
  then have "\<not> hook_admits vma" by (simp add: hook_admits_def)
  then have "hooked_mmap (myshm_mmap remap) ''myshm'' vma st = Some (- EINVAL, [], st\<lparr>is_locked := True, is_locked := False\<rparr>)"
    using hook_func_eq [OF assms(1-4), of "''myshm''"] by (simp add: hooked_mmap_def ivshmem_dummy_mmap_def HOOK_DNAME_def)
  then show "\<exists>ctx. ivshmem_open_dev fd (mmap_result (hooked_mmap (myshm_mmap remap) ''myshm'' vma st) (unat (vm_start vma)))
      (ivshmem_init_dev_ctx ctx0) = (- 1, ctx, [Os_close fd])"
    using assms(7) by (simp add: mmap_result_def EINVAL_def ivshmem_open_dev_def init_dev_ctx_eq Let_def)
  assume z: "\<And>va off. remap va off = 0"
  have "\<exists>maps. myshm_mmap remap vma = Some (0, maps)"
    using myshm_mmap_pages [OF assms(1,2), of remap] z len assms(5) by (auto simp: Let_def vma_len_def)
  then show "\<exists>ctx. ivshmem_open_dev fd (mmap_result (myshm_mmap remap vma) (unat (vm_start vma))) (ivshmem_init_dev_ctx ctx0) = (0, ctx, []) \<and>
        p_shmem ctx = Ptr (unat (vm_start vma))"
    using assms(7) by (auto simp: mmap_result_def ivshmem_open_dev_def init_dev_ctx_eq Let_def)
qed

text \<open>
  C29.  The hook and the library do not fit together: with the hook in place the library's
  own request for the whole device is refused, so ivshmem_open_dev returns -1; without the
  hook the same request succeeds.
\<close>

theorem hook_rejects_library:
  assumes "vma_aligned vma" and "file_mmap_ok vma" and "\<not> is_locked st" and "limit_map_size st = 0x1000"
    and "vm_pgoff vma = 0" and "int (vma_len vma) = IVSHMEM_SIZE" and "0 \<le> fd"
  shows "(\<exists>ctx. ivshmem_open_dev fd (mmap_result (hooked_mmap (myshm_mmap remap) ''myshm'' vma st) (unat (vm_start vma)))
        (ivshmem_init_dev_ctx ctx0) = (- 1, ctx, [Os_close fd])) \<and>
    ((\<forall>va off. remap va off = 0) \<longrightarrow>
      (\<exists>ctx. ivshmem_open_dev fd (mmap_result (myshm_mmap remap vma) (unat (vm_start vma))) (ivshmem_init_dev_ctx ctx0) =
          (0, ctx, []) \<and> p_shmem ctx = Ptr (unat (vm_start vma))))"
  using hook_rejects_library_facts [OF assms] by auto

theorem hook_rejects_library_witness:
  "\<exists>ctx. ivshmem_open_dev 3 (mmap_result (hooked_mmap (myshm_mmap (\<lambda>_ _. 0)) ''myshm'' whole_vma
       \<lparr>is_locked = False, limit_map_size = 0x1000\<rparr>) (unat (vm_start whole_vma))) (ivshmem_init_dev_ctx stack_ctx) = (- 1, ctx, [Os_close 3])"
  using hook_rejects_library [OF whole_vma_ok(1,2), of "\<lparr>is_locked = False, limit_map_size = 0x1000\<rparr>" 3 "\<lambda>_ _. 0" stack_ctx]
  by (simp add: whole_vma_def vma_len_def IVSHMEM_SIZE_def)

end
